(* ===== verification/Kcdx_Prelude.thy ===== *)
theory Kcdx_Prelude
  imports Main "HOL-Library.Word" "HOL-Library.List_Lexorder" "HOL-Library.Char_ord"
    "HOL-Library.Product_Lexorder" "HOL-Library.Sublist" "HOL-Library.Multiset"
begin

text \<open>
  What every component of the model shares: the C++ string operations the sources use
  (trimming, searching, splitting into lines), little-endian integers, the association-list
  view of a parsed TOML document, and the interfaces (locales) through which one component
  relies on another.

  Strings are the sources' \<open>std::string\<close>: byte sequences, compared by unsigned byte
  (\<open>HOL-Library.List_Lexorder\<close> over \<open>HOL-Library.Char_ord\<close> is that order).
\<close>

unbundle bit_operations_syntax

named_theorems str_simps \<open>rewrite rules for the string operations\<close>

type_synonym byte = "8 word"
type_synonym u16 = "16 word"
type_synonym u32 = "32 word"
type_synonym u64 = "64 word"

section \<open>Strings\<close>

abbreviation nl :: char where
  "nl \<equiv> CHR 0x0A"

text \<open>\<open>std::isspace\<close> in the C locale.\<close>

definition is_space :: "char \<Rightarrow> bool" where
  "is_space c \<longleftrightarrow> c \<in> {CHR '' '', CHR 0x09, CHR 0x0A, CHR 0x0B, CHR 0x0C, CHR 0x0D}"

text \<open>The two-index trimming loop: drop the characters satisfying \<open>p\<close> from both ends.\<close>

definition trim_by :: "(char \<Rightarrow> bool) \<Rightarrow> string \<Rightarrow> string" where
  "trim_by p s = rev (dropWhile p (rev (dropWhile p s)))"

lemma trim_by_id:
  "s = [] \<or> \<not> p (hd s) \<and> \<not> p (last s) \<Longrightarrow> trim_by p s = s"
proof (cases "s = []")
  case False
  assume "s = [] \<or> \<not> p (hd s) \<and> \<not> p (last s)"
  then have "\<not> p (hd s)" "\<not> p (hd (rev s))" using False by (simp_all add: hd_rev)
  moreover have "dropWhile p t = t" if "\<not> p (hd t)" for t
    using that by (cases t) auto
  ultimately show ?thesis by (simp add: trim_by_def)
qed (simp add: trim_by_def)

lemma trim_by_Nil [simp]: "trim_by p [] = []"
  by (simp add: trim_by_def)

lemma trim_by_hd: "trim_by p s \<noteq> [] \<Longrightarrow> \<not> p (hd (trim_by p s))"
proof -
  assume ne: "trim_by p s \<noteq> []"
  let ?d = "dropWhile p s"
  have pre: "\<exists>t. ?d = trim_by p s @ t"
    unfolding trim_by_def
    by (metis rev_append rev_rev_ident takeWhile_dropWhile_id)
  then have "hd ?d = hd (trim_by p s)" "?d \<noteq> []"
    using ne by (metis hd_append2, metis append_is_Nil_conv)
  then show ?thesis using hd_dropWhile [of p s] by metis
qed

lemma trim_by_last: "trim_by p s \<noteq> [] \<Longrightarrow> \<not> p (last (trim_by p s))"
  unfolding trim_by_def
  by (metis hd_dropWhile last_rev rev.simps(1))

lemma trim_by_idem [simp]: "trim_by p (trim_by p s) = trim_by p s"
  using trim_by_hd [of p s] trim_by_last [of p s] by (blast intro: trim_by_id)

lemma set_trim_by: "set (trim_by p s) \<subseteq> set s"
  unfolding trim_by_def by (auto dest!: set_dropWhileD)

text \<open>\<open>s.compare(0, pat.size(), pat) == 0\<close>, also written \<open>s.rfind(pat, 0) == 0\<close>.\<close>

fun starts_with :: "'a list \<Rightarrow> 'a list \<Rightarrow> bool" where
  "starts_with [] s = True"
| "starts_with (p # ps) [] = False"
| "starts_with (p # ps) (c # cs) = (p = c \<and> starts_with ps cs)"

lemma starts_with_iff: "starts_with p s \<longleftrightarrow> (\<exists>t. s = p @ t)"
  by (induction p s rule: starts_with.induct) auto

lemma starts_with_append [simp]: "starts_with p (p @ t)"
  by (auto simp: starts_with_iff)

lemma starts_with_drop: "starts_with p s \<Longrightarrow> p @ drop (length p) s = s"
  by (auto simp: starts_with_iff)

text \<open>\<open>s.find(pat, pos)\<close>: the least position from \<open>pos\<close> on where \<open>pat\<close> occurs.\<close>

fun find_sub :: "'a list \<Rightarrow> 'a list \<Rightarrow> nat option" where
  "find_sub p [] = (if p = [] then Some 0 else None)"
| "find_sub p (c # cs) =
     (if starts_with p (c # cs) then Some 0 else map_option Suc (find_sub p cs))"

definition str_find :: "string \<Rightarrow> string \<Rightarrow> nat \<Rightarrow> nat option" where
  "str_find s p pos =
     (if pos \<le> length s then map_option (\<lambda>i. pos + i) (find_sub p (drop pos s)) else None)"

lemma find_sub_SomeD:
  "find_sub p s = Some i \<Longrightarrow> i + length p \<le> length s \<and> take (length p) (drop i s) = p
     \<and> (\<forall>j<i. \<not> starts_with p (drop j s))"
proof (induction p s arbitrary: i rule: find_sub.induct)
  case (1 p)
  then show ?case by (auto split: if_splits)
next
  case (2 p c cs)
  show ?case
  proof (cases "starts_with p (c # cs)")
    case True
    then have "i = 0" "\<exists>t. c # cs = p @ t"
      using "2.prems" by (auto simp: starts_with_iff)
    moreover have "length p \<le> length (c # cs)"
      using calculation(2) by (metis le_add1 length_append)
    ultimately show ?thesis by auto
  next
    case False
    then obtain k where k: "find_sub p cs = Some k" "i = Suc k"
      using "2.prems" by auto
    then show ?thesis
      using "2.IH" [OF False] False by (auto simp: less_Suc_eq_0_disj)
  qed
qed

lemma find_sub_NoneD: "find_sub p s = None \<Longrightarrow> \<not> starts_with p (drop j s)"
proof (induction p s arbitrary: j rule: find_sub.induct)
  case (1 p)
  then show ?case by (cases p) (auto split: if_splits)
next
  case (2 p c cs)
  then show ?case by (cases j) (auto split: if_splits)
qed

lemma str_find_SomeD:
  "str_find s p pos = Some i \<Longrightarrow> pos \<le> i \<and> i + length p \<le> length s \<and> take (length p) (drop i s) = p"
  by (auto simp: str_find_def add.commute dest!: find_sub_SomeD split: if_splits)

text \<open>Searching for one character that does not occur before the position found.\<close>

lemma find_sub_char:
  "c \<notin> set xs \<Longrightarrow> find_sub [c] (xs @ c # ys) = Some (length xs)"
  by (induction xs) auto

lemma find_sub_char_None: "find_sub [c] xs = None \<longleftrightarrow> c \<notin> set xs"
  by (induction xs) auto

lemma str_find_char:
  "c \<notin> set xs \<Longrightarrow> str_find (xs @ c # ys) [c] 0 = Some (length xs)"
  by (simp add: str_find_def find_sub_char)

text \<open>
  \<open>std::getline\<close> until the stream fails: the text cut at every newline; a final line without a
  newline counts when it is not empty, and no empty line follows a final newline.
\<close>

fun getlines :: "string \<Rightarrow> string list" where
  "getlines [] = []"
| "getlines (c # cs) =
     (if c = nl then [] # getlines cs
      else (case getlines cs of [] \<Rightarrow> [[c]] | l # ls \<Rightarrow> (c # l) # ls))"

lemma getlines_line: "nl \<notin> set l \<Longrightarrow> getlines (l @ nl # rest) = l # getlines rest"
  by (induction l) (auto split: list.splits)

lemma getlines_no_nl: "l \<in> set (getlines s) \<Longrightarrow> nl \<notin> set l"
proof (induction s arbitrary: l)
  case (Cons c cs)
  show ?case
  proof (cases "getlines cs")
    case Nil
    with Cons.prems show ?thesis by (auto split: if_splits)
  next
    case (Cons a list)
    with Cons.prems Cons.IH show ?thesis by (auto split: if_splits)
  qed
qed simp

lemma getlines_unlines:
  "\<forall>l \<in> set ls. nl \<notin> set l \<Longrightarrow> getlines (concat (map (\<lambda>l. l @ [nl]) ls)) = ls"
  by (induction ls) (auto simp: getlines_line)

text \<open>\<open>std::to_string\<close> of an int.\<close>

fun digits_rev :: "nat \<Rightarrow> string" where
  "digits_rev n = char_of (48 + n mod 10) # (if n < 10 then [] else digits_rev (n div 10))"

declare digits_rev.simps [simp del]

definition to_string :: "int \<Rightarrow> string" where
  "to_string i = (if i < 0 then CHR ''-'' # rev (digits_rev (nat (- i))) else rev (digits_rev (nat i)))"

section \<open>Files\<close>

text \<open>
  What a path on disk is to the sources: absent, present but unreadable, or a text.  A write
  either fails to open, stops after some bytes, or goes through.
\<close>

datatype disk_file = Absent | Unreadable | Content string

datatype write_outcome = OpenFails | StopsAfter nat | Completes

fun disk_write :: "write_outcome \<Rightarrow> string \<Rightarrow> disk_file \<Rightarrow> disk_file \<times> bool" where
  "disk_write OpenFails txt f = (f, False)"
| "disk_write (StopsAfter n) txt f = (Content (take n txt), False)"
| "disk_write Completes txt f = (Content txt, True)"

section \<open>Ordered maps\<close>

text \<open>
  \<open>std::map\<close>: an association list with strictly ascending keys; iteration is list order.
\<close>

abbreviation omap :: "('k::linorder \<times> 'v) list \<Rightarrow> bool" where
  "omap m \<equiv> sorted_wrt (<) (map fst m)"

fun omap_insert :: "'k::linorder \<Rightarrow> 'v \<Rightarrow> ('k \<times> 'v) list \<Rightarrow> ('k \<times> 'v) list" where
  "omap_insert k v [] = [(k, v)]"
| "omap_insert k v ((j, w) # m) =
     (if k < j then (k, v) # (j, w) # m
      else if k = j then (k, v) # m
      else (j, w) # omap_insert k v m)"

definition omap_upd :: "'k \<Rightarrow> ('v \<Rightarrow> 'v) \<Rightarrow> ('k \<times> 'v) list \<Rightarrow> ('k \<times> 'v) list" where
  "omap_upd k f m = map (\<lambda>(j, v). (j, if j = k then f v else v)) m"

lemma omap_distinct: "omap m \<Longrightarrow> distinct (map fst m)"
  by (simp add: strict_sorted_iff)

lemma set_keys_omap_insert [simp]: "fst ` set (omap_insert k v m) = insert k (fst ` set m)"
  by (induction k v m rule: omap_insert.induct) auto

lemma set_omap_insert_keys: "set (map fst (omap_insert k v m)) = insert k (set (map fst m))"
  by simp

lemma omap_insert_sorted [intro, simp]: "omap m \<Longrightarrow> omap (omap_insert k v m)"
proof (induction k v m rule: omap_insert.induct)
  case (2 k v j w m)
  then show ?case
  proof (cases "k < j \<or> k = j")
    case False
    then have "j < k" by auto
    have "omap (omap_insert k v m)" using 2 False by simp
    moreover have "\<forall>x \<in> set (map fst (omap_insert k v m)). j < x"
      using "2.prems" \<open>j < k\<close> unfolding set_omap_insert_keys by simp
    ultimately show ?thesis using False by simp
  qed auto
qed simp

lemma map_of_omap_insert [simp]: "map_of (omap_insert k v m) = (map_of m)(k \<mapsto> v)"
  by (induction k v m rule: omap_insert.induct) (auto simp: fun_eq_iff)

lemma keys_omap_upd [simp]: "map fst (omap_upd k f m) = map fst m"
  by (simp add: omap_upd_def case_prod_beta comp_def)

lemma map_of_omap_upd:
  "map_of (omap_upd k f m) j = (if j = k then map_option f (map_of m j) else map_of m j)"
  by (induction m) (auto simp: omap_upd_def)

lemma map_of_omap_upd_same [simp]: "map_of (omap_upd k f m) k = map_option f (map_of m k)"
  by (simp add: map_of_omap_upd)

lemma map_of_omap_upd_other [simp]: "j \<noteq> k \<Longrightarrow> map_of (omap_upd k f m) j = map_of m j"
  by (simp add: map_of_omap_upd)

lemma length_omap_upd [simp]: "length (omap_upd k f m) = length m"
  by (simp add: omap_upd_def)

section \<open>Little-endian integers\<close>

fun le_bytes :: "nat \<Rightarrow> nat \<Rightarrow> byte list" where
  "le_bytes 0 v = []"
| "le_bytes (Suc k) v = of_nat (v mod 256) # le_bytes k (v div 256)"

fun le_val :: "byte list \<Rightarrow> nat" where
  "le_val [] = 0"
| "le_val (b # bs) = unat b + 256 * le_val bs"

lemma length_le_bytes [simp]: "length (le_bytes k v) = k"
  by (induction k arbitrary: v) simp_all

lemma le_val_le_bytes: "v < 256 ^ k \<Longrightarrow> le_val (le_bytes k v) = v"
proof (induction k arbitrary: v)
  case (Suc k)
  have "v div 256 < 256 ^ k" using Suc.prems by (simp add: less_mult_imp_div_less mult.commute)
  moreover have "unat (of_nat (v mod 256) :: byte) = v mod 256"
    by (rule of_nat_inverse [OF refl]) simp
  ultimately show ?case using Suc.IH by simp
qed simp

end
