(* ===== verification/Kcdx_Data.thy ===== *)
theory Kcdx_Data
  imports Kcdx_Prelude
begin

text \<open>
  The records several components share: the parsed TOML document (what the third-party toml++
  parser returns), the plugin manifest (plugin_loader.h), the pak-mod manifest and registry
  entry (mod_absorb/mod_manifest.h, mod_absorb/pak_mod_registry.h), and the zone enumeration of
  load_order.h.  A path is the string \<open>path.string()\<close> yields.
\<close>

section \<open>Parsed TOML\<close>

text \<open>
  A node of a parsed document.  A table is an association list in the parser's iteration order
  with distinct keys; \<open>t.get(key)\<close> is \<open>map_of\<close>.  Dates, times and the like are \<open>TOther\<close>: the
  sources only ask whether a node is of another kind.
\<close>

datatype toml =
    TString string
  | TInt int
  | TFloat
  | TBool bool
  | TArray "toml list"
  | TTable "(string \<times> toml) list"
  | TOther

type_synonym toml_table = "(string \<times> toml) list"

section \<open>Zones\<close>

datatype zone = BeforeGame | AfterGame

fun zone_num :: "zone \<Rightarrow> int" where
  "zone_num BeforeGame = 0"
| "zone_num AfterGame = 1"

lemma zone_num_eq [simp]: "zone_num a = zone_num b \<longleftrightarrow> a = b"
  by (cases a; cases b) auto

instantiation zone :: linorder
begin

definition less_eq_zone :: "zone \<Rightarrow> zone \<Rightarrow> bool" where
  "less_eq_zone a b \<longleftrightarrow> zone_num a \<le> zone_num b"

definition less_zone :: "zone \<Rightarrow> zone \<Rightarrow> bool" where
  "less_zone a b \<longleftrightarrow> zone_num a < zone_num b"

instance
  by standard (auto simp: less_eq_zone_def less_zone_def)

end

lemma zone_less_simps [simp]:
  "BeforeGame < AfterGame" "\<not> AfterGame < BeforeGame"
  by (simp_all add: less_zone_def)

section \<open>Plugin manifests\<close>

record manifest_dependency =
  dep_name :: string
  dep_minVersion :: u32
  dep_optional :: bool

datatype on_changed = WarnAndTry | RefuseEntry

record plugin_manifest =
  pm_name :: string
  pm_displayName :: string
  pm_author :: string
  pm_description :: string
  pm_url :: string
  pm_supportEmail :: string
  pm_version :: u32
  pm_kcdxMinVersion :: u32
  pm_supports :: "string list"
  pm_dependencies :: "manifest_dependency list"
  pm_testNames :: "string list"
  pm_testSuiteOnly :: bool
  pm_logLevel :: u32
  pm_defaultPosition :: string
  pm_defaultPriority :: int
  pm_onChangedFunction :: on_changed
  pm_dllEntrypointRel :: string
  pm_luaEntrypointsRel :: "string list"
  pm_luaAfterEntrypointsRel :: "string list"
  pm_assetsEntrypointRel :: string
  pm_folderPath :: string
  pm_tomlPath :: string

text \<open>The default-constructed manifest; witnesses set the fields they need.\<close>

definition default_manifest :: plugin_manifest where
  "default_manifest =
    \<lparr>pm_name = [], pm_displayName = [], pm_author = [], pm_description = [], pm_url = [],
     pm_supportEmail = [], pm_version = 0, pm_kcdxMinVersion = 0, pm_supports = [],
     pm_dependencies = [], pm_testNames = [], pm_testSuiteOnly = False, pm_logLevel = 0,
     pm_defaultPosition = [], pm_defaultPriority = 50, pm_onChangedFunction = WarnAndTry,
     pm_dllEntrypointRel = [], pm_luaEntrypointsRel = [], pm_luaAfterEntrypointsRel = [],
     pm_assetsEntrypointRel = [], pm_folderPath = [], pm_tomlPath = []\<rparr>"

section \<open>Pak mods\<close>

record mod_manifest =
  mm_ok :: bool
  mm_name :: string
  mm_description :: string
  mm_author :: string
  mm_version :: string
  mm_createdOn :: string
  mm_modId :: string
  mm_supports :: "string list"

definition default_mod_manifest :: mod_manifest where
  "default_mod_manifest =
    \<lparr>mm_ok = False, mm_name = [], mm_description = [], mm_author = [], mm_version = [],
     mm_createdOn = [], mm_modId = [], mm_supports = []\<rparr>"

record pak_mod =
  pk_modId :: string
  pk_rootPathSlash :: string
  pk_rootPathNoSlash :: string
  pk_manifest :: mod_manifest
  pk_fromModsDir :: bool
  pk_fromWorkshop :: bool
  pk_modOrderIndex :: int

text \<open>The load-order key of a pak mod.\<close>

definition LoadOrderNameFor :: "string \<Rightarrow> string" where
  "LoadOrderNameFor modId = ''mods.'' @ modId"

lemma LoadOrderNameFor_inj [simp]: "LoadOrderNameFor a = LoadOrderNameFor b \<longleftrightarrow> a = b"
  by (simp add: LoadOrderNameFor_def)

lemma LoadOrderNameFor_ne [simp]: "LoadOrderNameFor a \<noteq> []"
  by (simp add: LoadOrderNameFor_def)

text \<open>
  A plugin name consists of \<open>a-z\<close>, \<open>0-9\<close> and underscore, so no plugin name is a pak mod's key.
\<close>

definition dot_free :: "string \<Rightarrow> bool" where
  "dot_free s \<longleftrightarrow> CHR ''.'' \<notin> set s"

lemma dot_free_not_pak_key: "dot_free n \<Longrightarrow> n \<noteq> LoadOrderNameFor m"
  by (auto simp: dot_free_def LoadOrderNameFor_def)

end
