(* ===== verification/Load_Order.thy ===== *)
theory Load_Order
  imports Kcdx_Data
begin

text \<open>
  src/load_order.cpp, the state part: the user overrides read from kcdx-engine/load_order.toml
  (\<open>Read\<close>), the resolved row of every plugin and pak mod (\<open>Resolve\<close>), and the queries and the
  writer every other component goes through (\<open>Of\<close>, \<open>RunsBefore\<close>, \<open>IsPluginEnabled\<close>,
  \<open>SetEngineAccepted\<close>, \<open>CaptureState\<close>, \<open>RestoreState\<close>).

  The two file-scope hash maps are the two fields of \<open>lo_state\<close>; logging has no effect on them and
  is left out.  The last section states the interface other components use as locales and
  interprets them on these operations.
\<close>

section \<open>State\<close>

record user_override =
  ov_name :: string
  ov_hasZone :: bool
  ov_zone :: zone
  ov_hasPriority :: bool
  ov_priority :: int
  ov_hasEnabled :: bool
  ov_enabled :: bool

record effective =
  eff_zone :: zone
  eff_priority :: int
  userEnabled :: bool
  engineAccepted :: bool
  eff_orderIndex :: int

definition INT_MAX :: int where
  "INT_MAX = 2147483647"

definition default_override :: user_override where
  "default_override = \<lparr>ov_name = [], ov_hasZone = False, ov_zone = AfterGame,
     ov_hasPriority = False, ov_priority = 50, ov_hasEnabled = False, ov_enabled = True\<rparr>"

definition DefaultEffective :: effective where
  "DefaultEffective = \<lparr>eff_zone = AfterGame, eff_priority = 50, userEnabled = True,
     engineAccepted = True, eff_orderIndex = INT_MAX\<rparr>"

record lo_state =
  g_userOverrides :: "string \<rightharpoonup> user_override"
  g_effective :: "string \<rightharpoonup> effective"

section \<open>Reading load_order.toml\<close>

text \<open>Why a row of the file is rejected, in the order the checks run.\<close>

datatype row_error =
    RowNotTable
  | RowUnknownKey string
  | RowNoName
  | RowEmptyName
  | RowZoneType
  | RowZoneValue string
  | RowPriorityType
  | RowPriorityRange int
  | RowEnabledType

definition ParseZoneString :: "string \<Rightarrow> zone option" where
  "ParseZoneString s =
     (if s = ''before_game'' then Some BeforeGame
      else if s = ''after_game'' then Some AfterGame
      else None)"

definition kRowKeys :: "string list" where
  "kRowKeys = [''name'', ''zone'', ''priority'', ''enabled'']"

text \<open>\<open>static_cast<int>\<close> of a 64-bit value: the low 32 bits, read as a signed integer.\<close>

definition cast_int :: "int \<Rightarrow> int" where
  "cast_int v = sint (word_of_int v :: u32)"

definition row_unknown_key :: "toml_table \<Rightarrow> string option" where
  "row_unknown_key t = map_option fst (find (\<lambda>(k, _). k \<notin> set kRowKeys) t)"

definition row_name :: "toml_table \<Rightarrow> row_error + user_override" where
  "row_name t =
     (case map_of t ''name'' of
        Some (TString n) \<Rightarrow>
          if n = [] then Inl RowEmptyName else Inr (default_override\<lparr>ov_name := n\<rparr>)
      | _ \<Rightarrow> Inl RowNoName)"

definition row_zone :: "toml_table \<Rightarrow> user_override \<Rightarrow> row_error + user_override" where
  "row_zone t ov =
     (case map_of t ''zone'' of
        None \<Rightarrow> Inr ov
      | Some (TString s) \<Rightarrow>
          (case ParseZoneString s of
             None \<Rightarrow> Inl (RowZoneValue s)
           | Some z \<Rightarrow> Inr (ov\<lparr>ov_zone := z, ov_hasZone := True\<rparr>))
      | Some _ \<Rightarrow> Inl RowZoneType)"

definition row_priority :: "toml_table \<Rightarrow> user_override \<Rightarrow> row_error + user_override" where
  "row_priority t ov =
     (case map_of t ''priority'' of
        None \<Rightarrow> Inr ov
      | Some (TInt v) \<Rightarrow>
          (let prio = cast_int v
           in if prio < 0 \<or> prio > 100 then Inl (RowPriorityRange prio)
              else Inr (ov\<lparr>ov_priority := prio, ov_hasPriority := True\<rparr>))
      | Some _ \<Rightarrow> Inl RowPriorityType)"

definition row_enabled :: "toml_table \<Rightarrow> user_override \<Rightarrow> row_error + user_override" where
  "row_enabled t ov =
     (case map_of t ''enabled'' of
        None \<Rightarrow> Inr ov
      | Some (TBool b) \<Rightarrow> Inr (ov\<lparr>ov_enabled := b, ov_hasEnabled := True\<rparr>)
      | Some _ \<Rightarrow> Inl RowEnabledType)"

definition parse_row :: "toml \<Rightarrow> row_error + user_override" where
  "parse_row elem =
     (case elem of
        TTable t \<Rightarrow>
          (case row_unknown_key t of
             Some k \<Rightarrow> Inl (RowUnknownKey k)
           | None \<Rightarrow>
               (case row_name t of Inl e \<Rightarrow> Inl e | Inr ov \<Rightarrow>
                (case row_zone t ov of Inl e \<Rightarrow> Inl e | Inr ov \<Rightarrow>
                 (case row_priority t ov of Inl e \<Rightarrow> Inl e | Inr ov \<Rightarrow>
                  row_enabled t ov))))
      | _ \<Rightarrow> Inl RowNotTable)"

text \<open>The row loop: a rejected row is skipped, a repeated name lets the later row win.\<close>

fun read_rows :: "toml list \<Rightarrow> (string \<rightharpoonup> user_override) \<Rightarrow> (string \<rightharpoonup> user_override)" where
  "read_rows [] m = m"
| "read_rows (e # es) m =
     (case parse_row e of
        Inl _ \<Rightarrow> read_rows es m
      | Inr ov \<Rightarrow> read_rows es (m(ov_name ov \<mapsto> ov)))"

text \<open>
  What the file system and the TOML parser answer for the path: no such file, a parse error, or
  a document.
\<close>

datatype lo_file = NoFile | ParseError | Doc toml_table

definition Read :: "lo_file \<Rightarrow> lo_state \<Rightarrow> lo_state" where
  "Read f s =
     (let s0 = s\<lparr>g_userOverrides := Map.empty\<rparr>
      in case f of
           NoFile \<Rightarrow> s0
         | ParseError \<Rightarrow> s0
         | Doc doc \<Rightarrow>
             (case map_of doc ''plugin'' of
                Some (TArray rows) \<Rightarrow> s0\<lparr>g_userOverrides := read_rows rows Map.empty\<rparr>
              | _ \<Rightarrow> s0))"

section \<open>Resolving\<close>

definition is_engine_builtin :: "string \<Rightarrow> bool" where
  "is_engine_builtin path \<longleftrightarrow>
     str_find path ''kcdx-engine'' 0 \<noteq> None \<and> str_find path ''builtin'' 0 \<noteq> None"

definition author_zone :: "plugin_manifest \<Rightarrow> zone" where
  "author_zone m =
     (if pm_defaultPosition m = ''before_game'' then BeforeGame
      else if pm_defaultPosition m = ''after_game'' then AfterGame
      else if is_engine_builtin (pm_tomlPath m) then BeforeGame else AfterGame)"

text \<open>One lookup in the override map, applied to a starting zone and priority.\<close>

definition with_override :: "user_override option \<Rightarrow> effective \<Rightarrow> effective" where
  "with_override found e =
     (case found of
        None \<Rightarrow> e
      | Some ov \<Rightarrow>
          e\<lparr>eff_zone := (if ov_hasZone ov then ov_zone ov else eff_zone e),
            eff_priority := (if ov_hasPriority ov then ov_priority ov else eff_priority e),
            userEnabled := (if ov_hasEnabled ov then ov_enabled ov else userEnabled e)\<rparr>)"

definition plugin_row :: "(string \<rightharpoonup> user_override) \<Rightarrow> plugin_manifest \<Rightarrow> effective" where
  "plugin_row ovs m =
     with_override (ovs (pm_name m))
       (DefaultEffective\<lparr>eff_zone := author_zone m, eff_priority := pm_defaultPriority m\<rparr>)"

definition pak_row :: "(string \<rightharpoonup> user_override) \<Rightarrow> pak_mod \<Rightarrow> effective" where
  "pak_row ovs p =
     with_override (ovs (LoadOrderNameFor (pk_modId p)))
       (DefaultEffective\<lparr>eff_zone := AfterGame, eff_priority := 0,
          eff_orderIndex := (if pk_modOrderIndex p \<ge> 0 then pk_modOrderIndex p else INT_MAX)\<rparr>)"

text \<open>\<open>unordered_map::emplace\<close>: the first row of a name stays.\<close>

definition emplace :: "'k \<Rightarrow> 'v \<Rightarrow> ('k \<rightharpoonup> 'v) \<Rightarrow> ('k \<rightharpoonup> 'v)" where
  "emplace k v m = (case m k of None \<Rightarrow> m(k \<mapsto> v) | Some _ \<Rightarrow> m)"

fun fold_plugins :: "(string \<rightharpoonup> user_override) \<Rightarrow> plugin_manifest list
    \<Rightarrow> (string \<rightharpoonup> effective) \<Rightarrow> (string \<rightharpoonup> effective)" where
  "fold_plugins ovs [] m = m"
| "fold_plugins ovs (p # ps) m = fold_plugins ovs ps (emplace (pm_name p) (plugin_row ovs p) m)"

fun fold_paks :: "(string \<rightharpoonup> user_override) \<Rightarrow> pak_mod list
    \<Rightarrow> (string \<rightharpoonup> effective) \<Rightarrow> (string \<rightharpoonup> effective)" where
  "fold_paks ovs [] m = m"
| "fold_paks ovs (p # ps) m =
     fold_paks ovs ps (emplace (LoadOrderNameFor (pk_modId p)) (pak_row ovs p) m)"

definition Resolve :: "plugin_manifest list \<Rightarrow> pak_mod list \<Rightarrow> lo_state \<Rightarrow> lo_state" where
  "Resolve manifests registry s =
     s\<lparr>g_effective :=
        fold_paks (g_userOverrides s) registry
          (fold_plugins (g_userOverrides s) manifests Map.empty)\<rparr>"

section \<open>Queries and the writer\<close>

definition Of :: "lo_state \<Rightarrow> string \<Rightarrow> effective" where
  "Of s n = (case g_effective s n of None \<Rightarrow> DefaultEffective | Some e \<Rightarrow> e)"

definition RunsBefore :: "lo_state \<Rightarrow> string \<Rightarrow> string \<Rightarrow> bool" where
  "RunsBefore s a b =
     (let ea = Of s a; eb = Of s b
      in if eff_zone ea \<noteq> eff_zone eb then eff_zone ea < eff_zone eb
         else if eff_priority ea \<noteq> eff_priority eb then eff_priority ea < eff_priority eb
         else if eff_orderIndex ea \<noteq> eff_orderIndex eb then eff_orderIndex ea < eff_orderIndex eb
         else a < b)"

definition IsPluginEnabled :: "lo_state \<Rightarrow> string \<Rightarrow> bool" where
  "IsPluginEnabled s n =
     (if n = [] then True else userEnabled (Of s n) \<and> engineAccepted (Of s n))"

definition SetEngineAccepted :: "string \<Rightarrow> bool \<Rightarrow> lo_state \<Rightarrow> lo_state" where
  "SetEngineAccepted n accepted s =
     (if n = [] then s
      else case g_effective s n of
             None \<Rightarrow> s
           | Some e \<Rightarrow> s\<lparr>g_effective := (g_effective s)(n \<mapsto> e\<lparr>engineAccepted := accepted\<rparr>)\<rparr>)"

text \<open>
  A snapshot holds the rows of both maps in some iteration order of the hash maps.
\<close>

record lo_snapshot =
  sn_effective :: "(string \<times> effective) list"
  sn_userOverrides :: "(string \<times> user_override) list"

text \<open>\<open>lists_map xs m\<close>: \<open>xs\<close> is an iteration of the finite map \<open>m\<close>.\<close>

definition lists_map :: "('k \<times> 'v) list \<Rightarrow> ('k \<rightharpoonup> 'v) \<Rightarrow> bool" where
  "lists_map xs m \<longleftrightarrow> distinct (map fst xs) \<and> map_of xs = m"

definition is_snapshot :: "lo_state \<Rightarrow> lo_snapshot \<Rightarrow> bool" where
  "is_snapshot s sn \<longleftrightarrow> lists_map (sn_effective sn) (g_effective s)
     \<and> lists_map (sn_userOverrides sn) (g_userOverrides s)"

fun emplace_all :: "('k \<times> 'v) list \<Rightarrow> ('k \<rightharpoonup> 'v) \<Rightarrow> ('k \<rightharpoonup> 'v)" where
  "emplace_all [] m = m"
| "emplace_all ((k, v) # xs) m = emplace_all xs (emplace k v m)"

definition RestoreState :: "lo_snapshot \<Rightarrow> lo_state \<Rightarrow> lo_state" where
  "RestoreState sn s =
     s\<lparr>g_effective := emplace_all (sn_effective sn) Map.empty,
       g_userOverrides := emplace_all (sn_userOverrides sn) Map.empty\<rparr>"

section \<open>Rows and overrides: basic lemmas\<close>

named_theorems lo_simps \<open>unfolding the load-order queries\<close>

lemmas lo_query_defs = Of_def IsPluginEnabled_def SetEngineAccepted_def

lemma cast_int_small [simp]: "- (2 ^ 31) \<le> v \<Longrightarrow> v < 2 ^ 31 \<Longrightarrow> cast_int v = v"
  unfolding cast_int_def by (subst signed_of_int) (simp add: signed_take_bit_int_eq_self)

lemma cast_int_mod: "0 \<le> v mod 2 ^ 32 \<Longrightarrow> v mod 2 ^ 32 < 2 ^ 31 \<Longrightarrow> cast_int v = v mod 2 ^ 32"
proof -
  assume "v mod 2 ^ 32 < 2 ^ 31"
  moreover have "(word_of_int v :: u32) = word_of_int (v mod 2 ^ 32)"
    by (simp add: word_of_int_eq_iff take_bit_eq_mod)
  ultimately show ?thesis
    using cast_int_small [of "v mod 2 ^ 32"] by (simp add: cast_int_def)
qed

text \<open>The rows the loop accepts, in file order.\<close>

definition accepted_rows :: "toml list \<Rightarrow> (string \<times> user_override) list" where
  "accepted_rows es =
     concat (map (\<lambda>e. case parse_row e of Inl _ \<Rightarrow> [] | Inr ov \<Rightarrow> [(ov_name ov, ov)]) es)"

lemma accepted_rows_simps [simp]:
  "accepted_rows [] = []"
  "accepted_rows (xs @ ys) = accepted_rows xs @ accepted_rows ys"
  "parse_row e = Inl er \<Longrightarrow> accepted_rows (e # es) = accepted_rows es"
  "parse_row e = Inr ov \<Longrightarrow> accepted_rows (e # es) = (ov_name ov, ov) # accepted_rows es"
  by (simp_all add: accepted_rows_def)

lemma read_rows_eq: "read_rows es m = m ++ map_of (rev (accepted_rows es))"
proof (induction es arbitrary: m)
  case (Cons e es)
  show ?case
  proof (cases "parse_row e")
    case (Inl er)
    then show ?thesis using Cons.IH by simp
  next
    case (Inr ov)
    then show ?thesis
      using Cons.IH by (auto simp: map_add_def fun_eq_iff split: option.splits)
  qed
qed simp

lemma row_name_ok: "row_name t = Inr ov \<Longrightarrow> ov_name ov \<noteq> [] \<and> \<not> ov_hasPriority ov"
  by (auto simp: row_name_def default_override_def split: option.splits toml.splits if_splits)

lemma row_zone_ok:
  "row_zone t ov = Inr ov' \<Longrightarrow> ov_name ov' = ov_name ov \<and> ov_hasPriority ov' = ov_hasPriority ov"
  by (auto simp: row_zone_def split: option.splits toml.splits)

lemma row_priority_ok:
  "row_priority t ov = Inr ov' \<Longrightarrow> ov_name ov' = ov_name ov
     \<and> (ov_hasPriority ov' \<longrightarrow> ov_hasPriority ov \<or> 0 \<le> ov_priority ov' \<and> ov_priority ov' \<le> 100)"
  by (auto simp: row_priority_def Let_def split: option.splits toml.splits if_splits)

lemma row_enabled_ok:
  "row_enabled t ov = Inr ov' \<Longrightarrow> ov_name ov' = ov_name ov
     \<and> ov_hasPriority ov' = ov_hasPriority ov \<and> ov_priority ov' = ov_priority ov"
  by (auto simp: row_enabled_def split: option.splits toml.splits)

lemma parse_row_ok:
  assumes "parse_row e = Inr ov"
  shows "ov_name ov \<noteq> [] \<and> (ov_hasPriority ov \<longrightarrow> 0 \<le> ov_priority ov \<and> ov_priority ov \<le> 100)"
proof -
  obtain t o1 o2 o3 where "row_name t = Inr o1" "row_zone t o1 = Inr o2"
    "row_priority t o2 = Inr o3" "row_enabled t o3 = Inr ov"
    using assms by (auto simp: parse_row_def split: toml.splits option.splits sum.splits)
  then show ?thesis
    using row_name_ok row_zone_ok row_priority_ok row_enabled_ok by metis
qed

lemma set_accepted_rows:
  "(n, ov) \<in> set (accepted_rows es) \<longleftrightarrow> (\<exists>e \<in> set es. parse_row e = Inr ov \<and> n = ov_name ov)"
proof (induction es)
  case (Cons e es)
  then show ?case by (cases "parse_row e") auto
qed simp

lemma accepted_rows_ok:
  "(n, ov) \<in> set (accepted_rows es) \<Longrightarrow> ov_name ov = n \<and> n \<noteq> []
     \<and> (ov_hasPriority ov \<longrightarrow> 0 \<le> ov_priority ov \<and> ov_priority ov \<le> 100)"
  by (auto simp: set_accepted_rows dest: parse_row_ok)

section \<open>Resolved rows: lemmas\<close>

lemma emplace_simps [simp]:
  "emplace k v m k = (case m k of None \<Rightarrow> Some v | Some w \<Rightarrow> Some w)"
  "j \<noteq> k \<Longrightarrow> emplace k v m j = m j"
  by (auto simp: emplace_def split: option.splits)

lemma fold_plugins_lookup:
  "fold_plugins ovs ms m n =
     (case m n of Some e \<Rightarrow> Some e
      | None \<Rightarrow> map_option (plugin_row ovs) (find (\<lambda>p. pm_name p = n) ms))"
proof (induction ms arbitrary: m)
  case (Cons p ps)
  then show ?case by (cases "pm_name p = n") (auto split: option.splits)
qed (auto split: option.splits)

lemma fold_paks_lookup:
  "fold_paks ovs ps m n =
     (case m n of Some e \<Rightarrow> Some e
      | None \<Rightarrow> map_option (pak_row ovs) (find (\<lambda>p. LoadOrderNameFor (pk_modId p) = n) ps))"
proof (induction ps arbitrary: m)
  case (Cons p ps)
  then show ?case by (cases "LoadOrderNameFor (pk_modId p) = n") (auto split: option.splits)
qed (auto split: option.splits)

lemma Resolve_lookup:
  "g_effective (Resolve ms ps s) n =
     (case find (\<lambda>p. pm_name p = n) ms of
        Some p \<Rightarrow> Some (plugin_row (g_userOverrides s) p)
      | None \<Rightarrow> map_option (pak_row (g_userOverrides s))
                  (find (\<lambda>p. LoadOrderNameFor (pk_modId p) = n) ps))"
  by (auto simp: Resolve_def fold_paks_lookup fold_plugins_lookup split: option.splits)

lemma Resolve_overrides [simp]: "g_userOverrides (Resolve ms ps s) = g_userOverrides s"
  by (simp add: Resolve_def)

lemma with_override_accepted [simp]: "engineAccepted (with_override found e) = engineAccepted e"
  "eff_orderIndex (with_override found e) = eff_orderIndex e"
  by (simp_all add: with_override_def split: option.splits)

lemma Resolve_accepts [simp]: "engineAccepted (Of (Resolve ms ps s) n)"
  by (auto simp: Of_def Resolve_lookup plugin_row_def pak_row_def DefaultEffective_def
      split: option.splits)

lemma plugin_row_disabled:
  assumes "ovs (pm_name p) = Some ov" "ov_hasEnabled ov" "\<not> ov_enabled ov"
  shows "\<not> userEnabled (plugin_row ovs p)"
  using assms by (simp add: plugin_row_def with_override_def)

lemma pak_row_disabled:
  assumes "ovs (LoadOrderNameFor (pk_modId p)) = Some ov" "ov_hasEnabled ov" "\<not> ov_enabled ov"
  shows "\<not> userEnabled (pak_row ovs p)"
  using assms by (simp add: pak_row_def with_override_def)

lemma Resolve_user_disabled:
  assumes ov: "g_userOverrides s n = Some ov"
    and row: "n \<in> pm_name ` set ms \<union> (LoadOrderNameFor \<circ> pk_modId) ` set ps"
    and off: "ov_hasEnabled ov" "\<not> ov_enabled ov"
  shows "\<not> userEnabled (Of (Resolve ms ps s) n)"
proof (cases "find (\<lambda>p. pm_name p = n) ms")
  case (Some p)
  then have "pm_name p = n" by (auto simp: find_Some_iff)
  then show ?thesis
    using plugin_row_disabled [of "g_userOverrides s" p ov] ov off
    by (simp add: Of_def Resolve_lookup Some)
next
  case None
  then have "n \<notin> pm_name ` set ms" by (auto simp: find_None_iff)
  then have "find (\<lambda>p. LoadOrderNameFor (pk_modId p) = n) ps \<noteq> None"
    using row by (auto simp: find_None_iff)
  then obtain p where p: "find (\<lambda>p. LoadOrderNameFor (pk_modId p) = n) ps = Some p" by blast
  then have "LoadOrderNameFor (pk_modId p) = n" by (auto simp: find_Some_iff)
  then show ?thesis
    using pak_row_disabled [of "g_userOverrides s" p ov] ov off
    by (simp add: Of_def Resolve_lookup None p)
qed

section \<open>The writer: lemmas\<close>

definition known_row :: "lo_state \<Rightarrow> string \<Rightarrow> bool" where
  "known_row s n \<longleftrightarrow> n \<noteq> [] \<and> g_effective s n \<noteq> None"

lemma Of_SetEngineAccepted:
  "Of (SetEngineAccepted n b s) m =
     (if m = n \<and> known_row s n then (Of s n)\<lparr>engineAccepted := b\<rparr> else Of s m)"
  by (auto simp: lo_query_defs known_row_def split: option.splits)

lemma known_row_SetEngineAccepted [simp]: "known_row (SetEngineAccepted n b s) m = known_row s m"
  by (auto simp: SetEngineAccepted_def known_row_def split: option.splits)

lemma SetEngineAccepted_unknown: "\<not> known_row s n \<Longrightarrow> SetEngineAccepted n b s = s"
  by (auto simp: SetEngineAccepted_def known_row_def split: option.splits)

lemma Of_SetEngineAccepted_fields [simp]:
  "eff_zone (Of (SetEngineAccepted n b s) m) = eff_zone (Of s m)"
  "eff_priority (Of (SetEngineAccepted n b s) m) = eff_priority (Of s m)"
  "eff_orderIndex (Of (SetEngineAccepted n b s) m) = eff_orderIndex (Of s m)"
  "userEnabled (Of (SetEngineAccepted n b s) m) = userEnabled (Of s m)"
  by (simp_all add: Of_SetEngineAccepted)

lemma RunsBefore_SetEngineAccepted [simp]:
  "RunsBefore (SetEngineAccepted n b s) = RunsBefore s"
  by (simp add: RunsBefore_def Let_def fun_eq_iff)

text \<open>The order as one comparison of the key tuple the other modules build.\<close>

definition SortKey :: "lo_state \<Rightarrow> string \<Rightarrow> int \<times> int \<times> int \<times> string" where
  "SortKey s n = (zone_num (eff_zone (Of s n)), eff_priority (Of s n), eff_orderIndex (Of s n), n)"

lemma RunsBefore_SortKey: "RunsBefore s a b \<longleftrightarrow> SortKey s a < SortKey s b"
  by (auto simp: RunsBefore_def SortKey_def Let_def less_zone_def less_prod_def' zone_num_eq)

lemma RunsBefore_eq: "RunsBefore s = (\<lambda>a b. SortKey s a < SortKey s b)"
  by (simp add: fun_eq_iff RunsBefore_SortKey)

section \<open>The interfaces of the load order\<close>

text \<open>
  A run order is a strict total order on names.  Inside the locale: it is asymmetric, and a set
  of names has exactly one arrangement along it, which is why every module that sorts by the
  key computes the same order.
\<close>

locale run_order =
  fixes before :: "'n \<Rightarrow> 'n \<Rightarrow> bool"
  assumes before_irrefl: "\<not> before a a"
    and before_trans: "before a b \<Longrightarrow> before b c \<Longrightarrow> before a c"
    and before_total: "a \<noteq> b \<Longrightarrow> before a b \<or> before b a"
begin

lemma before_asym: "before a b \<Longrightarrow> \<not> before b a"
  using before_irrefl before_trans by blast

lemma before_arrangement_unique:
  "sorted_wrt before xs \<Longrightarrow> sorted_wrt before ys \<Longrightarrow> set xs = set ys \<Longrightarrow> xs = ys"
proof (induction xs arbitrary: ys)
  case (Cons x xs)
  then obtain y ys' where ys: "ys = y # ys'" by (cases ys) auto
  have "x = y"
  proof (rule ccontr)
    assume "x \<noteq> y"
    then have "y \<in> set xs" "x \<in> set ys'" using Cons.prems ys by auto
    then have "before x y" "before y x" using Cons.prems ys by auto
    then show False using before_asym by blast
  qed
  moreover have "x \<notin> set xs" "y \<notin> set ys'"
    using Cons.prems ys before_irrefl by auto
  ultimately have "set xs = set ys'" using Cons.prems ys by auto
  then show ?case using Cons.IH [of ys'] Cons.prems ys \<open>x = y\<close> by auto
qed simp

end

text \<open>
  The acceptance gate: what zone_gate and the pak-mod version gate rely on.  \<open>enabled\<close> answers
  whether a name may run, \<open>set_accepted\<close> records a verdict, \<open>known\<close> says the name has a row.
\<close>

locale acceptance_gate =
  fixes enabled :: "'s \<Rightarrow> 'n \<Rightarrow> bool"
    and set_accepted :: "'n \<Rightarrow> bool \<Rightarrow> 's \<Rightarrow> 's"
    and known :: "'s \<Rightarrow> 'n \<Rightarrow> bool"
  assumes gate_reject: "known s n \<Longrightarrow> \<not> enabled (set_accepted n False s) n"
    and gate_other: "m \<noteq> n \<Longrightarrow> enabled (set_accepted n b s) m = enabled s m"
    and gate_unknown: "\<not> known s n \<Longrightarrow> set_accepted n b s = s"
    and gate_known: "known (set_accepted n b s) m = known s m"
begin

lemma gate_reject_iff:
  "enabled (set_accepted n False s) m \<longleftrightarrow> enabled s m \<and> (m \<noteq> n \<or> \<not> known s n)"
  using gate_reject gate_other gate_unknown by (cases "m = n"; cases "known s n") auto

lemma gate_fold_known:
  "known (fold (\<lambda>n. set_accepted n False) ns s) m = known s m"
  by (induction ns arbitrary: s) (auto simp: gate_known)

lemma gate_fold_reject:
  "enabled (fold (\<lambda>n. set_accepted n False) ns s) m \<longleftrightarrow>
     enabled s m \<and> (m \<notin> set ns \<or> \<not> known s m)"
proof (induction ns arbitrary: s)
  case (Cons n ns)
  then show ?case by (auto simp: gate_reject_iff gate_known)
qed simp

lemma gate_fold_never_enables:
  "enabled (fold (\<lambda>n. set_accepted n False) ns s) m \<Longrightarrow> enabled s m"
  by (simp add: gate_fold_reject)

end

text \<open>A gate that leaves the run order alone: verdicts and positions are independent.\<close>

locale ordered_gate = acceptance_gate +
  fixes before :: "'a \<Rightarrow> 'b \<Rightarrow> 'b \<Rightarrow> bool"
  assumes gate_order: "before (set_accepted n b s) = before s"
begin

lemma gate_fold_order: "before (fold (\<lambda>n. set_accepted n False) ns s) = before s"
  by (induction ns arbitrary: s) (auto simp: gate_order)

end

interpretation runs: run_order "RunsBefore s" for s
proof
  fix a b c
  show "\<not> RunsBefore s a a" by (simp add: RunsBefore_SortKey)
  show "RunsBefore s a b \<Longrightarrow> RunsBefore s b c \<Longrightarrow> RunsBefore s a c"
    by (simp add: RunsBefore_SortKey)
  show "a \<noteq> b \<Longrightarrow> RunsBefore s a b \<or> RunsBefore s b a"
    unfolding RunsBefore_SortKey by (metis SortKey_def linorder_neqE prod.inject)
qed

interpretation gate: ordered_gate IsPluginEnabled SetEngineAccepted known_row RunsBefore
proof
  fix s n m b
  show "known_row s n \<Longrightarrow> \<not> IsPluginEnabled (SetEngineAccepted n False s) n"
    by (simp add: IsPluginEnabled_def Of_SetEngineAccepted known_row_def)
  show "m \<noteq> n \<Longrightarrow> IsPluginEnabled (SetEngineAccepted n b s) m = IsPluginEnabled s m"
    by (simp add: IsPluginEnabled_def Of_SetEngineAccepted)
qed (simp_all add: SetEngineAccepted_unknown)

section \<open>Properties\<close>

text \<open>Property C1.  For every resolved state and every set of distinct names there is exactly one
  sequence of these names that is sorted by \<open>RunsBefore\<close>: the load order is total and
  unambiguous.\<close>

theorem load_order_unique:
  assumes "distinct ns"
  shows "\<exists>!xs. set xs = set ns \<and> sorted_wrt (RunsBefore s) xs"
proof
  let ?xs = "sort_key (SortKey s) ns"
  have "inj (SortKey s)" by (auto simp: inj_def SortKey_def)
  then have "distinct (map (SortKey s) ?xs)"
    using assms by (simp add: distinct_map inj_on_def inj_def)
  then have "sorted_wrt (<) (map (SortKey s) ?xs)"
    by (simp add: strict_sorted_iff)
  then show "set ?xs = set ns \<and> sorted_wrt (RunsBefore s) ?xs"
    by (simp add: sorted_wrt_map RunsBefore_eq)
  then show "xs = ?xs" if "set xs = set ns \<and> sorted_wrt (RunsBefore s) xs" for xs
    using that runs.before_arrangement_unique by metis
qed

theorem load_order_unique_witness:
  "\<exists>!xs. set xs = set [''b'', ''a''] \<and>
     sorted_wrt (RunsBefore \<lparr>g_userOverrides = Map.empty, g_effective = Map.empty\<rparr>) xs"
  by (rule load_order_unique) simp

text \<open>Property C2.  A disable is final: when the last accepted row of load_order.toml for a plugin or pak
  mod says \<open>enabled = false\<close>, the name is disabled after \<open>Read\<close> and \<open>Resolve\<close>, and stays disabled
  whatever verdicts the engine records later.\<close>

theorem user_disable_is_final:
  assumes rows: "map_of doc ''plugin'' = Some (TArray rows)"
    and last: "map_of (rev (accepted_rows rows)) n = Some ov"
    and off: "ov_hasEnabled ov" "\<not> ov_enabled ov"
    and row: "n \<in> pm_name ` set ms \<union> (LoadOrderNameFor \<circ> pk_modId) ` set ps"
  shows "\<not> IsPluginEnabled (fold (\<lambda>(m, b). SetEngineAccepted m b) verdicts
             (Resolve ms ps (Read (Doc doc) s))) n"
proof -
  let ?s = "Resolve ms ps (Read (Doc doc) s)"
  have ov: "g_userOverrides (Read (Doc doc) s) n = Some ov"
    using last by (simp add: Read_def rows read_rows_eq)
  have "n \<noteq> []"
    using last by (auto dest!: map_of_SomeD accepted_rows_ok)
  have "\<not> userEnabled (Of ?s n)"
    using ov row off by (rule Resolve_user_disabled)
  moreover have "userEnabled (Of (fold (\<lambda>(m, b). SetEngineAccepted m b) verdicts s') n)
      = userEnabled (Of s' n)" for s'
    by (induction verdicts arbitrary: s') (simp_all add: case_prod_beta)
  ultimately show ?thesis using \<open>n \<noteq> []\<close> by (simp add: IsPluginEnabled_def)
qed

theorem user_disable_is_final_witness:
  "\<not> IsPluginEnabled (fold (\<lambda>(m, b). SetEngineAccepted m b) [(''fix'', True)]
      (Resolve [default_manifest\<lparr>pm_name := ''fix''\<rparr>] []
        (Read (Doc [(''plugin'', TArray [TTable [(''enabled'', TBool False), (''name'', TString ''fix'')]])])
          \<lparr>g_userOverrides = Map.empty, g_effective = Map.empty\<rparr>))) ''fix''"
proof -
  have "parse_row (TTable [(''enabled'', TBool False), (''name'', TString ''fix'')])
      = Inr (default_override\<lparr>ov_name := ''fix'', ov_enabled := False, ov_hasEnabled := True\<rparr>)"
    by (simp add: parse_row_def row_unknown_key_def kRowKeys_def row_name_def
        row_zone_def row_priority_def row_enabled_def default_override_def)
  then show ?thesis
    by (intro user_disable_is_final [where ov = "default_override\<lparr>ov_name := ''fix'',
        ov_enabled := False, ov_hasEnabled := True\<rparr>" and rows = "[TTable [(''enabled'', TBool False),
        (''name'', TString ''fix'')]]"]) (simp_all add: default_manifest_def)
qed

text \<open>Property C22.  One bad row does not affect any other: a document with a rejected row anywhere in
  its \<open>[[plugin]]\<close> array reads exactly as the document without that row.\<close>

theorem rejected_row_isolated:
  assumes "parse_row e = Inl err"
  shows "Read (Doc [(''plugin'', TArray (xs @ e # ys))]) s = Read (Doc [(''plugin'', TArray (xs @ ys))]) s"
  using assms by (simp add: Read_def read_rows_eq)

theorem rejected_row_isolated_witness:
  "Read (Doc [(''plugin'', TArray ([] @ TTable [(''name'', TString ''p''), (''enabeld'', TBool False)] #
        [TTable [(''name'', TString ''q'')]]))]) \<lparr>g_userOverrides = Map.empty, g_effective = Map.empty\<rparr>
     = Read (Doc [(''plugin'', TArray ([] @ [TTable [(''name'', TString ''q'')]]))])
         \<lparr>g_userOverrides = Map.empty, g_effective = Map.empty\<rparr>"
  by (rule rejected_row_isolated [where err = "RowUnknownKey ''enabeld''"])
    (simp add: parse_row_def row_unknown_key_def kRowKeys_def)

text \<open>The range check on \<open>priority\<close> runs after the 64-bit value was narrowed to
  \<open>int\<close>: every value whose low 32 bits lie in 0..100 is accepted with that residue, so
  4294967346 reads as priority 50.\<close>

theorem priority_checked_after_truncation:
  assumes "v mod 2 ^ 32 \<le> 100" and "n \<noteq> []"
  shows "parse_row (TTable [(''name'', TString n), (''priority'', TInt v)])
    = Inr (default_override\<lparr>ov_name := n, ov_priority := v mod 2 ^ 32, ov_hasPriority := True\<rparr>)"
proof -
  have "0 \<le> v mod 2 ^ 32" by simp
  moreover from this assms(1) have "cast_int v = v mod 2 ^ 32" by (intro cast_int_mod) simp_all
  ultimately show ?thesis using assms
    by (simp add: parse_row_def row_unknown_key_def kRowKeys_def row_name_def row_zone_def
        row_priority_def row_enabled_def Let_def)
qed

theorem priority_checked_after_truncation_witness:
  "parse_row (TTable [(''name'', TString ''p''), (''priority'', TInt 4294967346)])
     = Inr (default_override\<lparr>ov_name := ''p'', ov_priority := 50, ov_hasPriority := True\<rparr>)"
  using priority_checked_after_truncation [of 4294967346 "''p''"] by simp

lemma emplace_all_lookup:
  "emplace_all xs m k = (case m k of Some v \<Rightarrow> Some v | None \<Rightarrow> map_of xs k)"
proof (induction xs m rule: emplace_all.induct)
  case (2 k' v xs m)
  then show ?case by (cases "k' = k") (auto split: option.splits)
qed (auto split: option.splits)

text \<open>Restoring a snapshot gives back both maps exactly, whatever the state in between
  and whatever order the snapshot lists the rows in.\<close>

theorem snapshot_restored:
  assumes "is_snapshot s sn"
  shows "RestoreState sn s' = s"
  using assms
  by (auto simp: is_snapshot_def lists_map_def RestoreState_def emplace_all_lookup fun_eq_iff)

theorem snapshot_restored_witness:
  "RestoreState \<lparr>sn_effective = [(''p'', DefaultEffective)], sn_userOverrides = []\<rparr>
       \<lparr>g_userOverrides = Map.empty, g_effective = [''q'' \<mapsto> DefaultEffective]\<rparr>
     = \<lparr>g_userOverrides = Map.empty, g_effective = [''p'' \<mapsto> DefaultEffective]\<rparr>"
  by (rule snapshot_restored) (simp add: is_snapshot_def lists_map_def)

end
