(* ===== verification/Zone_Gate.thy ===== *)
theory Zone_Gate
  imports Load_Order
begin

text \<open>
  src/zone_gate.cpp: the capability table, the check of one plugin's zone against it, the
  evaluation of every manifest, and the record of rejections that is_rejected answers from.  The
  gate reads and writes the load order only through \<open>Of\<close> and \<open>SetEngineAccepted\<close>, so what it does
  to the enabled set follows from the \<open>gate\<close> interpretation of Load_Order.
\<close>

datatype RequireZone = Either | Before | After

record ApiCapability =
  cap_name :: string
  cap_requireZone :: RequireZone

definition kCapabilities :: "ApiCapability list" where
  "kCapabilities =
    [\<lparr>cap_name = ''kcdx.bytes'', cap_requireZone = Either\<rparr>,
     \<lparr>cap_name = ''kcdx.hook'', cap_requireZone = Either\<rparr>,
     \<lparr>cap_name = ''kcdx.code'', cap_requireZone = Either\<rparr>,
     \<lparr>cap_name = ''kcdx.command'', cap_requireZone = Either\<rparr>,
     \<lparr>cap_name = ''kcdx.cosave'', cap_requireZone = Either\<rparr>,
     \<lparr>cap_name = ''kcdx.on'', cap_requireZone = Either\<rparr>,
     \<lparr>cap_name = ''kcdx.publish'', cap_requireZone = Either\<rparr>,
     \<lparr>cap_name = ''kcdx.scan'', cap_requireZone = Either\<rparr>,
     \<lparr>cap_name = ''kcdx.zone_gate_test_after_only'', cap_requireZone = After\<rparr>]"

record zg_state =
  g_rejected :: "string \<rightharpoonup> string"
  g_parseRejected :: "string \<rightharpoonup> string"

definition ZoneName :: "zone \<Rightarrow> string" where
  "ZoneName z = (if z = BeforeGame then ''before_game'' else ''after_game'')"

definition RequireZoneName :: "RequireZone \<Rightarrow> string" where
  "RequireZoneName rz =
     (case rz of Before \<Rightarrow> ''before_game'' | After \<Rightarrow> ''after_game'' | Either \<Rightarrow> ''either'')"

definition ZoneRejects :: "zone \<Rightarrow> RequireZone \<Rightarrow> bool" where
  "ZoneRejects pluginZone requireZone =
     (case requireZone of
        Before \<Rightarrow> pluginZone \<noteq> BeforeGame
      | After \<Rightarrow> pluginZone \<noteq> AfterGame
      | Either \<Rightarrow> False)"

definition reject_text :: "zone \<Rightarrow> ApiCapability \<Rightarrow> string" where
  "reject_text pluginZone cap =
     ''declared zone='' @ [CHR 0x27] @ ZoneName pluginZone @ [CHR 0x27] @ '' but calls '' @ cap_name cap
       @ '' (requires zone='' @ [CHR 0x27] @ RequireZoneName (cap_requireZone cap) @ [CHR 0x27]
       @ '' in kcdx 0.2.0)''"

text \<open>The loop over the table: the first row that rejects gives the verdict.\<close>

fun check_rows :: "zone \<Rightarrow> ApiCapability list \<Rightarrow> bool \<times> string" where
  "check_rows z [] = (True, [])"
| "check_rows z (cap # caps) =
     (if cap_requireZone cap = Either then check_rows z caps
      else if \<not> ZoneRejects z (cap_requireZone cap) then check_rows z caps
      else (False, reject_text z cap))"

definition Check :: "lo_state \<Rightarrow> string \<Rightarrow> bool \<times> string" where
  "Check s pluginName = check_rows (eff_zone (Of s pluginName)) kCapabilities"

definition plugin_key :: "plugin_manifest \<Rightarrow> string" where
  "plugin_key m = pm_author m @ ''.'' @ pm_name m"

text \<open>The body of the loop over \<open>g_manifests\<close>.\<close>

definition evaluate_one :: "plugin_manifest \<Rightarrow> zg_state \<times> lo_state \<Rightarrow> zg_state \<times> lo_state" where
  "evaluate_one m zs =
     (let (z, s) = zs
      in if \<not> userEnabled (Of s (pm_name m)) then (z, s)
         else (let (ok, reason) = Check s (pm_name m)
               in if ok then (z, s)
                  else (z\<lparr>g_rejected := emplace (plugin_key m) reason (g_rejected z)\<rparr>,
                        SetEngineAccepted (pm_name m) False s)))"

definition EvaluateAllPlugins ::
    "plugin_manifest list \<Rightarrow> zg_state \<times> lo_state \<Rightarrow> zg_state \<times> lo_state" where
  "EvaluateAllPlugins manifests zs =
     fold evaluate_one manifests ((fst zs)\<lparr>g_rejected := Map.empty\<rparr>, snd zs)"

definition RecordParseReject :: "string \<Rightarrow> string \<Rightarrow> string \<Rightarrow> zg_state \<Rightarrow> zg_state" where
  "RecordParseReject folderPath authorPluginKey reason z =
     (let z1 = (if folderPath = [] then z
                else z\<lparr>g_parseRejected := (g_parseRejected z)(folderPath \<mapsto> reason)\<rparr>)
      in if authorPluginKey = [] then z1
         else z1\<lparr>g_parseRejected := (g_parseRejected z1)(authorPluginKey \<mapsto> reason)\<rparr>)"

definition IsRejected :: "zg_state \<Rightarrow> string \<Rightarrow> bool" where
  "IsRejected z n \<longleftrightarrow> g_rejected z n \<noteq> None \<or> g_parseRejected z n \<noteq> None"

definition RejectReason :: "zg_state \<Rightarrow> string \<Rightarrow> string" where
  "RejectReason z n =
     (case g_rejected z n of
        Some r \<Rightarrow> r
      | None \<Rightarrow> (case g_parseRejected z n of Some r \<Rightarrow> r | None \<Rightarrow> []))"

section \<open>The verdict\<close>

text \<open>
  With the table as it ships the verdict depends on the zone alone: the synthetic After row
  rejects every before_game plugin.
\<close>

lemma check_rows_kCapabilities:
  "check_rows AfterGame kCapabilities = (True, [])"
  "check_rows BeforeGame kCapabilities = (False, reject_text BeforeGame
     \<lparr>cap_name = ''kcdx.zone_gate_test_after_only'', cap_requireZone = After\<rparr>)"
  by (simp_all add: kCapabilities_def ZoneRejects_def)

lemma check_rows_ok_iff:
  "fst (check_rows z caps) \<longleftrightarrow> (\<forall>c \<in> set caps. \<not> ZoneRejects z (cap_requireZone c))"
  by (induction caps) (auto simp: ZoneRejects_def)

lemma Check_ok_iff: "fst (Check s n) \<longleftrightarrow> eff_zone (Of s n) = AfterGame"
  by (cases "eff_zone (Of s n)") (simp_all add: Check_def check_rows_kCapabilities)

text \<open>Which manifests the loop rejects; the answer is the same at every point of the loop.\<close>

definition gated :: "lo_state \<Rightarrow> plugin_manifest \<Rightarrow> bool" where
  "gated s m \<longleftrightarrow> userEnabled (Of s (pm_name m)) \<and> eff_zone (Of s (pm_name m)) = BeforeGame"

lemma gated_SetEngineAccepted [simp]: "gated (SetEngineAccepted n b s) = gated s"
  by (simp add: gated_def fun_eq_iff)

lemma evaluate_one_snd:
  "snd (evaluate_one m (z, s)) = (if gated s m then SetEngineAccepted (pm_name m) False s else s)"
  using Check_ok_iff [of s "pm_name m"]
  by (cases "eff_zone (Of s (pm_name m))")
    (auto simp: evaluate_one_def gated_def split: prod.splits)

lemma evaluate_one_fst:
  "fst (evaluate_one m (z, s)) =
     (if gated s m then z\<lparr>g_rejected := emplace (plugin_key m) (snd (Check s (pm_name m))) (g_rejected z)\<rparr>
      else z)"
  using Check_ok_iff [of s "pm_name m"]
  by (cases "eff_zone (Of s (pm_name m))")
    (auto simp: evaluate_one_def gated_def split: prod.splits)

lemma evaluate_one_eq:
  "evaluate_one m (z, s) =
     (if gated s m
      then (z\<lparr>g_rejected := emplace (plugin_key m) (snd (Check s (pm_name m))) (g_rejected z)\<rparr>,
            SetEngineAccepted (pm_name m) False s)
      else (z, s))"
  by (simp add: prod_eq_iff evaluate_one_fst evaluate_one_snd)

lemma evaluate_snd:
  "snd (fold evaluate_one ms (z, s)) =
     fold (\<lambda>n. SetEngineAccepted n False) (map pm_name (filter (gated s) ms)) s"
  by (induction ms arbitrary: z s) (simp_all add: evaluate_one_eq)

lemma evaluate_parseRejected:
  "g_parseRejected (fst (fold evaluate_one ms (z, s))) = g_parseRejected z"
  by (induction ms arbitrary: z s) (simp_all add: evaluate_one_eq)

lemma emplace_None: "emplace k v m j = None \<longleftrightarrow> j \<noteq> k \<and> m j = None"
  by (auto simp: emplace_def split: option.splits)

lemma evaluate_rejected:
  "g_rejected (fst (fold evaluate_one ms (z, s))) k = None \<longleftrightarrow>
     g_rejected z k = None \<and> k \<notin> plugin_key ` {m \<in> set ms. gated s m}"
proof (induction ms arbitrary: z s)
  case (Cons m ms)
  have "k \<in> plugin_key ` {m' \<in> set (m # ms). gated s m'} \<longleftrightarrow>
      gated s m \<and> k = plugin_key m \<or> k \<in> plugin_key ` {m' \<in> set ms. gated s m'}"
    by auto
  then show ?case by (simp add: Cons.IH evaluate_one_eq emplace_None del: not_None_eq) blast
qed simp

section \<open>Properties\<close>

text \<open>What the gate does to the enabled set, exactly: a name is enabled afterwards iff it
  was enabled before and is not a manifest's name with a row in the before_game zone.  So with
  the shipped table every before_game plugin is turned off, whatever it calls; nothing is turned
  on, and pak mods and the run order are untouched.\<close>

theorem zone_gate_effect:
  "(IsPluginEnabled (snd (EvaluateAllPlugins ms (z, s))) n \<longleftrightarrow>
     IsPluginEnabled s n \<and> \<not> (n \<in> pm_name ` set ms \<and> known_row s n \<and> eff_zone (Of s n) = BeforeGame))
   \<and> RunsBefore (snd (EvaluateAllPlugins ms (z, s))) = RunsBefore s"
proof -
  let ?ns = "map pm_name (filter (gated s) ms)"
  have eq: "snd (EvaluateAllPlugins ms (z, s)) = fold (\<lambda>n. SetEngineAccepted n False) ?ns s"
    by (simp add: EvaluateAllPlugins_def evaluate_snd)
  have "n \<in> set ?ns \<longleftrightarrow> n \<in> pm_name ` set ms \<and> eff_zone (Of s n) = BeforeGame"
    if "IsPluginEnabled s n" "n \<noteq> []"
    using that by (auto simp: gated_def IsPluginEnabled_def)
  then have "IsPluginEnabled (snd (EvaluateAllPlugins ms (z, s))) n \<longleftrightarrow>
      IsPluginEnabled s n \<and> \<not> (n \<in> pm_name ` set ms \<and> known_row s n \<and> eff_zone (Of s n) = BeforeGame)"
    unfolding eq gate.gate_fold_reject by (auto simp: known_row_def)
  moreover have "RunsBefore (snd (EvaluateAllPlugins ms (z, s))) = RunsBefore s"
    unfolding eq by (rule gate.gate_fold_order)
  ultimately show ?thesis by blast
qed

text \<open>is_rejected and the gate agree: after the evaluation a key is reported rejected iff a
  parse-time reject was recorded for it or it is the author.name key of a user-enabled
  before_game manifest; the reason reported for a gated plugin names the first row of the table
  that its zone violates.\<close>

theorem is_rejected_exact:
  "IsRejected (fst (EvaluateAllPlugins ms (z, s))) k \<longleftrightarrow>
     k \<in> dom (g_parseRejected z)
     \<or> (\<exists>m \<in> set ms. k = plugin_key m \<and> userEnabled (Of s (pm_name m)) \<and> \<not> fst (Check s (pm_name m)))"
proof -
  have "gated s m \<longleftrightarrow> userEnabled (Of s (pm_name m)) \<and> \<not> fst (Check s (pm_name m))" for m
    by (cases "eff_zone (Of s (pm_name m))") (simp_all add: gated_def Check_ok_iff)
  then show ?thesis
    unfolding EvaluateAllPlugins_def IsRejected_def
    by (auto simp: evaluate_rejected evaluate_parseRejected dom_def simp del: not_None_eq)
qed

end
