(* ===== verification/Behavior_Edges.thy ===== *)
theory Behavior_Edges
  imports Load_Order
begin

text \<open>
  src/load_order.cpp, the behavior-edge store: the text behavior_edges.toml is written as, how
  a parsed document is read back, the check at the next launch of every recorded edge against
  the order now resolved, and the writing of this session's edges.  The TOML parser is the
  parameter \<open>toml_parse\<close> (\<open>None\<close> is its parse_error); the file on disk is a \<open>disk_file\<close>.
\<close>

record behavior_edge =
  consumerAuthor :: string
  consumerPlugin :: string
  behaviorFullName :: string

record recognized_conflict =
  rc_consumerAuthor :: string
  rc_consumerPlugin :: string
  rc_declarerAuthor :: string
  rc_declarerPlugin :: string
  rc_behaviorFullName :: string

type_synonym toml_parser = "string \<Rightarrow> toml_table option"

section \<open>Names and files\<close>

text \<open>The result is (ok, existed, text).\<close>

definition ReadEdgeFileText :: "disk_file \<Rightarrow> bool \<times> bool \<times> string" where
  "ReadEdgeFileText f =
     (case f of Absent \<Rightarrow> (True, False, [])
      | Unreadable \<Rightarrow> (False, True, [])
      | Content t \<Rightarrow> (True, True, t))"

definition DeclarerFromBehaviorName :: "string \<Rightarrow> (string \<times> string) option" where
  "DeclarerFromBehaviorName fullName =
     (case str_find fullName ''.'' 0 of
        None \<Rightarrow> None
      | Some d1 \<Rightarrow>
          if d1 = 0 then None
          else (case str_find fullName ''.'' (d1 + 1) of
                  None \<Rightarrow> None
                | Some d2 \<Rightarrow>
                    if d2 = d1 + 1 then None
                    else Some (take d1 fullName, take (d2 - d1 - 1) (drop (d1 + 1) fullName))))"

section \<open>The text form\<close>

abbreviation dquote :: string where
  "dquote \<equiv> [CHR 0x22]"

abbreviation em_dash :: string where
  "em_dash \<equiv> [CHR 0xE2, CHR 0x80, CHR 0x94]"

definition edges_header :: string where
  "edges_header =
     ''# managed by kcdx '' @ em_dash @ '' behavior dependency edges (consumer -> behavior).'' @ [nl] @
     ''# Each edge entry records that a plugin SET a named behavior. kcdx'' @ [nl] @
     ''# re-checks these at the next launch BEFORE plugins run: a consumer'' @ [nl] @
     ''# that now loads before its declarer is reported up front. The store'' @ [nl] @
     ''# is rebuilt from each launch'' @ [CHR 0x27] @ ''s observed sets '' @ em_dash @
     '' do not hand-edit; an'' @ [nl] @
     ''# edge whose consumer or declarer is no longer installed is dropped.'' @ [nl]"

definition edge_block :: "behavior_edge \<Rightarrow> string" where
  "edge_block e =
     [nl] @ ''[[edge]]'' @ [nl] @
     ''consumer = '' @ dquote @ consumerAuthor e @ ''.'' @ consumerPlugin e @ dquote @ [nl] @
     ''behavior = '' @ dquote @ behaviorFullName e @ dquote @ [nl]"

fun edge_blocks :: "behavior_edge list \<Rightarrow> string" where
  "edge_blocks [] = []"
| "edge_blocks (e # es) =
     (if consumerPlugin e = [] \<or> behaviorFullName e = [] then edge_blocks es
      else edge_block e @ edge_blocks es)"

definition SerializeBehaviorEdgesToml :: "behavior_edge list \<Rightarrow> string" where
  "SerializeBehaviorEdgesToml edges = edges_header @ edge_blocks edges"

text \<open>Reading one element of the \<open>[[edge]]\<close> array; \<open>None\<close> is a skipped element.\<close>

definition parse_edge :: "toml \<Rightarrow> behavior_edge option" where
  "parse_edge elem =
     (case elem of
        TTable t \<Rightarrow>
          (case (map_of t ''consumer'', map_of t ''behavior'') of
             (Some (TString consumer), Some (TString behavior)) \<Rightarrow>
               (case str_find consumer ''.'' 0 of
                  None \<Rightarrow> None
                | Some cd \<Rightarrow>
                    if cd = 0 \<or> cd = length consumer - 1 then None
                    else if behavior = [] then None
                    else Some \<lparr>consumerAuthor = take cd consumer,
                               consumerPlugin = drop (cd + 1) consumer,
                               behaviorFullName = behavior\<rparr>)
           | _ \<Rightarrow> None)
      | _ \<Rightarrow> None)"

text \<open>The result is (parse failed, edges).\<close>

definition ParseBehaviorEdgesToml :: "toml_parser \<Rightarrow> string \<Rightarrow> bool \<times> behavior_edge list" where
  "ParseBehaviorEdgesToml toml_parse txt =
     (if txt = [] then (False, [])
      else (case toml_parse txt of
              None \<Rightarrow> (True, [])
            | Some doc \<Rightarrow>
                (case map_of doc ''edge'' of
                   Some (TArray arr) \<Rightarrow> (False, List.map_filter parse_edge arr)
                 | _ \<Rightarrow> (False, []))))"

section \<open>The check at launch\<close>

definition isKnownPlugin :: "plugin_manifest list \<Rightarrow> string \<Rightarrow> string \<Rightarrow> bool" where
  "isKnownPlugin manifests author plugin \<longleftrightarrow>
     (\<exists>m \<in> set manifests. pm_author m = author \<and> pm_name m = plugin)"

definition recheck_edge ::
    "lo_state \<Rightarrow> (string \<Rightarrow> string \<Rightarrow> bool) \<Rightarrow> behavior_edge \<Rightarrow> recognized_conflict option" where
  "recheck_edge s known e =
     (case DeclarerFromBehaviorName (behaviorFullName e) of
        None \<Rightarrow> None
      | Some (declAuthor, declPlugin) \<Rightarrow>
          if \<not> known (consumerAuthor e) (consumerPlugin e) then None
          else if \<not> known declAuthor declPlugin then None
          else if RunsBefore s (consumerPlugin e) declPlugin
          then Some \<lparr>rc_consumerAuthor = consumerAuthor e, rc_consumerPlugin = consumerPlugin e,
                     rc_declarerAuthor = declAuthor, rc_declarerPlugin = declPlugin,
                     rc_behaviorFullName = behaviorFullName e\<rparr>
          else None)"

definition RecheckBehaviorEdges ::
    "lo_state \<Rightarrow> behavior_edge list \<Rightarrow> (string \<Rightarrow> string \<Rightarrow> bool) \<Rightarrow> recognized_conflict list" where
  "RecheckBehaviorEdges s edges known = List.map_filter (recheck_edge s known) edges"

text \<open>
  The launch step: the result is the new prior-launch cache and the conflicts; an unreadable or
  absent file leaves the cache as it is.
\<close>

definition RecheckBehaviorEdgesAtLaunch ::
    "toml_parser \<Rightarrow> disk_file \<Rightarrow> lo_state \<Rightarrow> plugin_manifest list \<Rightarrow> behavior_edge list
      \<Rightarrow> behavior_edge list \<times> recognized_conflict list" where
  "RecheckBehaviorEdgesAtLaunch toml_parse f s manifests prior =
     (let (ok, existed, txt) = ReadEdgeFileText f
      in if \<not> ok then (prior, [])
         else if \<not> existed then (prior, [])
         else (let edges = snd (ParseBehaviorEdgesToml toml_parse txt)
               in (edges, RecheckBehaviorEdges s edges (isKnownPlugin manifests))))"

definition PersistBehaviorEdges ::
    "behavior_edge list \<Rightarrow> write_outcome \<Rightarrow> disk_file \<Rightarrow> disk_file" where
  "PersistBehaviorEdges observed w f =
     (let serialized = SerializeBehaviorEdgesToml observed;
          (ok, existed, existing) = ReadEdgeFileText f
      in if observed = [] \<and> \<not> existed then f
         else if serialized = existing then f
         else fst (disk_write w serialized f))"

definition PriorLaunchEdgeConfirms ::
    "behavior_edge list \<Rightarrow> string \<Rightarrow> string \<Rightarrow> string \<Rightarrow> bool" where
  "PriorLaunchEdgeConfirms prior author plugin fullName \<longleftrightarrow>
     list_ex (\<lambda>e. consumerAuthor e = author \<and> consumerPlugin e = plugin
       \<and> behaviorFullName e = fullName) prior"

text \<open>The text after the last dot, or all of it.\<close>

definition after_last_dot :: "string \<Rightarrow> string" where
  "after_last_dot s = rev (takeWhile (\<lambda>c. c \<noteq> CHR ''.'') (rev s))"

fun PriorLaunchEdgeForBare ::
    "behavior_edge list \<Rightarrow> string \<Rightarrow> string \<Rightarrow> string \<Rightarrow> string option" where
  "PriorLaunchEdgeForBare [] author plugin bareName = None"
| "PriorLaunchEdgeForBare (e # es) author plugin bareName =
     (if consumerAuthor e \<noteq> author \<or> consumerPlugin e \<noteq> plugin
      then PriorLaunchEdgeForBare es author plugin bareName
      else if after_last_dot (behaviorFullName e) = bareName then Some (behaviorFullName e)
      else PriorLaunchEdgeForBare es author plugin bareName)"

section \<open>Lemmas\<close>

lemma DeclarerFromBehaviorName_stamped:
  assumes "dot_free a" "dot_free p" "a \<noteq> []" "p \<noteq> []"
  shows "DeclarerFromBehaviorName (a @ ''.'' @ p @ ''.'' @ b) = Some (a, p)"
proof -
  have 1: "str_find (a @ ''.'' @ p @ ''.'' @ b) ''.'' 0 = Some (length a)"
    using str_find_char [of "CHR ''.''" a "p @ ''.'' @ b"] assms(1) by (simp add: dot_free_def)
  have "find_sub ''.'' (p @ CHR ''.'' # b) = Some (length p)"
    using assms(2) by (intro find_sub_char) (simp add: dot_free_def)
  then have 2: "str_find (a @ ''.'' @ p @ ''.'' @ b) ''.'' (length a + 1) = Some (length a + 1 + length p)"
    by (simp add: str_find_def)
  show ?thesis using assms(3,4) by (simp add: DeclarerFromBehaviorName_def 1 [simplified] 2 [simplified])
qed

lemma recheck_edge_None:
  "recheck_edge s known e = None \<longleftrightarrow>
     (\<forall>da dp. DeclarerFromBehaviorName (behaviorFullName e) = Some (da, dp) \<longrightarrow>
        known (consumerAuthor e) (consumerPlugin e) \<longrightarrow> known da dp \<longrightarrow>
        \<not> RunsBefore s (consumerPlugin e) dp)"
  by (auto simp: recheck_edge_def split: option.splits)

lemma map_filter_Nil_iff: "List.map_filter f xs = [] \<longleftrightarrow> (\<forall>x \<in> set xs. f x = None)"
  by (induction xs) (auto simp: List.map_filter_simps split: option.splits)

lemma map_filter_id: "(\<And>x. x \<in> set xs \<Longrightarrow> f (g x) = Some x) \<Longrightarrow> List.map_filter f (map g xs) = xs"
  by (induction xs) (auto simp: List.map_filter_simps)

text \<open>The edges a document keeps: what the writer does not skip and the reader does not skip.\<close>

definition storable :: "behavior_edge \<Rightarrow> bool" where
  "storable e \<longleftrightarrow> dot_free (consumerAuthor e) \<and> consumerAuthor e \<noteq> [] \<and> consumerPlugin e \<noteq> []
     \<and> behaviorFullName e \<noteq> []"

text \<open>The parsed form of a text \<open>SerializeBehaviorEdgesToml\<close> writes.\<close>

definition edge_node :: "behavior_edge \<Rightarrow> toml" where
  "edge_node e = TTable [(''behavior'', TString (behaviorFullName e)),
     (''consumer'', TString (consumerAuthor e @ ''.'' @ consumerPlugin e))]"

definition edges_doc :: "behavior_edge list \<Rightarrow> toml_table" where
  "edges_doc es = (if es = [] then [] else [(''edge'', TArray (map edge_node es))])"

lemma parse_edge_node: "storable e \<Longrightarrow> parse_edge (edge_node e) = Some e"
proof -
  assume e: "storable e"
  let ?c = "consumerAuthor e @ ''.'' @ consumerPlugin e"
  have "str_find ?c ''.'' 0 = Some (length (consumerAuthor e))"
    using str_find_char [of "CHR ''.''" "consumerAuthor e" "consumerPlugin e"] e
    by (simp add: storable_def dot_free_def)
  then show ?thesis
    using e by (simp add: parse_edge_def edge_node_def storable_def)
qed

lemma Parse_doc:
  assumes "toml_parse txt = Some (edges_doc es)" "txt \<noteq> []" "\<forall>e \<in> set es. storable e"
  shows "ParseBehaviorEdgesToml toml_parse txt = (False, es)"
  using assms
  by (simp add: ParseBehaviorEdgesToml_def edges_doc_def map_filter_id parse_edge_node)

lemma Serialize_nonempty [simp]: "SerializeBehaviorEdgesToml es \<noteq> []"
  by (simp add: SerializeBehaviorEdgesToml_def edges_header_def)

lemma Persist_Completes:
  "observed \<noteq> [] \<Longrightarrow> PersistBehaviorEdges observed Completes f = Content (SerializeBehaviorEdgesToml observed)"
  by (cases f) (auto simp: PersistBehaviorEdges_def ReadEdgeFileText_def Let_def)

lemma not_RunsBefore_iff: "\<not> RunsBefore s a b \<longleftrightarrow> a = b \<or> RunsBefore s b a"
  using runs.before_total runs.before_asym runs.before_irrefl by metis

lemma recheck_silent_iff_order_ok_aux:
  "RecheckBehaviorEdges s es known = [] \<longleftrightarrow>
     (\<forall>e \<in> set es. \<forall>da dp. DeclarerFromBehaviorName (behaviorFullName e) = Some (da, dp) \<longrightarrow>
        known (consumerAuthor e) (consumerPlugin e) \<longrightarrow> known da dp \<longrightarrow>
        consumerPlugin e = dp \<or> RunsBefore s dp (consumerPlugin e))"
  by (simp add: RecheckBehaviorEdges_def map_filter_Nil_iff recheck_edge_None not_RunsBefore_iff)

section \<open>Properties\<close>





end
