(* ===== verification/Init_Phase.thy ===== *)
theory Init_Phase
  imports Kcdx_Data
begin

text \<open>
  src/init_phase.h and src/init_phase.cpp: the ordered startup phases and the advance that never
  moves back.  Release behaviour: a backward advance is logged and ignored.
\<close>

datatype InitPhase =
    PreInit | ConfigLoaded | BeforeGameApply | WorkerInit | GameDllMapped | VersionDetected
  | RefdbOpened | EngineHooksInstalled | CtorBracketInstalled | PluginsLoaded
  | EnabledListBuiltAndReady | EngineSubsystemsInit | AfterGameApply

fun phase_num :: "InitPhase \<Rightarrow> nat" where
  "phase_num PreInit = 0"
| "phase_num ConfigLoaded = 1"
| "phase_num BeforeGameApply = 2"
| "phase_num WorkerInit = 3"
| "phase_num GameDllMapped = 4"
| "phase_num VersionDetected = 5"
| "phase_num RefdbOpened = 6"
| "phase_num EngineHooksInstalled = 7"
| "phase_num CtorBracketInstalled = 8"
| "phase_num PluginsLoaded = 9"
| "phase_num EnabledListBuiltAndReady = 10"
| "phase_num EngineSubsystemsInit = 11"
| "phase_num AfterGameApply = 12"

lemma phase_num_inj [simp]: "phase_num a = phase_num b \<longleftrightarrow> a = b"
  by (cases a; cases b) simp_all

instantiation InitPhase :: linorder
begin

definition less_eq_InitPhase :: "InitPhase \<Rightarrow> InitPhase \<Rightarrow> bool" where
  "less_eq_InitPhase a b \<longleftrightarrow> phase_num a \<le> phase_num b"

definition less_InitPhase :: "InitPhase \<Rightarrow> InitPhase \<Rightarrow> bool" where
  "less_InitPhase a b \<longleftrightarrow> phase_num a < phase_num b"

instance
  by standard (auto simp: less_eq_InitPhase_def less_InitPhase_def)

end

definition AdvanceTo :: "InitPhase \<Rightarrow> InitPhase \<Rightarrow> InitPhase" where
  "AdvanceTo p g_phase = (if p < g_phase then g_phase else if p = g_phase then g_phase else p)"

lemma AdvanceTo_max: "AdvanceTo p g = max g p"
  by (auto simp: AdvanceTo_def max_def)

text \<open>Whatever sequence of advances runs, the phase is the highest one reached.\<close>

lemma fold_AdvanceTo: "fold AdvanceTo ps g = fold max ps g"
  by (induction ps arbitrary: g) (simp_all add: AdvanceTo_max max.commute)

lemma fold_AdvanceTo_mono: "g \<le> fold AdvanceTo ps g"
proof (induction ps arbitrary: g)
  case (Cons p ps)
  have "g \<le> AdvanceTo p g" by (simp add: AdvanceTo_max)
  then show ?case using Cons.IH [of "AdvanceTo p g"] by (simp add: order_trans)
qed simp

lemma fold_AdvanceTo_reached: "p \<in> set ps \<Longrightarrow> p \<le> fold AdvanceTo ps g"
proof (induction ps arbitrary: g)
  case (Cons q ps)
  have "q \<le> AdvanceTo q g" by (simp add: AdvanceTo_max)
  then show ?case
    using Cons fold_AdvanceTo_mono [of "AdvanceTo q g" ps] by (auto intro: order_trans)
qed simp

end
