(* ===== verification/Behavior_Registry.thy ===== *)
theory Behavior_Registry
  imports Behavior_Edges Zone_Gate Init_Phase
begin

text \<open>
  src/behavior_registry.cpp and the Lua verbs over it in src/lua_bind_behavior.cpp: declaring,
  resolving, setting and reading behaviors, the apply boundary that drains every set behavior
  once, and the post-load toggle.

  The Lua VM is the boundary of the model.  A Lua value is a \<open>lua_value\<close>, tables carrying their
  string-keyed fields in iteration order; a function is an identifier whose code, applied to an
  argument, is an interaction tree: the declare, set and get calls it makes on the registry, each
  continued with what the call answers, ending in a return or a raise.  \<open>luaL_ref\<close>'s choice of a
  fresh key is the parameter \<open>env_alloc\<close>.  Nested calls carry a depth: at depth 0 the VM raises
  its C-stack-overflow error.  Log lines are left out, counters are unbounded naturals (the
  64-bit counters advance once per call).
\<close>

section \<open>Values and state\<close>

datatype lua_value =
    VNil | VBool bool | VNumber u64 | VString string | VFunction nat
  | VTable "(string \<times> lua_value) list" | VOther nat

type_synonym owner = "string \<times> string"

datatype lua_call =
    LuaReturn
  | LuaRaise
  | LuaDeclare owner lua_value lua_value "bool \<Rightarrow> lua_call"
  | LuaSet owner lua_value lua_value "bool \<Rightarrow> lua_call"
  | LuaGet owner lua_value "lua_value option \<Rightarrow> lua_call"

definition kNoRef :: int where
  "kNoRef = - 2"

datatype Tier = PluginTier | EngineTier

record behavior =
  b_fullName :: string
  b_bareName :: string
  b_tier :: Tier
  declaringAuthor :: string
  declaringPlugin :: string
  b_description :: string
  defaultRef :: int
  implementationRef :: int
  revertRef :: int
  recordedRef :: int
  b_applied :: bool
  setterAuthor :: string
  setterPlugin :: string
  declareSeq :: nat
  valueGeneration :: nat

record reg_state =
  r_store :: "(string \<times> behavior) list"
  r_edges :: "behavior_edge list"
  r_completed :: bool
  r_nextSeq :: nat
  r_refs :: "int \<rightharpoonup> lua_value"
  r_phase :: InitPhase
  r_catalogMode :: bool

text \<open>What the calls read and never write.\<close>

record lua_env =
  env_manifests :: "plugin_manifest list"
  env_lo :: lo_state
  env_zg :: zg_state
  env_failed :: "string list"
  env_prior :: "behavior_edge list"
  env_aliases :: "string \<rightharpoonup> (string \<rightharpoonup> string)"
  env_alloc :: "(int \<rightharpoonup> lua_value) \<Rightarrow> int"
  env_code :: "nat \<Rightarrow> lua_value \<Rightarrow> lua_call"

section \<open>The Lua registry\<close>

definition luaL_ref :: "lua_env \<Rightarrow> lua_value \<Rightarrow> reg_state \<Rightarrow> reg_state \<times> int" where
  "luaL_ref env v s =
     (let r = env_alloc env (r_refs s) in (s\<lparr>r_refs := (r_refs s)(r \<mapsto> v)\<rparr>, r))"

definition luaL_unref :: "int \<Rightarrow> reg_state \<Rightarrow> reg_state" where
  "luaL_unref r s = (if r \<ge> 0 then s\<lparr>r_refs := (r_refs s)(r := None)\<rparr> else s)"

definition lua_rawgeti :: "reg_state \<Rightarrow> int \<Rightarrow> lua_value" where
  "lua_rawgeti s r = (case r_refs s r of Some v \<Rightarrow> v | None \<Rightarrow> VNil)"

section \<open>Declaring and resolving\<close>

definition DeclarerLabel :: "behavior \<Rightarrow> string" where
  "DeclarerLabel b =
     (if b_tier b = EngineTier then ''kcdx'' else declaringAuthor b @ ''.'' @ declaringPlugin b)"

definition kEngineRoot :: string where
  "kEngineRoot = ''kcdx.behavior.''"

text \<open>\<open>Inl\<close> carries the label of the standing declarer.\<close>

definition RegisterOne :: "behavior \<Rightarrow> reg_state \<Rightarrow> (string + reg_state)" where
  "RegisterOne b s =
     (case map_of (r_store s) (b_fullName b) of
        Some standing \<Rightarrow> Inl (DeclarerLabel standing)
      | None \<Rightarrow>
          (let sq = r_nextSeq s + 1
           in Inr (s\<lparr>r_nextSeq := sq,
                     r_store := omap_insert (b_fullName b) (b\<lparr>declareSeq := sq\<rparr>) (r_store s)\<rparr>)))"

definition fresh_behavior :: "string \<Rightarrow> string \<Rightarrow> Tier \<Rightarrow> string \<Rightarrow> string \<Rightarrow> string
    \<Rightarrow> int \<Rightarrow> int \<Rightarrow> int \<Rightarrow> behavior" where
  "fresh_behavior full bare tier author plugin desc dref iref rref =
     \<lparr>b_fullName = full, b_bareName = bare, b_tier = tier, declaringAuthor = author,
      declaringPlugin = plugin, b_description = desc, defaultRef = dref, implementationRef = iref,
      revertRef = rref, recordedRef = kNoRef, b_applied = False, setterAuthor = [],
      setterPlugin = [], declareSeq = 0, valueGeneration = 1\<rparr>"

definition DeclarePlugin :: "string \<Rightarrow> string \<Rightarrow> string \<Rightarrow> string \<Rightarrow> int \<Rightarrow> int \<Rightarrow> int
    \<Rightarrow> reg_state \<Rightarrow> (string + reg_state)" where
  "DeclarePlugin author plugin bareName desc dref iref rref s =
     RegisterOne (fresh_behavior (author @ ''.'' @ plugin @ ''.'' @ bareName) bareName PluginTier
       author plugin desc dref iref rref) s"

definition DeclareEngine :: "string \<Rightarrow> string \<Rightarrow> int \<Rightarrow> int \<Rightarrow> int
    \<Rightarrow> reg_state \<Rightarrow> (string + reg_state)" where
  "DeclareEngine bareName desc dref iref rref s =
     RegisterOne (fresh_behavior (kEngineRoot @ bareName) bareName EngineTier
       [] [] desc dref iref rref) s"

definition Lookup :: "reg_state \<Rightarrow> string \<Rightarrow> behavior option" where
  "Lookup s fullName = map_of (r_store s) fullName"

fun SplitDots :: "string \<Rightarrow> string list" where
  "SplitDots [] = [[]]"
| "SplitDots (c # cs) =
     (if c = CHR ''.'' then [] # SplitDots cs
      else (case SplitDots cs of seg # segs \<Rightarrow> (c # seg) # segs | [] \<Rightarrow> [[c]]))"

definition ResolveAlias :: "lua_env \<Rightarrow> owner \<Rightarrow> string \<Rightarrow> string" where
  "ResolveAlias env ow n =
     (if snd ow = [] \<or> n = [] then []
      else (let key = (if fst ow = [] then snd ow else fst ow @ ''.'' @ snd ow)
            in case env_aliases env key of
                 None \<Rightarrow> []
               | Some handles \<Rightarrow> (case handles n of None \<Rightarrow> [] | Some target \<Rightarrow> target)))"

definition is_other :: "owner \<Rightarrow> string \<Rightarrow> behavior \<Rightarrow> bool" where
  "is_other ow bare b \<longleftrightarrow> b_bareName b = bare \<and> b_tier b \<noteq> EngineTier
     \<and> \<not> (declaringAuthor b = fst ow \<and> declaringPlugin b = snd ow)"

definition resolve_bare :: "reg_state \<Rightarrow> owner \<Rightarrow> string \<Rightarrow> behavior option" where
  "resolve_bare s ow bare =
     (let self = (if fst ow \<noteq> [] \<and> snd ow \<noteq> []
                  then Lookup s (fst ow @ ''.'' @ snd ow @ ''.'' @ bare) else None);
          engine = Lookup s (kEngineRoot @ bare);
          other = map_option snd (find (\<lambda>kv. is_other ow bare (snd kv)) (r_store s))
      in if self \<noteq> None then self else if engine \<noteq> None then engine else other)"

definition ResolveForCaller :: "lua_env \<Rightarrow> reg_state \<Rightarrow> owner \<Rightarrow> string \<Rightarrow> behavior option" where
  "ResolveForCaller env s ow nameArg =
     (if nameArg = [] then None
      else (let aliased = ResolveAlias env ow nameArg;
                n = (if aliased = [] then nameArg else aliased);
                segs = SplitDots n
            in if [] \<in> set segs then None
               else if length segs = 3 then Lookup s n
               else if length segs \<noteq> 1 then None
               else resolve_bare s ow (hd segs)))"

definition Enumerate :: "reg_state \<Rightarrow> string \<Rightarrow> behavior list" where
  "Enumerate s pre =
     (if pre = [] then map snd (r_store s)
      else map snd (takeWhile (\<lambda>kv. starts_with pre (fst kv))
             (dropWhile (\<lambda>kv. fst kv < pre) (r_store s))))"

definition RecordEdge :: "owner \<Rightarrow> string \<Rightarrow> reg_state \<Rightarrow> reg_state" where
  "RecordEdge ow fullName s =
     (if snd ow = [] then s
      else if list_ex (\<lambda>e. consumerAuthor e = fst ow \<and> consumerPlugin e = snd ow
                \<and> behaviorFullName e = fullName) (r_edges s) then s
      else s\<lparr>r_edges := r_edges s @
             [\<lparr>consumerAuthor = fst ow, consumerPlugin = snd ow, behaviorFullName = fullName\<rparr>]\<rparr>)"

section \<open>The record of one behavior\<close>

text \<open>
  The C++ code holds a pointer to the behavior; behaviors are never removed, so the pointer is
  the name, re-read from the store at each use.
\<close>

definition get_b :: "reg_state \<Rightarrow> string \<Rightarrow> behavior" where
  "get_b s n = (case Lookup s n of Some b \<Rightarrow> b
     | None \<Rightarrow> fresh_behavior n [] PluginTier [] [] [] kNoRef kNoRef kNoRef)"

definition upd_b :: "string \<Rightarrow> (behavior \<Rightarrow> behavior) \<Rightarrow> reg_state \<Rightarrow> reg_state" where
  "upd_b n f s = s\<lparr>r_store := omap_upd n f (r_store s)\<rparr>"

definition CurrentValueRef :: "behavior \<Rightarrow> int" where
  "CurrentValueRef b = (if recordedRef b \<noteq> kNoRef then recordedRef b else defaultRef b)"

definition release_recorded :: "string \<Rightarrow> reg_state \<Rightarrow> reg_state" where
  "release_recorded n s =
     (if recordedRef (get_b s n) \<noteq> kNoRef then luaL_unref (recordedRef (get_b s n)) s else s)"

definition RecordLoadSet :: "string \<Rightarrow> int \<Rightarrow> owner \<Rightarrow> reg_state \<Rightarrow> reg_state" where
  "RecordLoadSet n newValueRef ow s =
     upd_b n (\<lambda>b. b\<lparr>recordedRef := newValueRef, setterAuthor := fst ow, setterPlugin := snd ow,
                    valueGeneration := valueGeneration b + 1\<rparr>)
       (release_recorded n s)"

text \<open>Unset: the record and the applied flag cleared, the old reference released.\<close>

definition clear_record :: "string \<Rightarrow> reg_state \<Rightarrow> reg_state" where
  "clear_record n s =
     upd_b n (\<lambda>b. b\<lparr>recordedRef := kNoRef, b_applied := False, setterAuthor := [],
                    setterPlugin := [], valueGeneration := valueGeneration b + 1\<rparr>)
       (release_recorded n s)"

datatype toggle_result = ToggleOk | ToggleNoRevert | ToggleDeclarerRaised

text \<open>
  \<open>call f v s\<close> is the protected call of the function value \<open>f\<close> on \<open>v\<close>: the state after it and
  whether it raised.
\<close>

type_synonym pcall = "lua_value \<Rightarrow> lua_value \<Rightarrow> reg_state \<Rightarrow> reg_state \<times> bool"

definition PcallRef1 :: "pcall \<Rightarrow> int \<Rightarrow> int \<Rightarrow> reg_state \<Rightarrow> reg_state \<times> bool" where
  "PcallRef1 call fnRef valueRef s = call (lua_rawgeti s fnRef) (lua_rawgeti s valueRef) s"

definition ApplyPostLoadToggle ::
    "pcall \<Rightarrow> string \<Rightarrow> int \<Rightarrow> reg_state \<Rightarrow> reg_state \<times> toggle_result" where
  "ApplyPostLoadToggle call n newValueRef s =
     (if revertRef (get_b s n) = kNoRef then (luaL_unref newValueRef s, ToggleNoRevert)
      else
        (let (s1, revertRaised) =
           (if b_applied (get_b s n)
            then PcallRef1 call (revertRef (get_b s n)) (recordedRef (get_b s n)) s
            else (s, False))
         in if revertRaised then (luaL_unref newValueRef s1, ToggleDeclarerRaised)
            else
              (let (s2, implRaised) = PcallRef1 call (implementationRef (get_b s1 n)) newValueRef s1
               in if implRaised
                  then (clear_record n (luaL_unref newValueRef s2), ToggleDeclarerRaised)
                  else (upd_b n (\<lambda>b. b\<lparr>recordedRef := newValueRef, b_applied := True,
                                       valueGeneration := valueGeneration b + 1\<rparr>)
                          (release_recorded n s2), ToggleOk))))"

section \<open>kcdx.behavior.declare, set and get\<close>

datatype declare_error =
    BadArgName | EmptyName | DottedName | PostLoadDeclare | AnonymousDeclarer | MissingAuthor
  | BadArgSpec | UnknownSpecKey string | MissingDescription | MissingDefault
  | MissingImplementation | BadRevert | DuplicateDeclare string

definition kSpecKeys :: "string list" where
  "kSpecKeys = [''description'', ''default'', ''implementation'', ''revert'']"

definition lua_getfield :: "(string \<times> lua_value) list \<Rightarrow> string \<Rightarrow> lua_value" where
  "lua_getfield t k = (case map_of t k of Some v \<Rightarrow> v | None \<Rightarrow> VNil)"

fun is_function :: "lua_value \<Rightarrow> bool" where
  "is_function (VFunction f) = True"
| "is_function _ = False"

text \<open>The checks of the call, ending in the bare name and the description and field table.\<close>

definition check_declare :: "reg_state \<Rightarrow> owner \<Rightarrow> lua_value \<Rightarrow> lua_value
    \<Rightarrow> declare_error + (string \<times> string \<times> (string \<times> lua_value) list)" where
  "check_declare s ow nameV specV =
     (case nameV of
        VString bare \<Rightarrow>
          if bare = [] then Inl EmptyName
          else if CHR ''.'' \<in> set bare then Inl DottedName
          else if r_completed s then Inl PostLoadDeclare
          else if \<not> r_catalogMode s \<and> snd ow = [] then Inl AnonymousDeclarer
          else if \<not> r_catalogMode s \<and> fst ow = [] then Inl MissingAuthor
          else (case specV of
                  VTable t \<Rightarrow>
                    (case find (\<lambda>(k, _). k \<notin> set kSpecKeys) t of
                       Some (k, _) \<Rightarrow> Inl (UnknownSpecKey k)
                     | None \<Rightarrow>
                         (case lua_getfield t ''description'' of
                            VString desc \<Rightarrow>
                              if lua_getfield t ''default'' = VNil then Inl MissingDefault
                              else if \<not> is_function (lua_getfield t ''implementation'')
                              then Inl MissingImplementation
                              else if lua_getfield t ''revert'' \<noteq> VNil
                                      \<and> \<not> is_function (lua_getfield t ''revert'')
                              then Inl BadRevert
                              else Inr (bare, desc, t)
                          | _ \<Rightarrow> Inl MissingDescription))
                | _ \<Rightarrow> Inl BadArgSpec)
      | _ \<Rightarrow> Inl BadArgName)"

definition Lua_Declare :: "lua_env \<Rightarrow> owner \<Rightarrow> lua_value \<Rightarrow> lua_value \<Rightarrow> reg_state
    \<Rightarrow> reg_state \<times> declare_error option" where
  "Lua_Declare env ow nameV specV s =
     (case check_declare s ow nameV specV of
        Inl err \<Rightarrow> (s, Some err)
      | Inr (bare, desc, t) \<Rightarrow>
          (let (s1, dref) = luaL_ref env (lua_getfield t ''default'') s;
               (s2, iref) = luaL_ref env (lua_getfield t ''implementation'') s1;
               (s3, rref) = (if is_function (lua_getfield t ''revert'')
                             then luaL_ref env (lua_getfield t ''revert'') s2 else (s2, kNoRef))
           in case (if r_catalogMode s3 then DeclareEngine bare desc dref iref rref s3
                    else DeclarePlugin (fst ow) (snd ow) bare desc dref iref rref s3) of
                Inr s4 \<Rightarrow> (s4, None)
              | Inl standing \<Rightarrow>
                  (let s4 = luaL_unref iref (luaL_unref dref s3)
                   in (if rref \<noteq> kNoRef then luaL_unref rref s4 else s4,
                       Some (DuplicateDeclare standing)))))"

text \<open>Why a name did not resolve, and whether the set records an edge anyway.\<close>

datatype unresolved =
    CatalogMiss | OwnerAbsent | OwnerRejected | OwnerDisabled | NoSuchBare | OwnerFailed
  | OwnerLaterConfirmed | OwnerLater | BareConfirmed string | BareNoDeclarer

datatype set_error =
    SetBadArg | SetNilValue | SetUnresolved unresolved | SetOutOfWindow | SetPostLoadNoRevert

definition DeclarerHasAnyBehavior :: "reg_state \<Rightarrow> string \<Rightarrow> string \<Rightarrow> bool" where
  "DeclarerHasAnyBehavior s author plugin \<longleftrightarrow> Enumerate s (author @ ''.'' @ plugin @ ''.'') \<noteq> []"

definition owner_branch :: "lua_env \<Rightarrow> reg_state \<Rightarrow> owner \<Rightarrow> string \<Rightarrow> string \<Rightarrow> string \<Rightarrow> unresolved" where
  "owner_branch env s caller author plugin full =
     (if \<not> isKnownPlugin (env_manifests env) author plugin then OwnerAbsent
      else if \<not> IsPluginEnabled (env_lo env) plugin
      then (if RejectReason (env_zg env) (author @ ''.'' @ plugin) \<noteq> [] then OwnerRejected
            else OwnerDisabled)
      else if DeclarerHasAnyBehavior s author plugin then NoSuchBare
      else if plugin \<noteq> [] \<and> plugin \<in> set (env_failed env) then OwnerFailed
      else if RunsBefore (env_lo env) (snd caller) plugin
      then (if PriorLaunchEdgeConfirms (env_prior env) (fst caller) (snd caller) full
            then OwnerLaterConfirmed else OwnerLater)
      else NoSuchBare)"

definition RaiseSetResolution ::
    "lua_env \<Rightarrow> reg_state \<Rightarrow> string \<Rightarrow> owner \<Rightarrow> reg_state \<times> unresolved" where
  "RaiseSetResolution env s nameArg caller =
     (let segs = SplitDots nameArg
      in if length segs = 3 \<and> [] \<notin> set segs
         then (if segs ! 0 = ''kcdx'' \<and> segs ! 1 = ''behavior'' then (s, CatalogMiss)
               else (RecordEdge caller nameArg s,
                     owner_branch env s caller (segs ! 0) (segs ! 1) nameArg))
         else (case PriorLaunchEdgeForBare (env_prior env) (fst caller) (snd caller) nameArg of
                 Some priorFull \<Rightarrow> (s, BareConfirmed priorFull)
               | None \<Rightarrow> (s, BareNoDeclarer)))"

definition Lua_Set :: "pcall \<Rightarrow> lua_env \<Rightarrow> owner \<Rightarrow> lua_value \<Rightarrow> lua_value \<Rightarrow> reg_state
    \<Rightarrow> reg_state \<times> set_error option" where
  "Lua_Set call env ow nameV v s =
     (case nameV of
        VString nameArg \<Rightarrow>
          if v = VNil then (s, Some SetNilValue)
          else (case ResolveForCaller env s ow nameArg of
                  None \<Rightarrow> (let (s1, why) = RaiseSetResolution env s nameArg ow
                           in (s1, Some (SetUnresolved why)))
                | Some b \<Rightarrow>
                    if b_tier b = PluginTier \<and> r_phase s < EngineSubsystemsInit
                    then (s, Some SetOutOfWindow)
                    else if r_completed s \<or> b_applied b
                    then (let (s1, newRef) = luaL_ref env v s;
                              (s2, res) = ApplyPostLoadToggle call (b_fullName b) newRef s1
                          in (s2, if res = ToggleNoRevert then Some SetPostLoadNoRevert else None))
                    else (let (s1, newRef) = luaL_ref env v s
                          in (RecordEdge ow (b_fullName b)
                                (RecordLoadSet (b_fullName b) newRef ow s1), None)))
      | _ \<Rightarrow> (s, Some SetBadArg))"

definition Lua_Get :: "lua_env \<Rightarrow> owner \<Rightarrow> lua_value \<Rightarrow> reg_state \<Rightarrow> lua_value option" where
  "Lua_Get env ow nameV s =
     (case nameV of
        VString nameArg \<Rightarrow>
          map_option (\<lambda>b. lua_rawgeti s (CurrentValueRef b)) (ResolveForCaller env s ow nameArg)
      | _ \<Rightarrow> None)"

section \<open>Running declarer code\<close>

text \<open>Running a tree; the nested protected calls that a set makes go through \<open>call\<close>.\<close>

primrec run_lua :: "pcall \<Rightarrow> lua_env \<Rightarrow> lua_call \<Rightarrow> reg_state \<Rightarrow> reg_state \<times> bool" where
  "run_lua call env LuaReturn s = (s, False)"
| "run_lua call env LuaRaise s = (s, True)"
| "run_lua call env (LuaDeclare ow n spec k) s =
     (let (s1, err) = Lua_Declare env ow n spec s in run_lua call env (k (err \<noteq> None)) s1)"
| "run_lua call env (LuaSet ow n v k) s =
     (let (s1, err) = Lua_Set call env ow n v s in run_lua call env (k (err \<noteq> None)) s1)"
| "run_lua call env (LuaGet ow n k) s = run_lua call env (k (Lua_Get env ow n s)) s"

fun lua_pcall :: "nat \<Rightarrow> lua_env \<Rightarrow> pcall" where
  "lua_pcall 0 env f v s = (s, True)"
| "lua_pcall (Suc d) env f v s =
     (case f of VFunction i \<Rightarrow> run_lua (lua_pcall d env) env (env_code env i v) s
      | _ \<Rightarrow> (s, True))"

section \<open>The apply boundary\<close>

record drain_state =
  d_reg :: reg_state
  d_invoked :: "string list"
  d_applied :: nat
  d_raised :: nat

definition pending_pass :: "drain_state \<Rightarrow> string list" where
  "pending_pass d =
     map fst (sort_key (\<lambda>kv. declareSeq (snd kv))
       (filter (\<lambda>kv. recordedRef (snd kv) \<noteq> kNoRef \<and> \<not> b_applied (snd kv)
                     \<and> fst kv \<notin> set (d_invoked d)) (r_store (d_reg d))))"

definition drain_one :: "pcall \<Rightarrow> string \<Rightarrow> drain_state \<Rightarrow> drain_state" where
  "drain_one call n d =
     (let b = get_b (d_reg d) n
      in if recordedRef b = kNoRef \<or> b_applied b then d
         else
           (let s1 = upd_b n (\<lambda>b. b\<lparr>b_applied := True\<rparr>) (d_reg d);
                (s2, raised) = PcallRef1 call (implementationRef b) (recordedRef b) s1
            in if raised
               then d\<lparr>d_reg := clear_record n s2, d_invoked := d_invoked d @ [n],
                      d_raised := d_raised d + 1\<rparr>
               else d\<lparr>d_reg := s2, d_invoked := d_invoked d @ [n],
                      d_applied := d_applied d + 1\<rparr>))"

text \<open>The outer loop, with fuel for its passes.\<close>

fun drain :: "nat \<Rightarrow> pcall \<Rightarrow> drain_state \<Rightarrow> drain_state option" where
  "drain 0 call d = None"
| "drain (Suc k) call d =
     (if pending_pass d = [] then Some d
      else drain k call (fold (drain_one call) (pending_pass d) d))"

definition drop_unapplied :: "string \<Rightarrow> reg_state \<Rightarrow> reg_state" where
  "drop_unapplied n s =
     (if recordedRef (get_b s n) \<noteq> kNoRef \<and> \<not> b_applied (get_b s n) then clear_record n s else s)"

definition RunApplyBoundary ::
    "nat \<Rightarrow> pcall \<Rightarrow> reg_state \<Rightarrow> (reg_state \<times> string list \<times> nat \<times> nat) option" where
  "RunApplyBoundary fuel call s =
     (case drain fuel call \<lparr>d_reg = s, d_invoked = [], d_applied = 0, d_raised = 0\<rparr> of
        None \<Rightarrow> None
      | Some d \<Rightarrow>
          Some ((fold drop_unapplied (map fst (r_store (d_reg d))) (d_reg d))\<lparr>r_completed := True\<rparr>,
                d_invoked d, d_applied d, d_raised d))"

end
