(* ===== verification/Behavior_Boundary.thy ===== *)
theory Behavior_Boundary
  imports Behavior_Registry
begin

text \<open>
  What the behavior registry guarantees across declarer code: the ownership of Lua registry
  references, the agreement of the applied flag with the record, and the drain of the apply
  boundary.  Declarer code is arbitrary, so each guarantee is proved for the primitive calls and
  lifted over every interaction tree and every nesting depth by the locale \<open>lua_frame\<close>.
\<close>

section \<open>Lifting over declarer code\<close>

locale lua_frame =
  fixes env :: lua_env
    and R :: "reg_state \<Rightarrow> reg_state \<Rightarrow> bool"
    and tree_ok :: "lua_call \<Rightarrow> bool"
  assumes frame_refl: "R s s"
    and frame_trans: "R s t \<Longrightarrow> R t u \<Longrightarrow> R s u"
    and frame_code: "tree_ok (env_code env i v)"
    and frame_declare: "tree_ok (LuaDeclare ow n spec k) \<Longrightarrow>
          tree_ok (k b) \<and> R s (fst (Lua_Declare env ow n spec s))"
    and frame_set_k: "tree_ok (LuaSet ow n v k) \<Longrightarrow> tree_ok (k b)"
    and frame_get_k: "tree_ok (LuaGet ow n kg) \<Longrightarrow> tree_ok (kg r)"
    and frame_set: "(\<And>f v s. R s (fst (call f v s))) \<Longrightarrow> R s (fst (Lua_Set call env ow n v s))"
begin

lemma frame_run:
  assumes call: "\<And>f v s. R s (fst (call f v s))"
  shows "tree_ok t \<Longrightarrow> R s (fst (run_lua call env t s))"
proof (induction t arbitrary: s)
  case (LuaDeclare ow n spec k)
  have ok: "tree_ok (k b)" and step: "R s (fst (Lua_Declare env ow n spec s))" for b
    using frame_declare [OF LuaDeclare.prems] by auto
  show ?case
    using frame_trans [OF step LuaDeclare.IH [OF _ ok]] by (simp add: case_prod_beta)
next
  case (LuaSet ow n v k)
  have ok: "tree_ok (k b)" for b using frame_set_k [OF LuaSet.prems] .
  have step: "R s (fst (Lua_Set call env ow n v s))" using call by (rule frame_set)
  show ?case
    using frame_trans [OF step LuaSet.IH [OF _ ok]] by (simp add: case_prod_beta)
next
  case (LuaGet ow n k)
  have ok: "tree_ok (k r)" for r using frame_get_k [OF LuaGet.prems] .
  show ?case using LuaGet.IH [OF _ ok] by simp
qed (simp_all add: frame_refl)

lemma frame_pcall: "R s (fst (lua_pcall d env f v s))"
proof (induction d arbitrary: f v s)
  case (Suc d)
  then show ?case
    by (cases f) (auto simp: frame_refl intro!: frame_run frame_code)
qed (simp add: frame_refl)

lemma frame_PcallRef1: "R s (fst (PcallRef1 (lua_pcall d env) f v s))"
  by (simp add: PcallRef1_def frame_pcall)

end

section \<open>Basic facts\<close>

abbreviation declared :: "reg_state \<Rightarrow> string set" where
  "declared s \<equiv> dom (Lookup s)"

lemma Lookup_upd_b: "Lookup (upd_b n f s) m = (if m = n then map_option f (Lookup s m) else Lookup s m)"
  by (simp add: Lookup_def upd_b_def map_of_omap_upd)

lemma declared_keys: "declared s = set (map fst (r_store s))"
proof -
  have "Lookup s = map_of (r_store s)" by (simp add: Lookup_def fun_eq_iff)
  then show ?thesis by (simp add: dom_map_of_conv_image_fst)
qed

lemma luaL_unref_simps [simp]:
  "r_store (luaL_unref r s) = r_store s" "Lookup (luaL_unref r s) = Lookup s"
  "get_b (luaL_unref r s) = get_b s" "r_edges (luaL_unref r s) = r_edges s"
  "r_completed (luaL_unref r s) = r_completed s"
  by (simp_all add: luaL_unref_def Lookup_def get_b_def fun_eq_iff)

lemma release_recorded_simps [simp]:
  "r_store (release_recorded n s) = r_store s" "Lookup (release_recorded n s) = Lookup s"
  "get_b (release_recorded n s) = get_b s"
  by (simp_all add: release_recorded_def)

lemma upd_b_simps [simp]:
  "map fst (r_store (upd_b n f s)) = map fst (r_store s)" "r_refs (upd_b n f s) = r_refs s"
  "declared (upd_b n f s) = declared s"
  by (auto simp: upd_b_def declared_keys simp del: set_map)

lemma RecordEdge_simps [simp]:
  "r_store (RecordEdge ow n s) = r_store s" "Lookup (RecordEdge ow n s) = Lookup s"
  "r_refs (RecordEdge ow n s) = r_refs s"
  by (simp_all add: RecordEdge_def Lookup_def fun_eq_iff)

lemma luaL_ref_simps [simp]:
  "r_store (fst (luaL_ref env v s)) = r_store s" "Lookup (fst (luaL_ref env v s)) = Lookup s"
  "get_b (fst (luaL_ref env v s)) = get_b s"
  by (simp_all add: luaL_ref_def Let_def Lookup_def get_b_def fun_eq_iff)

lemma get_b_Some: "Lookup s n = Some b \<Longrightarrow> get_b s n = b"
  by (simp add: get_b_def)

lemma clear_record_keys [simp]: "map fst (r_store (clear_record n s)) = map fst (r_store s)"
  by (simp add: clear_record_def)

lemma RecordLoadSet_keys [simp]: "map fst (r_store (RecordLoadSet n r ow s)) = map fst (r_store s)"
  by (simp add: RecordLoadSet_def)

lemma Lua_Set_cases:
  obtains (same) "fst (Lua_Set call env ow nv v s) = s"
  | (edge) n where "fst (Lua_Set call env ow nv v s) = RecordEdge ow n s"
  | (toggle) nm b where "ResolveForCaller env s ow nm = Some b" "r_completed s \<or> b_applied b"
      "fst (Lua_Set call env ow nv v s) =
         fst (ApplyPostLoadToggle call (b_fullName b) (snd (luaL_ref env v s)) (fst (luaL_ref env v s)))"
  | (load) nm b where "ResolveForCaller env s ow nm = Some b" "\<not> r_completed s" "\<not> b_applied b"
      "fst (Lua_Set call env ow nv v s) =
         RecordEdge ow (b_fullName b) (RecordLoadSet (b_fullName b) (snd (luaL_ref env v s)) ow
           (fst (luaL_ref env v s)))"
proof (cases nv)
  case (VString nm)
  consider "v = VNil" | "v \<noteq> VNil" "ResolveForCaller env s ow nm = None"
    | b where "v \<noteq> VNil" "ResolveForCaller env s ow nm = Some b"
    by (cases "ResolveForCaller env s ow nm") auto
  then show ?thesis
  proof cases
    case 1
    then show ?thesis using VString by (intro that(1)) (simp add: Lua_Set_def)
  next
    case 2
    then have "fst (Lua_Set call env ow nv v s) = fst (RaiseSetResolution env s nm ow)"
      using VString by (simp add: Lua_Set_def case_prod_beta)
    moreover have "fst (RaiseSetResolution env s nm ow) = s
        \<or> fst (RaiseSetResolution env s nm ow) = RecordEdge ow nm s"
      by (auto simp: RaiseSetResolution_def Let_def split: option.splits)
    ultimately show ?thesis using that(1,2) by metis
  next
    case 3
    then have b: "ResolveForCaller env s ow nm = Some b" "v \<noteq> VNil" by auto
    show ?thesis
    proof (cases "b_tier b = PluginTier \<and> r_phase s < EngineSubsystemsInit")
      case True
      then show ?thesis using b VString by (intro that(1)) (simp add: Lua_Set_def)
    next
      case ok: False
      show ?thesis
      proof (cases "r_completed s \<or> b_applied b")
        case True
        then show ?thesis
          using b ok VString by (intro that(3) [OF b(1)]) (auto simp: Lua_Set_def case_prod_beta)
      next
        case False
        then show ?thesis
          using b ok VString by (intro that(4) [OF b(1)]) (auto simp: Lua_Set_def case_prod_beta)
      qed
    qed
  qed
qed (auto intro: that(1) simp: Lua_Set_def)

section \<open>Declared names\<close>

lemma toggle_keys:
  assumes call: "\<And>f v s. map fst (r_store (fst (call f v s))) = map fst (r_store s)"
  shows "map fst (r_store (fst (ApplyPostLoadToggle call n r s))) = map fst (r_store s)"
  using call
  by (auto simp: ApplyPostLoadToggle_def PcallRef1_def case_prod_beta Let_def)

text \<open>Trees that declare nothing.\<close>

primrec no_declare :: "lua_call \<Rightarrow> bool" where
  "no_declare LuaReturn = True"
| "no_declare LuaRaise = True"
| "no_declare (LuaDeclare ow n spec k) = False"
| "no_declare (LuaSet ow n v k) = (\<forall>b. no_declare (k b))"
| "no_declare (LuaGet ow n k) = (\<forall>r. no_declare (k r))"

definition declare_free :: "lua_env \<Rightarrow> bool" where
  "declare_free env \<longleftrightarrow> (\<forall>i v. no_declare (env_code env i v))"

text \<open>With code that declares nothing, the set of declared names is fixed.\<close>

lemma Lua_Set_keys:
  assumes call: "\<And>f v s. map fst (r_store (fst (call f v s))) = map fst (r_store s)"
  shows "map fst (r_store (fst (Lua_Set call env ow n v s))) = map fst (r_store s)"
  by (rule Lua_Set_cases [of call env ow n v s]) (simp_all add: toggle_keys [OF call])

interpretation fixed_names: lua_frame env
  "\<lambda>s t. declare_free env \<longrightarrow> map fst (r_store t) = map fst (r_store s)"
  "\<lambda>t. declare_free env \<longrightarrow> no_declare t" for env
proof
  fix call :: pcall and ow n v and s :: reg_state
  assume "\<And>f v s. declare_free env \<longrightarrow>
      map fst (r_store (fst (call f v s))) = map fst (r_store s)"
  then show "declare_free env \<longrightarrow>
      map fst (r_store (fst (Lua_Set call env ow n v s))) = map fst (r_store s)"
    using Lua_Set_keys by blast
qed (auto simp: declare_free_def)

text \<open>Whatever the code does, a declared behavior stays declared.\<close>

lemma RegisterOne_declared: "RegisterOne b s = Inr t \<Longrightarrow> declared s \<subseteq> declared t"
  by (auto simp: RegisterOne_def Let_def Lookup_def split: option.splits)

lemma Lua_Declare_cases:
  obtains (rejected) err where "Lua_Declare env ow nv spec s = (s, Some err)"
  | (registered) bare desc t s1 dref s2 iref s3 rref where
      "check_declare s ow nv spec = Inr (bare, desc, t)"
      "luaL_ref env (lua_getfield t ''default'') s = (s1, dref)"
      "luaL_ref env (lua_getfield t ''implementation'') s1 = (s2, iref)"
      "(if is_function (lua_getfield t ''revert'')
        then luaL_ref env (lua_getfield t ''revert'') s2 else (s2, kNoRef)) = (s3, rref)"
      "Lua_Declare env ow nv spec s =
         (case (if r_catalogMode s3 then DeclareEngine bare desc dref iref rref s3
                else DeclarePlugin (fst ow) (snd ow) bare desc dref iref rref s3) of
            Inr s4 \<Rightarrow> (s4, None)
          | Inl standing \<Rightarrow>
              (let s4 = luaL_unref iref (luaL_unref dref s3)
               in (if rref \<noteq> kNoRef then luaL_unref rref s4 else s4,
                   Some (DuplicateDeclare standing))))"
proof (cases "check_declare s ow nv spec")
  case (Inl err)
  then show ?thesis by (intro that(1)) (simp add: Lua_Declare_def)
next
  case (Inr x)
  obtain bare desc t where x: "x = (bare, desc, t)" by (cases x)
  obtain s1 dref where 1: "luaL_ref env (lua_getfield t ''default'') s = (s1, dref)" by fastforce
  obtain s2 iref where 2: "luaL_ref env (lua_getfield t ''implementation'') s1 = (s2, iref)"
    by fastforce
  obtain s3 rref where 3: "(if is_function (lua_getfield t ''revert'')
      then luaL_ref env (lua_getfield t ''revert'') s2 else (s2, kNoRef)) = (s3, rref)"
    by fastforce
  show ?thesis
    by (rule that(2) [OF Inr [unfolded x] 1 2 3])
      (simp add: Lua_Declare_def Inr x 1 2 3)
qed

lemma luaL_ref_same: "luaL_ref env v s = (t, r) \<Longrightarrow> r_store t = r_store s \<and> Lookup t = Lookup s"
  using luaL_ref_simps(1,2) by (metis fst_conv)

lemma Lua_Declare_declared: "declared s \<subseteq> declared (fst (Lua_Declare env ow nv spec s))"
proof (cases rule: Lua_Declare_cases [of env ow nv spec s])
  case (registered bare desc t s1 dref s2 iref s3 rref)
  have "Lookup s3 = Lookup s"
    using registered(2-4) luaL_ref_same by (metis prod.inject)
  then show ?thesis
    using RegisterOne_declared [of _ s3]
    by (auto simp: registered(5) DeclareEngine_def DeclarePlugin_def Let_def
        split: sum.splits dest: subsetD)
qed simp

lemma toggle_declared:
  assumes call: "\<And>f v s. declared s \<subseteq> declared (fst (call f v s))"
  shows "declared s \<subseteq> declared (fst (ApplyPostLoadToggle call n r s))"
proof -
  have "declared s \<subseteq> declared (fst (PcallRef1 call f v s))" for f v s
    using call by (simp add: PcallRef1_def)
  then show ?thesis
    by (simp add: ApplyPostLoadToggle_def case_prod_beta Let_def clear_record_def) blast
qed

interpretation growing: lua_frame env "\<lambda>s t. declared s \<subseteq> declared t" "\<lambda>_. True" for env
proof
  fix call :: pcall and ow n v and s :: reg_state
  assume call: "\<And>f v s. declared s \<subseteq> declared (fst (call f v s))"
  show "declared s \<subseteq> declared (fst (Lua_Set call env ow n v s))"
  proof (cases rule: Lua_Set_cases [of call env ow n v s])
    case (toggle nm b)
    then show ?thesis
      using toggle_declared [OF call, of "fst (luaL_ref env v s)"] by simp
  qed (simp_all add: RecordLoadSet_def)
qed (auto simp: Lua_Declare_declared dest: subsetD [OF Lua_Declare_declared])

section \<open>Ownership of registry references\<close>

datatype slot = DefaultSlot | ImplementationSlot | RevertSlot | RecordedSlot

definition b_slot :: "behavior \<Rightarrow> slot \<Rightarrow> int option" where
  "b_slot b k =
     (case k of
        DefaultSlot \<Rightarrow> Some (defaultRef b)
      | ImplementationSlot \<Rightarrow> Some (implementationRef b)
      | RevertSlot \<Rightarrow> (if revertRef b = kNoRef then None else Some (revertRef b))
      | RecordedSlot \<Rightarrow> (if recordedRef b = kNoRef then None else Some (recordedRef b)))"

definition slots :: "reg_state \<Rightarrow> string \<times> slot \<rightharpoonup> int" where
  "slots s = (\<lambda>(n, k). Option.bind (Lookup s n) (\<lambda>b. b_slot b k))"

definition inj_map :: "('k \<rightharpoonup> 'r) \<Rightarrow> bool" where
  "inj_map m \<longleftrightarrow> (\<forall>j k r. m j = Some r \<longrightarrow> m k = Some r \<longrightarrow> j = k)"

text \<open>
  \<open>reg_inv F s\<close>: every reference a behavior holds is live, no reference is held twice, and the
  live references are those held and the foreign ones \<open>F\<close> (other modules' and those a caller in
  progress has pinned); an applied behavior has a recorded value.
\<close>

definition reg_inv :: "int set \<Rightarrow> reg_state \<Rightarrow> bool" where
  "reg_inv F s \<longleftrightarrow>
     omap (r_store s)
     \<and> (\<forall>n b. Lookup s n = Some b \<longrightarrow> b_fullName b = n \<and> (b_applied b \<longrightarrow> recordedRef b \<noteq> kNoRef))
     \<and> finite (dom (r_refs s)) \<and> (\<forall>r \<in> dom (r_refs s). 0 < r)
     \<and> inj_map (slots s) \<and> ran (slots s) \<inter> F = {} \<and> dom (r_refs s) = ran (slots s) \<union> F"

definition alloc_ok :: "lua_env \<Rightarrow> bool" where
  "alloc_ok env \<longleftrightarrow> (\<forall>m. finite (dom m) \<longrightarrow> 0 < env_alloc env m \<and> m (env_alloc env m) = None)"

lemma reg_invI:
  assumes "omap (r_store s)"
    and "\<And>n b. Lookup s n = Some b \<Longrightarrow> b_fullName b = n \<and> (b_applied b \<longrightarrow> recordedRef b \<noteq> kNoRef)"
    and "finite (dom (r_refs s))" "\<And>r. r \<in> dom (r_refs s) \<Longrightarrow> 0 < r"
    and "inj_map (slots s)" "ran (slots s) \<inter> F = {}" "dom (r_refs s) = ran (slots s) \<union> F"
  shows "reg_inv F s"
  using assms unfolding reg_inv_def by blast

lemma reg_invD:
  assumes "reg_inv F s"
  shows "omap (r_store s)"
    and "Lookup s n = Some b \<Longrightarrow> b_fullName b = n \<and> (b_applied b \<longrightarrow> recordedRef b \<noteq> kNoRef)"
    and "finite (dom (r_refs s))" and "r \<in> dom (r_refs s) \<Longrightarrow> 0 < r"
    and "inj_map (slots s)" and "ran (slots s) \<inter> F = {}" and "dom (r_refs s) = ran (slots s) \<union> F"
  using assms unfolding reg_inv_def by blast+

lemma reg_inv_F_pos: "reg_inv F s \<Longrightarrow> r \<in> F \<Longrightarrow> 0 < r"
  using reg_invD(4,7) by blast

lemma reg_inv_name: "reg_inv F s \<Longrightarrow> Lookup s n = Some b \<Longrightarrow> b_fullName b = n"
  using reg_invD(2) by blast

lemma slots_cong: "Lookup s = Lookup t \<Longrightarrow> slots s = slots t"
  by (simp add: slots_def)

lemma luaL_ref_inv:
  assumes inv: "reg_inv F s" and alloc: "alloc_ok env" and ref: "luaL_ref env v s = (t, r)"
  shows "reg_inv (insert r F) t" "r \<notin> F" "r \<notin> dom (r_refs s)" "0 < r"
proof -
  have t: "t = s\<lparr>r_refs := (r_refs s)(r \<mapsto> v)\<rparr>" and r: "r = env_alloc env (r_refs s)"
    using ref by (auto simp: luaL_ref_def Let_def)
  have pos: "0 < r" and fresh: "r \<notin> dom (r_refs s)"
    using alloc reg_invD(3) [OF inv] by (auto simp: alloc_ok_def r)
  have same: "Lookup t = Lookup s" "r_store t = r_store s" and sl: "slots t = slots s"
    by (simp_all add: t Lookup_def slots_def fun_eq_iff)
  have dom: "dom (r_refs t) = insert r (dom (r_refs s))" by (simp add: t)
  show "reg_inv (insert r F) t"
  proof (rule reg_invI)
    show "ran (slots t) \<inter> insert r F = {}" "dom (r_refs t) = ran (slots t) \<union> insert r F"
      using reg_invD(6,7) [OF inv] fresh unfolding sl dom by auto
    show "0 < x" if "x \<in> dom (r_refs t)" for x
      using that pos reg_invD(4) [OF inv] unfolding dom by auto
  qed (use reg_invD(1,2,3,5) [OF inv] in \<open>auto simp: same sl dom\<close>)
  show "r \<notin> F" using reg_invD(7) [OF inv] fresh by blast
  show "r \<notin> dom (r_refs s)" "0 < r" by fact+
qed

lemma luaL_unref_inv:
  assumes inv: "reg_inv (insert r F) s" and r: "r \<notin> F"
  shows "reg_inv F (luaL_unref r s)"
proof -
  have "0 < r" using reg_inv_F_pos [OF inv] by simp
  then have dom: "dom (r_refs (luaL_unref r s)) = dom (r_refs s) - {r}"
    by (auto simp: luaL_unref_def)
  have sl: "slots (luaL_unref r s) = slots s" by (rule slots_cong) simp
  have "r \<notin> ran (slots s)" using reg_invD(6) [OF inv] by auto
  then have "dom (r_refs (luaL_unref r s)) = ran (slots s) \<union> F"
    using reg_invD(7) [OF inv] r unfolding dom by auto
  then show ?thesis
    using reg_invD [OF inv] unfolding sl [symmetric]
    by (intro reg_invI) (auto simp: dom)
qed

text \<open>Changing what a behavior records: the slot map changes at one place.\<close>

lemma slots_upd_b:
  assumes "Lookup s n = Some b"
    and "defaultRef (f b) = defaultRef b" "implementationRef (f b) = implementationRef b"
      "revertRef (f b) = revertRef b"
  shows "slots (upd_b n f s) = (slots s)((n, RecordedSlot) := b_slot (f b) RecordedSlot)"
  using assms
  by (auto simp: slots_def Lookup_upd_b fun_eq_iff b_slot_def split: slot.splits)

lemma inj_map_upd:
  "inj_map m \<Longrightarrow> (\<forall>r. x = Some r \<longrightarrow> r \<notin> ran m) \<Longrightarrow> inj_map (m(k := x))"
  by (fastforce simp: inj_map_def ran_def)

lemma ran_upd:
  assumes "inj_map m" "\<forall>r. x = Some r \<longrightarrow> r \<notin> ran m"
  shows "ran (m(k := x)) = (ran m - set_option (m k)) \<union> set_option x"
proof -
  have "ran (m(k := None)) = ran m - set_option (m k)"
    using assms(1) unfolding inj_map_def ran_def by (auto split: if_splits)
  then show ?thesis
    using assms by (cases x) (auto simp: ran_def fun_upd_def inj_map_def)
qed

text \<open>Writing \<open>r\<close> into the record of \<open>n\<close>: \<open>r\<close> leaves the foreign references, the old record joins
  them.\<close>

lemma record_inv:
  assumes inv: "reg_inv (F \<union> rs) s" and b: "Lookup s n = Some b"
    and f: "defaultRef (f b) = defaultRef b" "implementationRef (f b) = implementationRef b"
      "revertRef (f b) = revertRef b" "b_fullName (f b) = b_fullName b"
      "b_applied (f b) \<Longrightarrow> recordedRef (f b) \<noteq> kNoRef"
    and rs: "rs = set_option (b_slot (f b) RecordedSlot)" "rs \<inter> F = {}"
  shows "reg_inv (F \<union> set_option (b_slot b RecordedSlot)) (upd_b n f s)"
proof -
  let ?x = "b_slot (f b) RecordedSlot"
  let ?old = "set_option (b_slot b RecordedSlot)"
  have sl: "slots (upd_b n f s) = (slots s)((n, RecordedSlot) := ?x)"
    using b f(1-3) by (rule slots_upd_b)
  have inj: "inj_map (slots s)" and x: "\<forall>r. ?x = Some r \<longrightarrow> r \<notin> ran (slots s)"
    using inv rs(1) by (auto simp: reg_inv_def)
  have here: "slots s (n, RecordedSlot) = b_slot b RecordedSlot"
    using b by (simp add: slots_def)
  then have old: "?old \<subseteq> ran (slots s)" by (metis elem_set ranI subsetI)
  have ran: "ran (slots (upd_b n f s)) = (ran (slots s) - ?old) \<union> rs"
    unfolding sl using ran_upd [OF inj x] here rs(1) by simp
  have "inj_map (slots (upd_b n f s))" unfolding sl using inj x by (rule inj_map_upd)
  moreover have "ran (slots (upd_b n f s)) \<inter> (F \<union> ?old) = {}"
    using ran reg_invD(6) [OF inv] rs(2) old by blast
  moreover have "dom (r_refs (upd_b n f s)) = ran (slots (upd_b n f s)) \<union> (F \<union> ?old)"
    using ran reg_invD(7) [OF inv] old by simp blast
  moreover have "omap (r_store (upd_b n f s))"
    using inv by (simp add: reg_inv_def)
  moreover have "b_fullName c = m \<and> (b_applied c \<longrightarrow> recordedRef c \<noteq> kNoRef)"
    if "Lookup (upd_b n f s) m = Some c" for m c
    using that inv b f(4,5) by (auto simp: reg_inv_def Lookup_upd_b split: if_splits)
  ultimately show ?thesis
    using reg_invD(3,4) [OF inv] by (intro reg_invI) auto
qed

text \<open>The same with the old reference released, the form every writer has.\<close>

lemma release_record_inv:
  assumes inv: "reg_inv (F \<union> rs) s" and b: "Lookup s n = Some b"
    and f: "defaultRef (f b) = defaultRef b" "implementationRef (f b) = implementationRef b"
      "revertRef (f b) = revertRef b" "b_fullName (f b) = b_fullName b"
      "b_applied (f b) \<Longrightarrow> recordedRef (f b) \<noteq> kNoRef"
    and rs: "rs = set_option (b_slot (f b) RecordedSlot)" "rs \<inter> F = {}"
  shows "reg_inv F (upd_b n f (release_recorded n s))"
proof (cases "recordedRef b = kNoRef")
  case True
  then have "release_recorded n s = s" using b by (simp add: release_recorded_def get_b_Some)
  then show ?thesis
    using record_inv [where f = f, OF assms] True by (simp add: b_slot_def)
next
  case False
  have comm: "upd_b n f (luaL_unref r s) = luaL_unref r (upd_b n f s)" for r
    by (simp add: upd_b_def luaL_unref_def)
  have rel: "release_recorded n s = luaL_unref (recordedRef b) s"
    using False b by (simp add: release_recorded_def get_b_Some)
  have "recordedRef b \<in> ran (slots s)"
    using b False ranI [of "slots s" "(n, RecordedSlot)"] by (simp add: slots_def b_slot_def)
  then have "recordedRef b \<notin> F" using inv by (auto simp: reg_inv_def)
  moreover have "reg_inv (insert (recordedRef b) F) (upd_b n f s)"
    using record_inv [where f = f, OF assms] False by (simp add: b_slot_def)
  ultimately show ?thesis unfolding rel comm by (rule luaL_unref_inv [rotated])
qed

section \<open>Every call keeps the ownership invariant\<close>

lemma reg_inv_cong:
  "r_store t = r_store s \<Longrightarrow> r_refs t = r_refs s \<Longrightarrow> reg_inv F t = reg_inv F s"
proof -
  assume eq: "r_store t = r_store s" "r_refs t = r_refs s"
  then have "Lookup t = Lookup s" by (simp add: Lookup_def fun_eq_iff)
  then show ?thesis using eq slots_cong [of t s] by (simp add: reg_inv_def)
qed

lemma RecordEdge_inv [simp]: "reg_inv F (RecordEdge ow n s) = reg_inv F s"
  by (rule reg_inv_cong) simp_all

lemma RecordLoadSet_inv:
  assumes "reg_inv (insert r F) s" "r \<notin> F" "Lookup s n = Some b"
  shows "reg_inv F (RecordLoadSet n r ow s)"
proof -
  have "r \<noteq> kNoRef" using reg_inv_F_pos [OF assms(1), of r] by (simp add: kNoRef_def)
  then show ?thesis
    unfolding RecordLoadSet_def
    using assms by (intro release_record_inv [where rs = "{r}" and b = b]) (auto simp: b_slot_def)
qed

lemma clear_record_inv:
  assumes "reg_inv F s" "Lookup s n = Some b"
  shows "reg_inv F (clear_record n s)"
  unfolding clear_record_def
  using assms by (intro release_record_inv [where rs = "{}" and b = b]) (auto simp: b_slot_def kNoRef_def)

lemma mark_applied_inv:
  assumes "reg_inv F s" "Lookup s n = Some b" "recordedRef b \<noteq> kNoRef"
  shows "reg_inv F (upd_b n (\<lambda>b. b\<lparr>b_applied := True\<rparr>) s)"
proof (rule reg_invI)
  have "slots (upd_b n (\<lambda>b. b\<lparr>b_applied := True\<rparr>) s) = slots s"
    using assms(2)
    by (auto simp: slots_def Lookup_upd_b fun_eq_iff b_slot_def split: slot.splits)
  then show "inj_map (slots (upd_b n (\<lambda>b. b\<lparr>b_applied := True\<rparr>) s))"
    "ran (slots (upd_b n (\<lambda>b. b\<lparr>b_applied := True\<rparr>) s)) \<inter> F = {}"
    "dom (r_refs (upd_b n (\<lambda>b. b\<lparr>b_applied := True\<rparr>) s))
       = ran (slots (upd_b n (\<lambda>b. b\<lparr>b_applied := True\<rparr>) s)) \<union> F"
    using reg_invD(5,6,7) [OF assms(1)] by auto
qed (use reg_invD(1-4) [OF assms(1)] assms(2,3) in \<open>auto simp: Lookup_upd_b split: if_splits\<close>)

text \<open>The relation lifted over declarer code.\<close>

definition keeps :: "lua_env \<Rightarrow> reg_state \<Rightarrow> reg_state \<Rightarrow> bool" where
  "keeps env s t \<longleftrightarrow> declared s \<subseteq> declared t
     \<and> (alloc_ok env \<longrightarrow> (\<forall>F. reg_inv F s \<longrightarrow> reg_inv F t))"

lemma keepsD: "keeps env s t \<Longrightarrow> alloc_ok env \<Longrightarrow> reg_inv F s \<Longrightarrow> reg_inv F t"
  by (simp add: keeps_def)

lemma keeps_declared: "keeps env s t \<Longrightarrow> n \<in> declared s \<Longrightarrow> n \<in> declared t"
  by (auto simp: keeps_def)

lemma toggle_inv:
  assumes call: "\<And>f v s. keeps env s (fst (call f v s))" and alloc: "alloc_ok env"
    and inv: "reg_inv (insert r F) s" and r: "r \<notin> F" and n: "n \<in> declared s"
  shows "reg_inv F (fst (ApplyPostLoadToggle call n r s))"
proof -
  define s1 where "s1 = fst (if b_applied (get_b s n)
    then PcallRef1 call (revertRef (get_b s n)) (recordedRef (get_b s n)) s else (s, False))"
  define s2 where "s2 = fst (PcallRef1 call (implementationRef (get_b s1 n)) r s1)"
  have step: "reg_inv G (fst (PcallRef1 call f v t)) \<and> n \<in> declared (fst (PcallRef1 call f v t))"
    if "reg_inv G t" "n \<in> declared t" for G f v t
    using keepsD [OF call alloc that(1)] keeps_declared [OF call that(2)]
    by (simp add: PcallRef1_def)
  have 1: "reg_inv (insert r F) s1 \<and> n \<in> declared s1"
    using step inv n by (simp add: s1_def)
  then have "reg_inv (insert r F) s2 \<and> n \<in> declared s2"
    unfolding s2_def by (intro step) simp_all
  then have 2: "reg_inv (insert r F) s2" "n \<in> declared s2" by simp_all
  then obtain b where b: "Lookup s2 n = Some b" by auto
  have "0 < r" using reg_inv_F_pos [OF inv] by simp
  then have ok: "reg_inv F (upd_b n (\<lambda>b. b\<lparr>recordedRef := r, b_applied := True,
      valueGeneration := valueGeneration b + 1\<rparr>) (release_recorded n s2))"
    using 2(1) b r
    by (intro release_record_inv [where rs = "{r}" and b = b]) (auto simp: b_slot_def kNoRef_def)
  have "reg_inv F (clear_record n (luaL_unref r s2))"
    using luaL_unref_inv [OF 2(1) r] b by (intro clear_record_inv) simp_all
  moreover have "fst (ApplyPostLoadToggle call n r s) \<in>
      {luaL_unref r s, luaL_unref r s1, clear_record n (luaL_unref r s2),
       upd_b n (\<lambda>b. b\<lparr>recordedRef := r, b_applied := True,
         valueGeneration := valueGeneration b + 1\<rparr>) (release_recorded n s2)}"
    by (auto simp: ApplyPostLoadToggle_def case_prod_beta Let_def s1_def s2_def)
  ultimately show ?thesis
    using luaL_unref_inv [OF inv r] luaL_unref_inv [OF conjunct1 [OF 1] r] ok by auto
qed

lemma ResolveForCaller_declared:
  "ResolveForCaller env s ow nm = Some b \<Longrightarrow> \<exists>n. Lookup s n = Some b \<or> (n, b) \<in> set (r_store s)"
proof -
  assume r: "ResolveForCaller env s ow nm = Some b"
  have "\<exists>n. Lookup s n = Some b \<or> (n, b) \<in> set (r_store s)"
    if "resolve_bare s ow bare = Some b" for bare
  proof (cases "\<exists>n. Lookup s n = Some b")
    case False
    then have "map_option snd (find (\<lambda>kv. is_other ow bare (snd kv)) (r_store s)) = Some b"
      using that by (auto simp: resolve_bare_def Let_def split: if_splits)
    then obtain n where "find (\<lambda>kv. is_other ow bare (snd kv)) (r_store s) = Some (n, b)" by auto
    then have "(n, b) \<in> set (r_store s)" by (metis find_Some_iff nth_mem)
    then show ?thesis by blast
  qed blast
  then show ?thesis
    using r by (auto simp: ResolveForCaller_def Let_def split: if_splits)
qed

lemma ResolveForCaller_Lookup:
  assumes "reg_inv F s" "ResolveForCaller env s ow nm = Some b"
  shows "Lookup s (b_fullName b) = Some b"
proof -
  obtain n where "Lookup s n = Some b \<or> (n, b) \<in> set (r_store s)"
    using ResolveForCaller_declared [OF assms(2)] by blast
  then have "Lookup s n = Some b"
    using omap_distinct [OF reg_invD(1) [OF assms(1)]] by (auto simp: Lookup_def)
  then show ?thesis using reg_inv_name [OF assms(1)] by metis
qed

lemma Lua_Set_keeps:
  assumes call: "\<And>f v s. keeps env s (fst (call f v s))"
  shows "keeps env s (fst (Lua_Set call env ow nv v s))"
proof -
  have grow: "declared s \<subseteq> declared (fst (Lua_Set call env ow nv v s))"
    by (rule growing.frame_set) (use call in \<open>simp add: keeps_def\<close>)
  have "reg_inv F (fst (Lua_Set call env ow nv v s))" if alloc: "alloc_ok env" and inv: "reg_inv F s" for F
  proof -
    obtain t r where tr: "luaL_ref env v s = (t, r)" by fastforce
    note new = luaL_ref_inv [OF inv alloc tr]
    have t: "Lookup t = Lookup s" using luaL_ref_same [OF tr] by simp
    show ?thesis
    proof (cases rule: Lua_Set_cases [of call env ow nv v s])
      case (toggle nm b)
      have "b_fullName b \<in> declared t"
        using ResolveForCaller_Lookup [OF inv toggle(1)] t by auto
      then show ?thesis
        using toggle_inv [OF call alloc new(1,2)] toggle(3) tr by simp
    next
      case (load nm b)
      then show ?thesis
        using RecordLoadSet_inv [OF new(1,2)] ResolveForCaller_Lookup [OF inv load(1)] t tr by simp
    qed (use inv in simp_all)
  qed
  with grow show ?thesis by (simp add: keeps_def)
qed

lemma register_inv:
  assumes inv: "reg_inv (F \<union> rs) s" and reg: "RegisterOne b s = Inr t"
    and rs: "rs = ran (b_slot b)" "rs \<inter> F = {}" "inj_map (b_slot b)" and b: "\<not> b_applied b"
  shows "reg_inv F t"
proof -
  let ?full = "b_fullName b"
  have none: "Lookup s ?full = None"
    and t: "t = s\<lparr>r_nextSeq := r_nextSeq s + 1, r_store := omap_insert ?full
              (b\<lparr>declareSeq := r_nextSeq s + 1\<rparr>) (r_store s)\<rparr>"
    using reg by (auto simp: RegisterOne_def Let_def Lookup_def split: option.splits)
  have look: "Lookup t = (Lookup s)(?full \<mapsto> b\<lparr>declareSeq := r_nextSeq s + 1\<rparr>)"
    by (simp add: t Lookup_def fun_eq_iff)
  have sl: "slots t (m, k) = (if m = ?full then b_slot b k else slots s (m, k))" for m k
    by (simp add: slots_def look b_slot_def split: slot.splits)
  have sl0: "slots s (?full, k) = None" for k using none by (simp add: slots_def)
  have disj: "x \<notin> ran (b_slot b)" if "slots s mk = Some x" for x mk
    using that rs(1) reg_invD(6) [OF inv] by (auto dest: ranI)
  have inj: "inj_map (slots t)"
    unfolding inj_map_def
  proof (intro allI impI)
    fix p q r
    assume pq: "slots t p = Some r" "slots t q = Some r"
    obtain m k m' k' where p: "p = (m, k)" "q = (m', k')" by (cases p; cases q)
    consider "m = ?full" "m' = ?full" | "m \<noteq> ?full" "m' \<noteq> ?full"
      | "m = ?full" "m' \<noteq> ?full" | "m \<noteq> ?full" "m' = ?full" by blast
    then show "p = q"
    proof cases
      case 1
      then show ?thesis using pq rs(3) unfolding p sl inj_map_def by auto
    next
      case 2
      then show ?thesis using pq reg_invD(5) [OF inv] unfolding p sl inj_map_def by auto
    qed (use pq disj ranI in \<open>unfold p sl, fastforce+\<close>)
  qed
  have ran: "ran (slots t) = ran (slots s) \<union> rs"
  proof
    show "ran (slots t) \<subseteq> ran (slots s) \<union> rs"
    proof
      fix r
      assume "r \<in> ran (slots t)"
      then obtain m k where "slots t (m, k) = Some r" by (auto simp: ran_def)
      then show "r \<in> ran (slots s) \<union> rs"
        unfolding sl rs(1) by (auto split: if_splits dest: ranI)
    qed
    show "ran (slots s) \<union> rs \<subseteq> ran (slots t)"
    proof
      fix r
      assume "r \<in> ran (slots s) \<union> rs"
      then consider m k where "slots s (m, k) = Some r" | k where "b_slot b k = Some r"
        by (auto simp: ran_def rs(1))
      then show "r \<in> ran (slots t)"
      proof cases
        case 1
        then have "slots t (m, k) = Some r" using sl0 by (auto simp: sl)
        then show ?thesis by (rule ranI)
      next
        case 2
        then have "slots t (?full, k) = Some r" by (simp add: sl)
        then show ?thesis by (rule ranI)
      qed
    qed
  qed
  show ?thesis
  proof (rule reg_invI)
    show "ran (slots t) \<inter> F = {}" using ran rs(2) reg_invD(6) [OF inv] by auto
    show "dom (r_refs t) = ran (slots t) \<union> F" using ran reg_invD(7) [OF inv] by (auto simp: t)
    show "b_fullName c = n \<and> (b_applied c \<longrightarrow> recordedRef c \<noteq> kNoRef)" if "Lookup t n = Some c" for n c
      using that b reg_invD(2) [OF inv] by (auto simp: look split: if_splits)
    show "omap (r_store t)" using reg_invD(1) [OF inv] by (simp add: t)
  qed (use inj reg_invD(3,4) [OF inv] in \<open>auto simp: t\<close>)
qed

lemma slot_ex:
  "(\<exists>k. P k) \<longleftrightarrow> P DefaultSlot \<or> P ImplementationSlot \<or> P RevertSlot \<or> P RecordedSlot"
  by (metis slot.exhaust)

lemma Lua_Declare_keeps: "keeps env s (fst (Lua_Declare env ow nv spec s))"
proof -
  have "reg_inv F (fst (Lua_Declare env ow nv spec s))"
    if alloc: "alloc_ok env" and inv: "reg_inv F s" for F
  proof (cases rule: Lua_Declare_cases [of env ow nv spec s])
    case (registered bare desc t s1 dref s2 iref s3 rref)
    note 1 = luaL_ref_inv [OF inv alloc registered(2)]
    note 2 = luaL_ref_inv [OF 1(1) alloc registered(3)]
    let ?rs = "if rref = kNoRef then {} else {rref}"
    have 3: "reg_inv (?rs \<union> insert iref (insert dref F)) s3 \<and> ?rs \<inter> insert iref (insert dref F) = {}"
    proof (cases "is_function (lua_getfield t ''revert'')")
      case True
      then have tr: "luaL_ref env (lua_getfield t ''revert'') s2 = (s3, rref)" using registered(4) by simp
      note 3 = luaL_ref_inv [OF 2(1) alloc tr]
      have "rref \<noteq> kNoRef" using 3(4) by (simp add: kNoRef_def)
      then show ?thesis using 3(1,2) by (simp add: insert_commute)
    next
      case False
      then show ?thesis using registered(4) 2 by simp
    qed
    let ?b = "if r_catalogMode s3
      then fresh_behavior (kEngineRoot @ bare) bare EngineTier [] [] desc dref iref rref
      else fresh_behavior (fst ow @ ''.'' @ snd ow @ ''.'' @ bare) bare PluginTier (fst ow) (snd ow)
             desc dref iref rref"
    have decl: "(if r_catalogMode s3 then DeclareEngine bare desc dref iref rref s3
        else DeclarePlugin (fst ow) (snd ow) bare desc dref iref rref s3) = RegisterOne ?b s3"
      by (simp add: DeclareEngine_def DeclarePlugin_def)
    have slot: "b_slot ?b = (\<lambda>k. case k of DefaultSlot \<Rightarrow> Some dref | ImplementationSlot \<Rightarrow> Some iref
        | RevertSlot \<Rightarrow> (if rref = kNoRef then None else Some rref) | RecordedSlot \<Rightarrow> None)"
      by (auto simp: b_slot_def fresh_behavior_def fun_eq_iff split: slot.splits)
    have rs: "{dref, iref} \<union> ?rs = ran (b_slot ?b)"
      unfolding slot by (auto simp: ran_def slot_ex)
    have inj: "inj_map (b_slot ?b)"
      using 3 1(2) 2(2) unfolding slot inj_map_def by (auto split: slot.splits if_splits)
    show ?thesis
    proof (cases "RegisterOne ?b s3")
      case (Inr s4)
      have "reg_inv F s4"
      proof (rule register_inv [OF _ Inr rs _ inj])
        show "reg_inv (F \<union> ({dref, iref} \<union> ?rs)) s3"
          using 3 by (simp add: insert_commute Un_commute)
        show "({dref, iref} \<union> ?rs) \<inter> F = {}" using 3 1(2) 2(2) by auto
      qed (simp add: fresh_behavior_def)
      then show ?thesis by (simp add: registered(5) decl Inr)
    next
      case (Inl standing)
      have a: "reg_inv (?rs \<union> F) (luaL_unref iref (luaL_unref dref s3))"
      proof (rule luaL_unref_inv)
        show "reg_inv (insert iref (?rs \<union> F)) (luaL_unref dref s3)"
          using 3 1(2) 2(2) by (intro luaL_unref_inv) (auto simp: insert_commute split: if_splits)
        show "iref \<notin> ?rs \<union> F" using 3 2(2) by auto
      qed
      then have "reg_inv F (luaL_unref rref (luaL_unref iref (luaL_unref dref s3)))" if "rref \<noteq> kNoRef"
        using a that 3 by (intro luaL_unref_inv [of rref]) auto
      then show ?thesis using a by (auto simp: registered(5) decl Inl Let_def)
    qed
  qed (use that in simp)
  then show ?thesis using Lua_Declare_declared by (simp add: keeps_def)
qed

interpretation keeping: lua_frame env "keeps env" "\<lambda>_. True" for env
  by unfold_locales (auto simp: Lua_Declare_keeps Lua_Set_keeps, auto simp: keeps_def)

end
