(* ===== verification/Behavior_Drain.thy ===== *)
theory Behavior_Drain
  imports Behavior_Boundary
begin

text \<open>
  The apply boundary (\<open>RunApplyBoundary\<close>): it returns when implementations declare nothing, it
  invokes each behavior at most once, and it leaves the records truthful; and what happens when
  an implementation declares.  Also the load-window set and the read after it.
\<close>

section \<open>One pass of the drain\<close>

text \<open>Only a declared behavior with a record is invoked, and never a second time.\<close>

definition drain_inv :: "int set \<Rightarrow> drain_state \<Rightarrow> bool" where
  "drain_inv F d \<longleftrightarrow> reg_inv F (d_reg d) \<and> distinct (d_invoked d)
     \<and> set (d_invoked d) \<subseteq> declared (d_reg d) \<and> d_applied d + d_raised d = length (d_invoked d)"

lemma PcallRef1_keeps: "keeps env s (fst (PcallRef1 (lua_pcall k env) f v s))"
  by (rule keeping.frame_PcallRef1)

lemma drain_one_cases:
  obtains (skip) "drain_one call n d = d"
      "recordedRef (get_b (d_reg d) n) = kNoRef \<or> b_applied (get_b (d_reg d) n)"
  | (invoked) s2 where "\<not> (recordedRef (get_b (d_reg d) n) = kNoRef \<or> b_applied (get_b (d_reg d) n))"
      "s2 = fst (PcallRef1 call (implementationRef (get_b (d_reg d) n)) (recordedRef (get_b (d_reg d) n))
         (upd_b n (\<lambda>b. b\<lparr>b_applied := True\<rparr>) (d_reg d)))"
      "d_reg (drain_one call n d) \<in> {s2, clear_record n s2}"
      "d_invoked (drain_one call n d) = d_invoked d @ [n]"
      "d_applied (drain_one call n d) + d_raised (drain_one call n d) = d_applied d + d_raised d + 1"
proof (cases "recordedRef (get_b (d_reg d) n) = kNoRef \<or> b_applied (get_b (d_reg d) n)")
  case True
  then show ?thesis by (intro that(1)) (simp_all add: drain_one_def)
next
  case False
  show ?thesis
    by (rule that(2) [OF False refl]) (use False in \<open>simp_all add: drain_one_def Let_def case_prod_beta\<close>)
qed

lemma drain_one_inv:
  assumes alloc: "alloc_ok env" and inv: "drain_inv F d"
    and n: "n \<in> declared (d_reg d)" "n \<notin> set (d_invoked d)"
  shows "drain_inv F (drain_one (lua_pcall k env) n d)"
    and "declared (d_reg d) \<subseteq> declared (d_reg (drain_one (lua_pcall k env) n d))"
    and "set (d_invoked (drain_one (lua_pcall k env) n d)) \<subseteq> insert n (set (d_invoked d))"
proof -
  obtain b where b: "Lookup (d_reg d) n = Some b" using n(1) by auto
  have reg: "reg_inv F (d_reg d)" using inv by (simp add: drain_inv_def)
  have all: "drain_inv F (drain_one (lua_pcall k env) n d)
      \<and> declared (d_reg d) \<subseteq> declared (d_reg (drain_one (lua_pcall k env) n d))
      \<and> set (d_invoked (drain_one (lua_pcall k env) n d)) \<subseteq> insert n (set (d_invoked d))"
  proof (cases rule: drain_one_cases [of "lua_pcall k env" n d])
    case skip
    then show ?thesis using inv by auto
  next
    case (invoked s2)
    have "reg_inv F (upd_b n (\<lambda>b. b\<lparr>b_applied := True\<rparr>) (d_reg d))"
      using mark_applied_inv [OF reg b] invoked(1) b by (simp add: get_b_Some)
    then have 2: "reg_inv F s2"
      unfolding invoked(2) by (rule keepsD [OF PcallRef1_keeps alloc])
    have grow: "declared (d_reg d) \<subseteq> declared s2"
      using PcallRef1_keeps [of env "upd_b n (\<lambda>b. b\<lparr>b_applied := True\<rparr>) (d_reg d)"]
      unfolding invoked(2) keeps_def by simp
    then obtain c where "Lookup s2 n = Some c" using n(1) by auto
    then have "reg_inv F (clear_record n s2)" using 2 by (intro clear_record_inv)
    moreover have "declared (clear_record n s2) = declared s2" by (simp add: clear_record_def)
    ultimately have "reg_inv F (d_reg (drain_one (lua_pcall k env) n d))
        \<and> declared (d_reg (drain_one (lua_pcall k env) n d)) = declared s2"
      using invoked(3) 2 by (metis empty_iff insert_iff)
    then show ?thesis
      using inv n grow invoked(4,5) unfolding drain_inv_def by simp blast
  qed
  show "drain_inv F (drain_one (lua_pcall k env) n d)"
    and "declared (d_reg d) \<subseteq> declared (d_reg (drain_one (lua_pcall k env) n d))"
    and "set (d_invoked (drain_one (lua_pcall k env) n d)) \<subseteq> insert n (set (d_invoked d))"
    using all by blast+
qed

lemma drain_pass_inv:
  assumes alloc: "alloc_ok env"
  shows "drain_inv F d \<Longrightarrow> distinct ns \<Longrightarrow> set ns \<subseteq> declared (d_reg d) \<Longrightarrow>
    set ns \<inter> set (d_invoked d) = {} \<Longrightarrow> drain_inv F (fold (drain_one (lua_pcall k env)) ns d)"
proof (induction ns arbitrary: d)
  case (Cons n ns)
  note one = drain_one_inv [OF alloc Cons.prems(1), of n k]
  have "set ns \<subseteq> declared (d_reg (drain_one (lua_pcall k env) n d))"
    using one(2) Cons.prems(2,3) Cons.prems(4) by (meson dual_order.trans set_subset_Cons list.set_intros(1) disjoint_iff subsetD)
  moreover have "drain_inv F (drain_one (lua_pcall k env) n d)"
    using one(1) Cons.prems(3,4) by (meson disjoint_iff list.set_intros(1) subsetD)
  moreover have "set ns \<inter> set (d_invoked (drain_one (lua_pcall k env) n d)) = {}"
    using one(3) Cons.prems(2,3,4) by fastforce
  ultimately show ?case using Cons.IH Cons.prems(2) by simp
qed simp

lemma pending_passD:
  assumes "omap (r_store (d_reg d))"
  shows "distinct (pending_pass d)"
    and "set (pending_pass d) \<subseteq> declared (d_reg d)"
    and "n \<in> set (pending_pass d) \<Longrightarrow> n \<notin> set (d_invoked d)
          \<and> recordedRef (get_b (d_reg d) n) \<noteq> kNoRef \<and> \<not> b_applied (get_b (d_reg d) n)"
proof -
  let ?P = "\<lambda>kv. recordedRef (snd kv) \<noteq> kNoRef \<and> \<not> b_applied (snd kv) \<and> fst kv \<notin> set (d_invoked d)"
  have dist: "distinct (map fst (r_store (d_reg d)))" using assms by (rule omap_distinct)
  have "mset (pending_pass d) = image_mset fst (filter_mset ?P (mset (r_store (d_reg d))))"
    by (simp add: pending_pass_def)
  then have "mset (pending_pass d) = mset (map fst (filter ?P (r_store (d_reg d))))"
    by simp
  moreover have "distinct (map fst (filter ?P (r_store (d_reg d))))"
    using dist by (simp add: distinct_map_filter)
  ultimately show "distinct (pending_pass d)"
    by (rule iffD2 [OF mset_eq_imp_distinct_iff])
  have set: "set (pending_pass d) = fst ` {kv \<in> set (r_store (d_reg d)). ?P kv}"
    by (simp add: pending_pass_def)
  then show "set (pending_pass d) \<subseteq> declared (d_reg d)" by (auto simp: declared_keys)
  assume "n \<in> set (pending_pass d)"
  then obtain b where nb: "(n, b) \<in> set (r_store (d_reg d))" "?P (n, b)" unfolding set by auto
  then have "Lookup (d_reg d) n = Some b" using dist by (simp add: Lookup_def)
  then show "n \<notin> set (d_invoked d) \<and> recordedRef (get_b (d_reg d) n) \<noteq> kNoRef
      \<and> \<not> b_applied (get_b (d_reg d) n)"
    using nb(2) by (simp add: get_b_Some)
qed

lemma drain_keeps_inv:
  assumes alloc: "alloc_ok env"
  shows "drain fuel (lua_pcall k env) d = Some d' \<Longrightarrow> drain_inv F d \<Longrightarrow>
    drain_inv F d' \<and> pending_pass d' = []"
proof (induction fuel arbitrary: d)
  case (Suc fuel)
  show ?case
  proof (cases "pending_pass d = []")
    case False
    have om: "omap (r_store (d_reg d))"
      using Suc.prems(2) reg_invD(1) by (auto simp: drain_inv_def)
    have "drain_inv F (fold (drain_one (lua_pcall k env)) (pending_pass d) d)"
      using Suc.prems(2) pending_passD [OF om] by (intro drain_pass_inv [OF alloc]) auto
    then show ?thesis using Suc.IH Suc.prems(1) False by simp
  qed (use Suc.prems in simp)
qed simp

section \<open>Termination\<close>

lemma drain_one_keys:
  assumes "declare_free env"
  shows "map fst (r_store (d_reg (drain_one (lua_pcall k env) n d))) = map fst (r_store (d_reg d))"
proof -
  have "map fst (r_store (fst (PcallRef1 (lua_pcall k env) f v s))) = map fst (r_store s)" for f v s
    using fixed_names.frame_PcallRef1 assms by blast
  then show ?thesis by (cases rule: drain_one_cases [of "lua_pcall k env" n d]) auto
qed

lemma fold_drain_one_keys:
  "declare_free env \<Longrightarrow>
    map fst (r_store (d_reg (fold (drain_one (lua_pcall k env)) ns d))) = map fst (r_store (d_reg d))"
  by (induction ns arbitrary: d) (simp_all add: drain_one_keys)

lemma drain_one_invoked:
  "length (d_invoked d) \<le> length (d_invoked (drain_one call n d))"
  by (cases rule: drain_one_cases [of call n d]) auto

lemma fold_drain_one_invoked:
  "length (d_invoked d) \<le> length (d_invoked (fold (drain_one call) ns d))"
proof (induction ns arbitrary: d)
  case (Cons n ns)
  then show ?case using drain_one_invoked [of d call n] by (simp add: order_trans)
qed simp

lemma drain_one_set_invoked:
  "set (d_invoked (drain_one call n d)) \<subseteq> insert n (set (d_invoked d))"
  by (cases rule: drain_one_cases [of call n d]) auto

lemma drain_one_distinct:
  "n \<notin> set (d_invoked d) \<Longrightarrow> distinct (d_invoked d) \<Longrightarrow> distinct (d_invoked (drain_one call n d))"
  by (cases rule: drain_one_cases [of call n d]) auto

lemma fold_drain_one_distinct:
  "distinct ns \<Longrightarrow> set ns \<inter> set (d_invoked d) = {} \<Longrightarrow> distinct (d_invoked d) \<Longrightarrow>
    distinct (d_invoked (fold (drain_one call) ns d))
    \<and> set (d_invoked (fold (drain_one call) ns d)) \<subseteq> set ns \<union> set (d_invoked d)"
proof (induction ns arbitrary: d)
  case (Cons n ns)
  have "set ns \<inter> set (d_invoked (drain_one call n d)) = {}"
    using Cons.prems drain_one_set_invoked [of call n d] by auto
  moreover have "distinct (d_invoked (drain_one call n d))"
    using Cons.prems by (intro drain_one_distinct) auto
  ultimately show ?case
    using Cons.IH [of "drain_one call n d"] Cons.prems(1) drain_one_set_invoked [of call n d] by auto
qed simp

lemma pass_invokes:
  assumes om: "omap (r_store (d_reg d))" and ne: "pending_pass d \<noteq> []"
  shows "length (d_invoked d) < length (d_invoked (fold (drain_one call) (pending_pass d) d))"
proof -
  obtain n ns where ns: "pending_pass d = n # ns" using ne by (cases "pending_pass d") auto
  then have "recordedRef (get_b (d_reg d) n) \<noteq> kNoRef \<and> \<not> b_applied (get_b (d_reg d) n)"
    using pending_passD(3) [OF om, of n] by simp
  then have "length (d_invoked (drain_one call n d)) = length (d_invoked d) + 1"
    by (cases rule: drain_one_cases [of call n d]) auto
  then show ?thesis
    using fold_drain_one_invoked [of "drain_one call n d" call ns] by (simp add: ns)
qed

lemma drain_terminates:
  assumes free: "declare_free env"
  shows "omap (r_store (d_reg d)) \<Longrightarrow> distinct (d_invoked d) \<Longrightarrow>
    set (d_invoked d) \<subseteq> declared (d_reg d) \<Longrightarrow>
    length (r_store (d_reg d)) < fuel + length (d_invoked d) \<Longrightarrow>
    drain fuel (lua_pcall k env) d \<noteq> None"
proof (induction fuel arbitrary: d)
  case 0
  have "length (d_invoked d) = card (set (d_invoked d))"
    using 0(2) by (simp add: distinct_card)
  also have "\<dots> \<le> card (set (map fst (r_store (d_reg d))))"
    using 0(3) unfolding declared_keys by (intro card_mono) auto
  also have "\<dots> \<le> length (r_store (d_reg d))"
    using card_length [of "map fst (r_store (d_reg d))"] by simp
  finally show ?case using 0(4) by simp
next
  case (Suc fuel)
  let ?d = "fold (drain_one (lua_pcall k env)) (pending_pass d) d"
  show ?case
  proof (cases "pending_pass d = []")
    case False
    have keys: "map fst (r_store (d_reg ?d)) = map fst (r_store (d_reg d))"
      by (rule fold_drain_one_keys [OF free])
    have dist: "distinct (d_invoked ?d)
        \<and> set (d_invoked ?d) \<subseteq> set (pending_pass d) \<union> set (d_invoked d)"
      using pending_passD [OF Suc.prems(1)] Suc.prems(2) by (intro fold_drain_one_distinct) auto
    have len: "length (r_store (d_reg ?d)) = length (r_store (d_reg d))"
      using keys by (metis length_map)
    have "drain fuel (lua_pcall k env) ?d \<noteq> None"
    proof (rule Suc.IH)
      show "set (d_invoked ?d) \<subseteq> declared (d_reg ?d)"
        using dist pending_passD(2) [OF Suc.prems(1)] Suc.prems(3)
        unfolding declared_keys keys by auto
      show "length (r_store (d_reg ?d)) < fuel + length (d_invoked ?d)"
        using pass_invokes [OF Suc.prems(1) False, of "lua_pcall k env"] Suc.prems(4) len by simp
    qed (use Suc.prems(1) keys dist in auto)
    then show ?thesis using False by simp
  qed simp
qed

section \<open>After the drain\<close>

definition settled :: "reg_state \<Rightarrow> string \<Rightarrow> bool" where
  "settled s n \<longleftrightarrow> (\<forall>b. Lookup s n = Some b \<longrightarrow> recordedRef b \<noteq> kNoRef \<longrightarrow> b_applied b)"

lemma Lookup_clear_record_other: "m \<noteq> n \<Longrightarrow> Lookup (clear_record n s) m = Lookup s m"
  by (simp add: clear_record_def Lookup_upd_b)

lemma drop_unapplied_settled:
  "settled (drop_unapplied n s) m \<longleftrightarrow> m = n \<or> settled s m"
proof (cases "m = n")
  case True
  have "settled (drop_unapplied n s) n"
    by (cases "Lookup s n") (auto simp: drop_unapplied_def settled_def get_b_def clear_record_def Lookup_upd_b)
  then show ?thesis using True by simp
next
  case False
  then show ?thesis by (simp add: drop_unapplied_def settled_def Lookup_clear_record_other)
qed

lemma fold_drop_settled: "m \<in> set ns \<or> settled s m \<Longrightarrow> settled (fold drop_unapplied ns s) m"
  by (induction ns arbitrary: s) (auto simp: drop_unapplied_settled)

lemma drop_unapplied_inv:
  "reg_inv F s \<Longrightarrow> n \<in> declared s \<Longrightarrow>
    reg_inv F (drop_unapplied n s) \<and> declared (drop_unapplied n s) = declared s"
proof -
  assume inv: "reg_inv F s" and n: "n \<in> declared s"
  then obtain b where "Lookup s n = Some b" by auto
  then have "reg_inv F (clear_record n s)" by (rule clear_record_inv [OF inv])
  moreover have "declared (clear_record n s) = declared s" by (simp add: clear_record_def)
  ultimately show ?thesis using inv by (simp add: drop_unapplied_def)
qed

lemma fold_drop_inv:
  "reg_inv F s \<Longrightarrow> set ns \<subseteq> declared s \<Longrightarrow>
    reg_inv F (fold drop_unapplied ns s) \<and> declared (fold drop_unapplied ns s) = declared s"
proof (induction ns arbitrary: s)
  case (Cons n ns)
  then show ?case using drop_unapplied_inv [of F s n] by simp
qed simp

section \<open>A declare from inside the drain\<close>

text \<open>
  The declare window closes when the boundary has completed, so code run by the drain may still
  declare.  The implementation below declares a behavior with a longer name, implemented by
  itself, and sets it.
\<close>

definition first_free :: "(int \<rightharpoonup> lua_value) \<Rightarrow> int" where
  "first_free m = Max (insert 0 (dom m)) + 1"

lemma first_free: "finite (dom m) \<Longrightarrow> 0 < first_free m \<and> m (first_free m) = None"
proof -
  assume fin: "finite (dom m)"
  have le: "x \<le> Max (insert 0 (dom m))" if "x \<in> insert 0 (dom m)" for x
    using fin that by (intro Max_ge) auto
  have "first_free m \<notin> dom m"
    using le [of "first_free m"] by (auto simp: first_free_def)
  moreover have "0 < first_free m" using le [of 0] by (simp add: first_free_def)
  ultimately show ?thesis by auto
qed

definition spawn_spec :: lua_value where
  "spawn_spec = VTable [(''default'', VBool True), (''description'', VString ''d''),
     (''implementation'', VFunction 0)]"

definition spawn_code :: "nat \<Rightarrow> lua_value \<Rightarrow> lua_call" where
  "spawn_code i v =
     (case v of
        VString x \<Rightarrow>
          LuaDeclare (''a'', ''p'') (VString (CHR ''x'' # x)) spawn_spec
            (\<lambda>_. LuaSet (''a'', ''p'') (VString (CHR ''x'' # x)) (VString (CHR ''x'' # x)) (\<lambda>_. LuaReturn))
      | _ \<Rightarrow> LuaReturn)"

definition plain_env :: "(nat \<Rightarrow> lua_value \<Rightarrow> lua_call) \<Rightarrow> lua_env" where
  "plain_env code =
     \<lparr>env_manifests = [], env_lo = \<lparr>g_userOverrides = Map.empty, g_effective = Map.empty\<rparr>,
      env_zg = \<lparr>g_rejected = Map.empty, g_parseRejected = Map.empty\<rparr>, env_failed = [],
      env_prior = [], env_aliases = Map.empty, env_alloc = first_free, env_code = code\<rparr>"

definition empty_reg :: reg_state where
  "empty_reg = \<lparr>r_store = [], r_edges = [], r_completed = False, r_nextSeq = 0,
     r_refs = Map.empty, r_phase = EngineSubsystemsInit, r_catalogMode = False\<rparr>"

lemma alloc_ok_plain [simp]: "alloc_ok (plain_env code)"
  using first_free by (simp add: alloc_ok_def plain_env_def)

lemma reg_inv_empty [simp]: "reg_inv {} empty_reg"
  by (simp add: reg_inv_def empty_reg_def Lookup_def slots_def inj_map_def ran_def)

lemma SplitDots_dot_free: "dot_free s \<Longrightarrow> SplitDots s = [s]"
  by (induction s) (auto simp: dot_free_def)

lemma resolve_self:
  assumes "dot_free bare" "bare \<noteq> []" "a \<noteq> []" "p \<noteq> []" "env_aliases env = Map.empty"
    and "Lookup s (a @ ''.'' @ p @ ''.'' @ bare) = Some b"
  shows "ResolveForCaller env s (a, p) bare = Some b"
  using assms by (simp add: ResolveForCaller_def ResolveAlias_def SplitDots_dot_free resolve_bare_def)

abbreviation xname :: "nat \<Rightarrow> string" where
  "xname k \<equiv> ''a.p.'' @ replicate k CHR ''x''"

lemma xname_inj: "xname i = xname j \<longleftrightarrow> i = j"
  by (metis append_eq_append_conv length_replicate)

text \<open>The state after \<open>k\<close> passes, and after the k-th behavior has been marked and before its code
  runs.\<close>

definition spawned :: "nat \<Rightarrow> reg_state \<Rightarrow> behavior \<Rightarrow> bool" where
  "spawned k s b \<longleftrightarrow> omap (r_store s) \<and> declared s = xname ` {1..k} \<and> finite (dom (r_refs s))
     \<and> \<not> r_completed s \<and> \<not> r_catalogMode s \<and> r_phase s = EngineSubsystemsInit
     \<and> Lookup s (xname k) = Some b \<and> recordedRef b \<noteq> kNoRef
     \<and> lua_rawgeti s (recordedRef b) = VString (replicate k CHR ''x'')
     \<and> lua_rawgeti s (implementationRef b) = VFunction 0"

lemma spawn_declare:
  assumes x: "dot_free x" "x \<noteq> []"
    and s: "omap (r_store s)" "finite (dom (r_refs s))" "\<not> r_completed s" "\<not> r_catalogMode s"
    "Lookup s (''a.p.'' @ x) = None"
  obtains t b where "Lua_Declare (plain_env code) (''a'', ''p'') (VString x)
      spawn_spec s = (t, None)"
    "omap (r_store t)" "declared t = insert (''a.p.'' @ x) (declared s)" "finite (dom (r_refs t))"
    "r_completed t = r_completed s" "r_catalogMode t = r_catalogMode s" "r_phase t = r_phase s"
    "Lookup t (''a.p.'' @ x) = Some b" "recordedRef b = kNoRef" "\<not> b_applied b"
    "b_fullName b = ''a.p.'' @ x" "b_tier b = PluginTier"
    "implementationRef b \<in> dom (r_refs t)" "lua_rawgeti t (implementationRef b) = VFunction 0"
proof -
  let ?env = "plain_env code"
  obtain s1 dref where 1: "luaL_ref ?env (VBool True) s = (s1, dref)" by fastforce
  obtain s2 iref where 2: "luaL_ref ?env (VFunction 0) s1 = (s2, iref)" by fastforce
  have s12: "s2 = s\<lparr>r_refs := (r_refs s)(dref \<mapsto> VBool True, iref \<mapsto> VFunction 0)\<rparr>"
    using 1 2 by (auto simp: luaL_ref_def Let_def)
  let ?b = "(fresh_behavior (''a.p.'' @ x) x PluginTier ''a'' ''p'' ''d''
     dref iref kNoRef)"
  let ?t = "s2\<lparr>r_nextSeq := r_nextSeq s2 + 1, r_store := omap_insert (''a.p.'' @ x)
     (?b\<lparr>declareSeq := r_nextSeq s2 + 1\<rparr>) (r_store s2)\<rparr>"
  have chk: "check_declare s (''a'', ''p'') (VString x) spawn_spec
      = Inr (x, ''d'', [(''default'', VBool True),
          (''description'', VString ''d''), (''implementation'', VFunction 0)])"
    using x s(3,4) by (simp add: check_declare_def dot_free_def spawn_spec_def kSpecKeys_def lua_getfield_def)
  have "RegisterOne ?b s2 = Inr ?t"
    using s(5) by (simp add: RegisterOne_def s12 Lookup_def fresh_behavior_def)
  then have "Lua_Declare ?env (''a'', ''p'') (VString x) spawn_spec s = (?t, None)"
    using s(4) by (simp add: Lua_Declare_def chk lua_getfield_def 1 2 DeclarePlugin_def)
      (simp add: s12)
  moreover have look: "Lookup ?t = (Lookup s)(''a.p.'' @ x \<mapsto> ?b\<lparr>declareSeq := r_nextSeq s2 + 1\<rparr>)"
    by (simp add: Lookup_def fun_eq_iff s12)
  ultimately show ?thesis
    using s by (intro that [of ?t "?b\<lparr>declareSeq := r_nextSeq s2 + 1\<rparr>"])
      (simp_all add: s12 fresh_behavior_def lua_rawgeti_def)
qed

lemma spawn_set:
  assumes x: "dot_free x" "x \<noteq> []"
    and t: "omap (r_store t)" "finite (dom (r_refs t))" "\<not> r_completed t" "\<not> r_catalogMode t"
      "r_phase t = EngineSubsystemsInit" "Lookup t (''a.p.'' @ x) = Some b" "recordedRef b = kNoRef"
      "\<not> b_applied b" "b_fullName b = ''a.p.'' @ x" "implementationRef b \<in> dom (r_refs t)"
      "lua_rawgeti t (implementationRef b) = VFunction 0"
  obtains u c where "Lua_Set call (plain_env code) (''a'', ''p'') (VString x) (VString x) t = (u, None)"
    "omap (r_store u)" "declared u = declared t" "finite (dom (r_refs u))"
    "\<not> r_completed u" "\<not> r_catalogMode u" "r_phase u = EngineSubsystemsInit"
    "Lookup u (''a.p.'' @ x) = Some c" "recordedRef c \<noteq> kNoRef" "\<not> b_applied c"
    "lua_rawgeti u (recordedRef c) = VString x" "lua_rawgeti u (implementationRef c) = VFunction 0"
    "\<And>n. n \<noteq> ''a.p.'' @ x \<Longrightarrow> Lookup u n = Lookup t n"
proof -
  let ?env = "plain_env code"
  obtain t1 r where 1: "luaL_ref ?env (VString x) t = (t1, r)" by fastforce
  then have t1: "t1 = t\<lparr>r_refs := (r_refs t)(r \<mapsto> VString x)\<rparr>" and "r = first_free (r_refs t)"
    by (auto simp: luaL_ref_def Let_def plain_env_def)
  then have r: "0 < r" "r \<notin> dom (r_refs t)" using first_free [OF t(2)] by auto
  then have ne: "implementationRef b \<noteq> r" using t(10) by auto
  have res: "ResolveForCaller ?env t (''a'', ''p'') x = Some b"
    using resolve_self [of x "''a''" "''p''" ?env t b] x t(6) by (simp add: plain_env_def)
  have look1: "Lookup t1 = Lookup t" by (simp add: t1 Lookup_def fun_eq_iff)
  have rel: "release_recorded (''a.p.'' @ x) t1 = t1"
    using t(6,7) look1 by (simp add: release_recorded_def get_b_def)
  define f :: "behavior \<Rightarrow> behavior" where "f = (\<lambda>b. b\<lparr>recordedRef := r, setterAuthor := ''a'', setterPlugin := ''p'',
    valueGeneration := valueGeneration b + 1\<rparr>)"
  define u where "u = RecordEdge (''a'', ''p'') (''a.p.'' @ x) (upd_b (''a.p.'' @ x) f t1)"
  have set: "Lua_Set call ?env (''a'', ''p'') (VString x) (VString x) t = (u, None)"
    using t(3,5,8,9) rel by (simp add: Lua_Set_def res 1 RecordLoadSet_def u_def f_def)
  have look: "Lookup u n = (if n = ''a.p.'' @ x then Some (f b) else Lookup t n)" for n
    using t(6) by (simp add: u_def Lookup_upd_b look1)
  have dec: "declared u = declared t"
    using t(6) by (auto simp: look split: if_splits)
  have refs: "r_refs u = (r_refs t)(r \<mapsto> VString x)"
    by (simp add: u_def t1)
  have rest: "r_completed u = r_completed t" "r_catalogMode u = r_catalogMode t" "r_phase u = r_phase t"
    by (simp_all add: u_def t1 RecordEdge_def upd_b_def)
  show ?thesis
  proof (rule that [OF set])
    show "omap (r_store u)" using t(1) by (simp add: u_def t1)
    show "Lookup u (''a.p.'' @ x) = Some (f b)" by (simp add: look)
    show "lua_rawgeti u (implementationRef (f b)) = VFunction 0"
      using t(10,11) ne by (auto simp: f_def lua_rawgeti_def refs split: option.splits)
  qed (use t r dec rest in \<open>auto simp: f_def lua_rawgeti_def refs look kNoRef_def\<close>)
qed

definition spawning :: "nat \<Rightarrow> drain_state \<Rightarrow> bool" where
  "spawning k d \<longleftrightarrow> (\<exists>b. omap (r_store (d_reg d)) \<and> declared (d_reg d) = xname ` {1..k}
     \<and> finite (dom (r_refs (d_reg d))) \<and> \<not> r_completed (d_reg d) \<and> \<not> r_catalogMode (d_reg d)
     \<and> r_phase (d_reg d) = EngineSubsystemsInit \<and> 1 \<le> k \<and> set (d_invoked d) = xname ` {1..<k}
     \<and> Lookup (d_reg d) (xname k) = Some b \<and> recordedRef b \<noteq> kNoRef \<and> \<not> b_applied b
     \<and> lua_rawgeti (d_reg d) (recordedRef b) = VString (replicate k CHR ''x'')
     \<and> lua_rawgeti (d_reg d) (implementationRef b) = VFunction 0)"

lemma singleton_list: "set xs = {a} \<Longrightarrow> distinct xs \<Longrightarrow> xs = [a]"
  by (cases xs; cases "tl xs") auto

lemma spawning_pending: "spawning k d \<Longrightarrow> pending_pass d = [xname k]"
proof -
  assume sp: "spawning k d"
  then obtain b where om: "omap (r_store (d_reg d))" and dec: "declared (d_reg d) = xname ` {1..k}"
    and k: "1 \<le> k" and inv: "set (d_invoked d) = xname ` {1..<k}"
    and b: "Lookup (d_reg d) (xname k) = Some b" "recordedRef b \<noteq> kNoRef" "\<not> b_applied b"
    unfolding spawning_def by auto
  have "set (pending_pass d) \<subseteq> {xname k}"
  proof
    fix n
    assume n: "n \<in> set (pending_pass d)"
    then have "n \<in> xname ` {1..k}" "n \<notin> xname ` {1..<k}"
      using pending_passD(2) [OF om] pending_passD(3) [OF om n] dec inv by auto
    moreover have "{1..k} = insert k {1..<k}" using k by auto
    ultimately show "n \<in> {xname k}" by auto
  qed
  moreover have "xname k \<in> set (pending_pass d)"
  proof -
    have "(xname k, b) \<in> set (r_store (d_reg d))" using b(1) by (simp add: Lookup_def map_of_SomeD)
    moreover have "xname k \<notin> set (d_invoked d)" unfolding inv by (auto simp: xname_inj)
    ultimately show ?thesis using b(2,3) by (force simp: pending_pass_def)
  qed
  ultimately have "set (pending_pass d) = {xname k}" by auto
  then show ?thesis
    using pending_passD(1) [OF om] by (rule singleton_list)
qed

lemma spawn_pass:
  assumes sp: "spawning k d"
  shows "spawning (Suc k) (drain_one (lua_pcall (Suc depth) (plain_env spawn_code)) (xname k) d)"
proof -
  let ?call = "lua_pcall (Suc depth) (plain_env spawn_code)"
  let ?x = "CHR ''x'' # replicate k CHR ''x''"
  obtain b where sp': "omap (r_store (d_reg d))" "declared (d_reg d) = xname ` {1..k}"
      "finite (dom (r_refs (d_reg d)))" "\<not> r_completed (d_reg d)" "\<not> r_catalogMode (d_reg d)"
      "r_phase (d_reg d) = EngineSubsystemsInit" "1 \<le> k" "set (d_invoked d) = xname ` {1..<k}"
      "Lookup (d_reg d) (xname k) = Some b" "recordedRef b \<noteq> kNoRef" "\<not> b_applied b"
      "lua_rawgeti (d_reg d) (recordedRef b) = VString (replicate k CHR ''x'')"
      "lua_rawgeti (d_reg d) (implementationRef b) = VFunction 0"
    using sp unfolding spawning_def by blast
  define s1 where "s1 = upd_b (xname k) (\<lambda>b. b\<lparr>b_applied := True\<rparr>) (d_reg d)"
  have raw: "lua_rawgeti s1 r = lua_rawgeti (d_reg d) r" for r by (simp add: s1_def lua_rawgeti_def)
  have s1: "omap (r_store s1)" "finite (dom (r_refs s1))" "\<not> r_completed s1" "\<not> r_catalogMode s1"
    "r_phase s1 = EngineSubsystemsInit" "declared s1 = xname ` {1..k}"
    using sp' by (simp_all add: s1_def) (simp_all add: upd_b_def)
  have fresh: "xname (Suc k) \<notin> declared s1"
    unfolding s1(6)
  proof
    assume "xname (Suc k) \<in> xname ` {1..k}"
    then obtain i where i: "xname (Suc k) = xname i" "i \<in> {1..k}" by (rule imageE)
    from i(1) have "Suc k = i" by (rule iffD1 [OF xname_inj])
    with i(2) show False by simp
  qed
  have x: "dot_free ?x" "?x \<noteq> []" by (auto simp: dot_free_def)
  have none: "Lookup s1 (''a.p.'' @ ?x) = None" using fresh by (simp add: domIff)
  obtain t c where decl: "Lua_Declare (plain_env spawn_code) (''a'', ''p'') (VString ?x) spawn_spec s1 = (t, None)"
    and t: "omap (r_store t)" "declared t = insert (''a.p.'' @ ?x) (declared s1)" "finite (dom (r_refs t))"
      "r_completed t = r_completed s1" "r_catalogMode t = r_catalogMode s1" "r_phase t = r_phase s1"
      "Lookup t (''a.p.'' @ ?x) = Some c" "recordedRef c = kNoRef" "\<not> b_applied c"
      "b_fullName c = ''a.p.'' @ ?x" "implementationRef c \<in> dom (r_refs t)"
      "lua_rawgeti t (implementationRef c) = VFunction 0"
    by (rule spawn_declare [OF x s1(1-4) none]) blast
  obtain u e where set: "Lua_Set (lua_pcall depth (plain_env spawn_code)) (plain_env spawn_code) (''a'', ''p'')
      (VString ?x) (VString ?x) t = (u, None)"
    and u: "omap (r_store u)" "declared u = declared t" "finite (dom (r_refs u))"
      "\<not> r_completed u" "\<not> r_catalogMode u" "r_phase u = EngineSubsystemsInit"
      "Lookup u (''a.p.'' @ ?x) = Some e" "recordedRef e \<noteq> kNoRef" "\<not> b_applied e"
      "lua_rawgeti u (recordedRef e) = VString ?x" "lua_rawgeti u (implementationRef e) = VFunction 0"
    by (rule spawn_set [OF x t(1,3) _ _ _ t(7-12), of "lua_pcall depth (plain_env spawn_code)"])
      (use t s1 in \<open>simp, simp, simp, blast\<close>)
  have run: "PcallRef1 ?call (implementationRef b) (recordedRef b) s1 = (u, False)"
    using sp'(12,13) by (simp add: PcallRef1_def raw plain_env_def [of spawn_code, THEN arg_cong [of _ _ env_code]]
        spawn_code_def decl set)
  have one: "drain_one ?call (xname k) d = d\<lparr>d_reg := u, d_invoked := d_invoked d @ [xname k],
      d_applied := d_applied d + 1\<rparr>"
    using sp'(9-11) run [unfolded s1_def] by (simp add: drain_one_def get_b_Some Let_def)
  have dec: "declared u = xname ` {1..Suc k}"
  proof -
    have "{1..Suc k} = insert (Suc k) {1..k}" by auto
    then show ?thesis using u(2) t(2) s1(6) by simp
  qed
  have inv: "set (d_invoked d @ [xname k]) = xname ` {1..<Suc k}"
  proof -
    have "{1..<Suc k} = insert k {1..<k}" using sp'(7) by auto
    then show ?thesis using sp'(8) by (simp del: append.simps)
  qed
  show ?thesis
    unfolding spawning_def one
    by (rule exI [of _ e]) (use dec inv u sp'(7) in simp)
qed

lemma spawn_forever: "spawning k d \<Longrightarrow> drain fuel (lua_pcall (Suc depth) (plain_env spawn_code)) d = None"
proof (induction fuel arbitrary: k d)
  case (Suc fuel)
  then show ?case
    using spawning_pending [OF Suc.prems] Suc.IH [OF spawn_pass [OF Suc.prems]]
    by (simp del: lua_pcall.simps append.simps)
qed simp

section \<open>Properties\<close>

text \<open>Property C4.  The apply boundary returns: when no implementation declares a behavior, one pass
  more than there are declared behaviors is enough, whatever the implementations set, toggle,
  read or raise.\<close>

theorem boundary_terminates:
  assumes "declare_free env" "omap (r_store s)" "length (r_store s) < fuel"
  shows "RunApplyBoundary fuel (lua_pcall depth env) s \<noteq> None"
  using drain_terminates [OF assms(1), of "\<lparr>d_reg = s, d_invoked = [], d_applied = 0, d_raised = 0\<rparr>"
      fuel depth] assms(2,3)
  by (simp add: RunApplyBoundary_def split: option.splits)

text \<open>A registry with one behavior, declared and set through the calls.\<close>

definition one_set :: "(nat \<Rightarrow> lua_value \<Rightarrow> lua_call) \<Rightarrow> reg_state" where
  "one_set code =
     fst (Lua_Set (lua_pcall 3 (plain_env code)) (plain_env code) (''a'', ''p'') (VString ''x'') (VString ''x'')
       (fst (Lua_Declare (plain_env code) (''a'', ''p'') (VString ''x'') spawn_spec empty_reg)))"

lemma one_set_inv: "reg_inv {} (one_set code)"
  unfolding one_set_def
  by (intro keepsD [OF Lua_Set_keeps [OF keeping.frame_pcall]] keepsD [OF Lua_Declare_keeps]) simp_all

lemma one_set_spawning:
  "spawning 1 \<lparr>d_reg = one_set code, d_invoked = [], d_applied = 0, d_raised = 0\<rparr>"
proof -
  have x: "dot_free ''x''" "''x'' \<noteq> []" by (simp_all add: dot_free_def)
  have e: "omap (r_store empty_reg)" "finite (dom (r_refs empty_reg))" "\<not> r_completed empty_reg"
    "\<not> r_catalogMode empty_reg" "Lookup empty_reg (''a.p.'' @ ''x'') = None"
    "r_phase empty_reg = EngineSubsystemsInit" "declared empty_reg = {}"
    by (simp_all add: empty_reg_def Lookup_def declared_keys)
  obtain t c where decl: "Lua_Declare (plain_env code) (''a'', ''p'') (VString ''x'') spawn_spec empty_reg = (t, None)"
    and t: "omap (r_store t)" "declared t = insert (''a.p.'' @ ''x'') (declared empty_reg)"
      "finite (dom (r_refs t))"
      "r_completed t = r_completed empty_reg" "r_catalogMode t = r_catalogMode empty_reg"
      "r_phase t = r_phase empty_reg"
      "Lookup t (''a.p.'' @ ''x'') = Some c" "recordedRef c = kNoRef" "\<not> b_applied c"
      "b_fullName c = ''a.p.'' @ ''x''" "implementationRef c \<in> dom (r_refs t)"
      "lua_rawgeti t (implementationRef c) = VFunction 0"
    by (rule spawn_declare [OF x e(1-5)]) blast
  have t': "\<not> r_completed t" "\<not> r_catalogMode t" "r_phase t = EngineSubsystemsInit"
    using t(4-6) e by simp_all
  obtain u b where "Lua_Set (lua_pcall 3 (plain_env code)) (plain_env code) (''a'', ''p'')
      (VString ''x'') (VString ''x'') t = (u, None)"
    and u: "omap (r_store u)" "declared u = declared t" "finite (dom (r_refs u))"
      "\<not> r_completed u" "\<not> r_catalogMode u" "r_phase u = EngineSubsystemsInit"
      "Lookup u (''a.p.'' @ ''x'') = Some b" "recordedRef b \<noteq> kNoRef" "\<not> b_applied b"
      "lua_rawgeti u (recordedRef b) = VString ''x''" "lua_rawgeti u (implementationRef b) = VFunction 0"
    by (rule spawn_set [OF x t(1,3) t' t(7-12), of "lua_pcall 3 (plain_env code)"]) blast
  then have "one_set code = u" by (simp add: one_set_def decl)
  then show ?thesis
    unfolding spawning_def using u t(2) e(7) by (intro exI [of _ b]) simp
qed

lemma one_set_length: "length (r_store (one_set code)) = 1"
proof -
  have om: "omap (r_store (one_set code))" using reg_invD(1) [OF one_set_inv] .
  from one_set_spawning [of code, unfolded spawning_def drain_state.select_convs]
  have "declared (one_set code) = xname ` {1..1}" by blast
  then have "set (map fst (r_store (one_set code))) = {xname 1}" unfolding declared_keys by simp
  then have "map fst (r_store (one_set code)) = [xname 1]"
    using omap_distinct [OF om] by (rule singleton_list)
  then show ?thesis by (metis length_map length_Cons list.size(3) One_nat_def)
qed

theorem boundary_terminates_witness:
  "RunApplyBoundary 2 (lua_pcall 3 (plain_env (\<lambda>i v. LuaRaise))) (one_set (\<lambda>i v. LuaRaise)) \<noteq> None"
  by (rule boundary_terminates)
    (simp_all add: declare_free_def plain_env_def one_set_length reg_invD(1) [OF one_set_inv])

text \<open>Property C3.  What the boundary leaves behind, whatever the implementations do: each behavior
  was invoked at most once, the invocations are counted as applied or raised, a behavior has a
  recorded value iff it is applied, and no registry reference was leaked, freed while held or
  held twice.\<close>

theorem boundary_settles:
  assumes "alloc_ok env" "reg_inv F s"
    and run: "RunApplyBoundary fuel (lua_pcall depth env) s = Some (s', invoked, applied, raised)"
  shows "distinct invoked \<and> applied + raised = length invoked \<and> r_completed s' \<and> reg_inv F s'
    \<and> (\<forall>n b. Lookup s' n = Some b \<longrightarrow> (recordedRef b \<noteq> kNoRef \<longleftrightarrow> b_applied b))"
proof -
  let ?d0 = "\<lparr>d_reg = s, d_invoked = [], d_applied = 0, d_raised = 0\<rparr>"
  obtain d where d: "drain fuel (lua_pcall depth env) ?d0 = Some d"
    and eq: "s' = (fold drop_unapplied (map fst (r_store (d_reg d))) (d_reg d))\<lparr>r_completed := True\<rparr>"
      "invoked = d_invoked d" "applied = d_applied d" "raised = d_raised d"
    using run by (auto simp: RunApplyBoundary_def split: option.splits)
  have "drain_inv F ?d0" using assms(2) by (simp add: drain_inv_def)
  then have inv: "drain_inv F d" using drain_keeps_inv [OF assms(1) d] by simp
  then have counts: "distinct invoked" "applied + raised = length invoked" "r_completed s'"
    by (simp_all add: drain_inv_def eq)
  let ?f = "fold drop_unapplied (map fst (r_store (d_reg d))) (d_reg d)"
  have f: "reg_inv F ?f" and dec: "declared ?f = declared (d_reg d)"
    using fold_drop_inv [of F "d_reg d" "map fst (r_store (d_reg d))"] inv
    by (simp_all add: drain_inv_def declared_keys del: set_map)
  have same: "Lookup s' = Lookup ?f" by (simp add: eq Lookup_def fun_eq_iff)
  have inv': "reg_inv F s'" using f reg_inv_cong [of s' ?f F] by (simp add: eq)
  have "recordedRef b \<noteq> kNoRef \<longleftrightarrow> b_applied b" if b: "Lookup s' n = Some b" for n b
  proof -
    have "n \<in> set (map fst (r_store (d_reg d)))"
      using b dec unfolding same by (metis declared_keys domI)
    then have "settled ?f n" by (intro fold_drop_settled) simp
    then show ?thesis
      using b reg_invD(2) [OF inv' b] unfolding same settled_def by blast
  qed
  then show ?thesis using counts inv' by blast
qed

theorem boundary_settles_witness:
  "\<exists>s' inv a r. RunApplyBoundary 2 (lua_pcall 3 (plain_env (\<lambda>i v. LuaRaise))) (one_set (\<lambda>i v. LuaRaise))
      = Some (s', inv, a, r) \<and> a + r = length inv \<and> reg_inv {} s'"
proof -
  have "RunApplyBoundary 2 (lua_pcall 3 (plain_env (\<lambda>i v. LuaRaise))) (one_set (\<lambda>i v. LuaRaise)) \<noteq> None"
    using drain_terminates [of "plain_env (\<lambda>i v. LuaRaise)"
        "\<lparr>d_reg = one_set (\<lambda>i v. LuaRaise), d_invoked = [], d_applied = 0, d_raised = 0\<rparr>" 2 3]
      reg_invD(1) [OF one_set_inv, of "\<lambda>i v. LuaRaise"]
    by (auto simp: RunApplyBoundary_def one_set_length declare_free_def plain_env_def split: option.splits)
  then obtain s' inv a r where run: "RunApplyBoundary 2 (lua_pcall 3 (plain_env (\<lambda>i v. LuaRaise)))
      (one_set (\<lambda>i v. LuaRaise)) = Some (s', inv, a, r)" by auto
  show ?thesis
    using boundary_settles [OF alloc_ok_plain one_set_inv run] run by blast
qed

text \<open>Property C18.  Without that restriction the boundary may never return: the declare window is
  still open while the boundary drains, so an implementation that declares a further behavior
  with itself as the implementation and sets it keeps the drain busy for ever, for every number
  of passes.\<close>

theorem declare_in_drain_diverges:
  "RunApplyBoundary fuel (lua_pcall (Suc depth) (plain_env spawn_code)) (one_set spawn_code) = None"
  using spawn_forever [OF one_set_spawning]
  by (simp add: RunApplyBoundary_def del: lua_pcall.simps)



end
