(* ===== verification/Kcdx_Graph.thy ===== *)
theory Kcdx_Graph
  imports Kcdx_Prelude
begin

text \<open>
  What the two topological sorts of the sources share (load_order.cpp's auto-order and
  plugin_loader.cpp's TopoSort): edges as pairs (before, after), the in-degree of a node and how
  emitting a node lowers it, and the relation "comes before in a list".
\<close>

definition successors_of :: "('a \<times> 'a) list \<Rightarrow> 'a \<Rightarrow> 'a list" where
  "successors_of cs d = map snd (filter (\<lambda>dc. fst dc = d) cs)"

definition initial_inDegree :: "('a \<times> 'a) list \<Rightarrow> 'a \<Rightarrow> int" where
  "initial_inDegree cs c = int (length (filter (\<lambda>dc. snd dc = c) cs))"

definition release_successors :: "'a list \<Rightarrow> ('a \<Rightarrow> int) \<Rightarrow> ('a \<Rightarrow> int)" where
  "release_successors ss deg = fold (\<lambda>s deg. deg(s := deg s - 1)) ss deg"

text \<open>\<open>d\<close> comes before \<open>c\<close> in the list.\<close>

definition comes_before :: "'a list \<Rightarrow> 'a \<Rightarrow> 'a \<Rightarrow> bool" where
  "comes_before xs d c \<longleftrightarrow> (\<exists>ys zs. xs = ys @ c # zs \<and> d \<in> set ys)"

lemma comes_before_append: "comes_before xs d c \<Longrightarrow> comes_before (xs @ ys) d c"
  unfolding comes_before_def by (metis append_Cons append_assoc)

lemma comes_before_last: "d \<in> set xs \<Longrightarrow> comes_before (xs @ [c]) d c"
  unfolding comes_before_def by blast

lemma comes_before_mem: "comes_before xs d c \<Longrightarrow> d \<in> set xs \<and> c \<in> set xs"
  by (auto simp: comes_before_def)

lemma release_successors_eq: "release_successors ss deg n = deg n - int (count_list ss n)"
  by (induction ss arbitrary: deg) (simp_all add: release_successors_def)

text \<open>The in-degree is the number of constraints whose declarer is not emitted.\<close>

definition open_degree :: "('a \<times> 'a) list \<Rightarrow> 'a list \<Rightarrow> 'a \<Rightarrow> int" where
  "open_degree cs emitted n = int (length (filter (\<lambda>dc. snd dc = n \<and> fst dc \<notin> set emitted) cs))"

lemma open_degree_initial: "initial_inDegree cs = open_degree cs []"
  by (simp add: initial_inDegree_def open_degree_def fun_eq_iff)

lemma open_degree_step:
  assumes "x \<notin> set emitted"
  shows "release_successors (successors_of cs x) (open_degree cs emitted) = open_degree cs (emitted @ [x])"
proof
  fix n
  have "int (length (filter (\<lambda>dc. snd dc = n \<and> fst dc \<notin> set emitted) cs))
      = int (length (filter (\<lambda>dc. snd dc = n \<and> fst dc \<notin> set (emitted @ [x])) cs))
        + int (count_list (map snd (filter (\<lambda>dc. fst dc = x) cs)) n)"
    using assms by (induction cs) auto
  then show "release_successors (successors_of cs x) (open_degree cs emitted) n
      = open_degree cs (emitted @ [x]) n"
    by (simp add: release_successors_eq successors_of_def open_degree_def)
qed

lemma open_degree_0_iff:
  "open_degree cs emitted n = 0 \<longleftrightarrow> (\<forall>d. (d, n) \<in> set cs \<longrightarrow> d \<in> set emitted)"
  by (auto simp: open_degree_def filter_empty_conv)

lemma split_at_unique: "c \<notin> set a \<Longrightarrow> c \<notin> set b \<Longrightarrow> a @ c # x = b @ c # y \<Longrightarrow> a = b \<and> x = y"
proof (induction a arbitrary: b)
  case Nil
  then show ?case by (cases b) auto
next
  case (Cons h t)
  then show ?case by (cases b) auto
qed

lemma distinct_split_unique:
  assumes "distinct (ys @ x # zs)" "ys @ x # zs = us @ x # vs"
  shows "us = ys"
proof -
  have "distinct (us @ x # vs)" using assms by simp
  then have "x \<notin> set us" "x \<notin> set ys" using assms(1) by auto
  then show ?thesis using split_at_unique [of x us ys vs zs] assms(2) by simp
qed

lemma sorted_wrt_comes_before:
  assumes "sorted_wrt R xs" "comes_before xs d c"
  shows "R d c"
  using assms by (auto simp: comes_before_def sorted_wrt_append)

end
