(* ===== verification/Auto_Order.thy ===== *)
theory Auto_Order
  imports Behavior_Edges Kcdx_Graph
begin

text \<open>
  src/load_order.cpp, the auto-order method: the constraints the recorded edges impose, the
  stable topological sort of the current order, the priority rows that express the result, the
  text upsert into load_order.toml and the file-touching wrappers.  The unordered maps are
  functions; \<open>operator[]\<close> on the in-degree map default-inserts 0.
\<close>

datatype AutoOrderVerdict = NoChange | Reordered | Cycle

record auto_order_move =
  mv_pluginName :: string
  mv_newPriority :: int
  mv_oldPriority :: int

record auto_order_result =
  ao_verdict :: AutoOrderVerdict
  ao_correctedOrder :: "string list"
  ao_moved :: "auto_order_move list"
  ao_cycleMembers :: "string list"

section \<open>Constraints\<close>

text \<open>A constraint is (declarer, consumer): the declarer must come first.\<close>

definition edge_constraint ::
    "(string \<Rightarrow> string \<Rightarrow> bool) \<Rightarrow> string list \<Rightarrow> behavior_edge \<Rightarrow> (string \<times> string) option" where
  "edge_constraint known order e =
     (case DeclarerFromBehaviorName (behaviorFullName e) of
        None \<Rightarrow> None
      | Some (declAuthor, declPlugin) \<Rightarrow>
          if \<not> known (consumerAuthor e) (consumerPlugin e) then None
          else if \<not> known declAuthor declPlugin then None
          else if consumerPlugin e = declPlugin then None
          else if consumerPlugin e \<notin> set order \<or> declPlugin \<notin> set order then None
          else Some (declPlugin, consumerPlugin e))"

definition constraint_key :: "string \<times> string \<Rightarrow> string" where
  "constraint_key dc = fst dc @ [CHR 0x1F] @ snd dc"

text \<open>The loop over the edges: the constraints in order of first appearance, repeats dropped.\<close>

fun collect_constraints :: "(string \<Rightarrow> string \<Rightarrow> bool) \<Rightarrow> string list \<Rightarrow> behavior_edge list
    \<Rightarrow> string list \<Rightarrow> (string \<times> string) list" where
  "collect_constraints known order [] seen = []"
| "collect_constraints known order (e # es) seen =
     (case edge_constraint known order e of
        None \<Rightarrow> collect_constraints known order es seen
      | Some dc \<Rightarrow>
          if constraint_key dc \<in> set seen then collect_constraints known order es seen
          else dc # collect_constraints known order es (constraint_key dc # seen))"

section \<open>The stable sort\<close>

text \<open>
  The while loop; its first argument counts the nodes still to emit.  \<open>Inl\<close> is the cycle report.
\<close>

fun kahn :: "nat \<Rightarrow> (string \<times> string) list \<Rightarrow> string list \<Rightarrow> (string \<Rightarrow> int) \<Rightarrow> string list
    \<Rightarrow> string list + string list" where
  "kahn 0 cs order deg corrected = Inr corrected"
| "kahn (Suc k) cs order deg corrected =
     (case find (\<lambda>n. n \<notin> set corrected \<and> deg n = 0) order of
        None \<Rightarrow> Inl (filter (\<lambda>n. n \<notin> set corrected) order)
      | Some chosen \<Rightarrow>
          kahn k cs order (release_successors (successors_of cs chosen) deg) (corrected @ [chosen]))"

section \<open>Priority rows\<close>

definition assigned_priority :: "(int \<times> string) option \<Rightarrow> string \<Rightarrow> int \<Rightarrow> int" where
  "assigned_priority prev n cur =
     (case prev of
        None \<Rightarrow> cur
      | Some (flr, prevName) \<Rightarrow>
          if cur > flr then cur
          else if cur = flr \<and> prevName < n then cur
          else if flr < 100 then flr + 1 else 100)"

text \<open>The walk over the corrected order: each name with its assigned priority.\<close>

fun assign_walk :: "(string \<Rightarrow> int) \<Rightarrow> (int \<times> string) option \<Rightarrow> string list \<Rightarrow> (string \<times> int) list" where
  "assign_walk prio prev [] = []"
| "assign_walk prio prev (n # ns) =
     (let a = assigned_priority prev n (prio n) in (n, a) # assign_walk prio (Some (a, n)) ns)"

definition moves_of :: "(string \<Rightarrow> int) \<Rightarrow> (string \<times> int) list \<Rightarrow> auto_order_move list" where
  "moves_of prio as =
     map (\<lambda>(n, a). \<lparr>mv_pluginName = n, mv_newPriority = a, mv_oldPriority = prio n\<rparr>)
       (filter (\<lambda>(n, a). a \<noteq> prio n) as)"

definition ComputeAutoOrder :: "behavior_edge list \<Rightarrow> string list \<Rightarrow> (string \<Rightarrow> string \<Rightarrow> bool)
    \<Rightarrow> (string \<Rightarrow> int) \<Rightarrow> auto_order_result" where
  "ComputeAutoOrder edges order known prio =
     (let cs = collect_constraints known order edges []
      in case kahn (length order) cs order (initial_inDegree cs) [] of
           Inl members \<Rightarrow> \<lparr>ao_verdict = Cycle, ao_correctedOrder = [], ao_moved = [],
                           ao_cycleMembers = members\<rparr>
         | Inr corrected \<Rightarrow>
             if corrected = order
             then \<lparr>ao_verdict = NoChange, ao_correctedOrder = [], ao_moved = [], ao_cycleMembers = []\<rparr>
             else (let moved = moves_of prio (assign_walk prio None corrected)
                   in \<lparr>ao_verdict = (if moved = [] then NoChange else Reordered),
                       ao_correctedOrder = corrected, ao_moved = moved, ao_cycleMembers = []\<rparr>))"

section \<open>The upsert into load_order.toml\<close>

definition ws3 :: "char \<Rightarrow> bool" where
  "ws3 c \<longleftrightarrow> c = CHR '' '' \<or> c = CHR 0x09 \<or> c = CHR 0x0D"

definition trim3 :: "string \<Rightarrow> string" where
  "trim3 s = trim_by ws3 s"

text \<open>The quoted value of a \<open>name = "..."\<close> line; the empty string for any other line.\<close>

definition nameOfLine :: "string \<Rightarrow> string" where
  "nameOfLine raw =
     (let t = trim3 raw
      in if t = [] \<or> hd t = CHR ''#'' then []
         else if \<not> starts_with ''name'' t then []
         else (case str_find t ''='' 4 of
                 None \<Rightarrow> []
               | Some eq \<Rightarrow>
                   if trim3 (take (eq - 4) (drop 4 t)) \<noteq> [] then []
                   else (case str_find t [CHR 0x22] (eq + 1) of
                           None \<Rightarrow> []
                         | Some q1 \<Rightarrow>
                             (case str_find t [CHR 0x22] (q1 + 1) of
                                None \<Rightarrow> []
                              | Some q2 \<Rightarrow> take (q2 - q1 - 1) (drop (q1 + 1) t)))))"

definition isTableHeader :: "string \<Rightarrow> bool" where
  "isTableHeader raw = (let t = trim3 raw in t \<noteq> [] \<and> hd t = CHR ''['')"

definition isPriorityLine :: "string \<Rightarrow> bool" where
  "isPriorityLine raw =
     (let t = trim3 raw
      in if t = [] \<or> hd t = CHR ''#'' then False
         else if \<not> starts_with ''priority'' t then False
         else (case str_find t ''='' 8 of
                 None \<Rightarrow> False
               | Some eq \<Rightarrow> trim3 (take (eq - 8) (drop 8 t)) = []))"

definition priority_line :: "int \<Rightarrow> string" where
  "priority_line p = ''priority  = '' @ to_string p @ ''   # set by kcdx auto-order''"

text \<open>The rows's body: existing priority lines rewritten, or one inserted before the trailing blanks.\<close>

definition upsert_body :: "int \<Rightarrow> string list \<Rightarrow> string list" where
  "upsert_body p body =
     (if list_ex isPriorityLine body
      then map (\<lambda>l. if isPriorityLine l then priority_line p else l) body
      else (let blank = (\<lambda>l. trim3 l = []);
                tailing = rev (takeWhile blank (rev body))
            in rev (dropWhile blank (rev body)) @ [priority_line p] @ tailing))"

text \<open>The line loop; the map holds the moves not yet written.\<close>

function upsert_lines :: "string list \<Rightarrow> (string \<rightharpoonup> int) \<Rightarrow> string list \<times> (string \<rightharpoonup> int)" where
  "upsert_lines [] want = ([], want)"
| "upsert_lines (l # ls) want =
     (case (if nameOfLine l = [] then None else want (nameOfLine l)) of
        None \<Rightarrow> (let (out, w) = upsert_lines ls want in (l # out, w))
      | Some p \<Rightarrow>
          (let body = takeWhile (\<lambda>x. \<not> isTableHeader x) ls;
               (out, w) = upsert_lines (dropWhile (\<lambda>x. \<not> isTableHeader x) ls) (want(nameOfLine l := None))
           in (l # upsert_body p body @ out, w)))"
  by pat_completeness auto
termination
  by (relation "measure (\<lambda>(ls, want). length ls)") (auto simp: le_imp_less_Suc length_dropWhile_le)

definition fresh_row :: "string \<Rightarrow> int \<Rightarrow> string" where
  "fresh_row n p = [nl] @ ''[[plugin]]'' @ [nl] @ ''name      = '' @ [CHR 0x22] @ n @ [CHR 0x22] @ [nl]
     @ priority_line p @ [nl]"

fun append_rows :: "auto_order_move list \<Rightarrow> (string \<rightharpoonup> int) \<Rightarrow> string" where
  "append_rows [] want = []"
| "append_rows (mv # mvs) want =
     (if want (mv_pluginName mv) = None then append_rows mvs want
      else fresh_row (mv_pluginName mv) (mv_newPriority mv)
             @ append_rows mvs (want(mv_pluginName mv := None)))"

definition want_of :: "auto_order_move list \<Rightarrow> (string \<rightharpoonup> int)" where
  "want_of moves = fold (\<lambda>mv m. m(mv_pluginName mv \<mapsto> mv_newPriority mv)) moves Map.empty"

definition unlines :: "string list \<Rightarrow> string" where
  "unlines ls = concat (map (\<lambda>l. l @ [nl]) ls)"

definition SerializeAutoOrderUpsert :: "string \<Rightarrow> auto_order_move list \<Rightarrow> string" where
  "SerializeAutoOrderUpsert existing moves =
     (let (out, want) = upsert_lines (getlines existing) (want_of moves)
      in unlines out @ append_rows moves want)"

text \<open>The result is (file, success).\<close>

definition UpsertPriorityRows ::
    "disk_file \<Rightarrow> write_outcome \<Rightarrow> auto_order_move list \<Rightarrow> disk_file \<times> bool" where
  "UpsertPriorityRows f w moves =
     (if moves = [] then (f, True)
      else (let (ok, existed, existing) = ReadEdgeFileText f
            in if \<not> ok then (f, False)
               else (let merged = SerializeAutoOrderUpsert existing moves
                     in if merged = existing then (f, True) else disk_write w merged f)))"

definition current_order :: "lo_state \<Rightarrow> plugin_manifest list \<Rightarrow> string list" where
  "current_order s manifests =
     sort_key (SortKey s) (map pm_name (filter (\<lambda>m. pm_name m \<noteq> []) manifests))"

text \<open>The outer step over the edge store, the resolved state and load_order.toml.\<close>

definition ApplyAutoOrder :: "toml_parser \<Rightarrow> disk_file \<Rightarrow> lo_state \<Rightarrow> plugin_manifest list
    \<Rightarrow> disk_file \<Rightarrow> write_outcome \<Rightarrow> auto_order_result \<times> disk_file" where
  "ApplyAutoOrder toml_parse edgeFile s manifests orderFile w =
     (let none = \<lparr>ao_verdict = NoChange, ao_correctedOrder = [], ao_moved = [], ao_cycleMembers = []\<rparr>;
          (ok, existed, txt) = ReadEdgeFileText edgeFile
      in if \<not> ok then (none, orderFile)
         else if \<not> existed then (none, orderFile)
         else (let result = ComputeAutoOrder (snd (ParseBehaviorEdgesToml toml_parse txt))
                     (current_order s manifests) (isKnownPlugin manifests)
                     (\<lambda>n. eff_priority (Of s n))
               in case ao_verdict result of
                    Cycle \<Rightarrow> (result, orderFile)
                  | NoChange \<Rightarrow> (result, orderFile)
                  | Reordered \<Rightarrow> (result, fst (UpsertPriorityRows orderFile w (ao_moved result)))))"

section \<open>The sort: lemmas\<close>

definition satisfies :: "string list \<Rightarrow> (string \<times> string) list \<Rightarrow> bool" where
  "satisfies xs cs \<longleftrightarrow> (\<forall>(d, c) \<in> set cs. comes_before xs d c)"

text \<open>What the loop has emitted: distinct nodes of the order, each after all its declarers.\<close>

definition kahn_inv :: "(string \<times> string) list \<Rightarrow> string list \<Rightarrow> string list \<Rightarrow> bool" where
  "kahn_inv cs order corrected \<longleftrightarrow> distinct corrected \<and> set corrected \<subseteq> set order
     \<and> (\<forall>d c. (d, c) \<in> set cs \<longrightarrow> c \<in> set corrected \<longrightarrow> comes_before corrected d c)"

lemma kahn_step_inv:
  assumes "kahn_inv cs order corrected" "x \<in> set order" "x \<notin> set corrected"
    "open_degree cs corrected x = 0"
  shows "kahn_inv cs order (corrected @ [x])"
  using assms
  by (auto simp: kahn_inv_def open_degree_0_iff intro: comes_before_append comes_before_last)

lemma kahn_Inr:
  "kahn k cs order (open_degree cs corrected) corrected = Inr result \<Longrightarrow>
    kahn_inv cs order corrected \<Longrightarrow>
    kahn_inv cs order result \<and> length result = length corrected + k \<and> (\<exists>ys. result = corrected @ ys)"
proof (induction k arbitrary: corrected)
  case (Suc k)
  then obtain x where x: "find (\<lambda>n. n \<notin> set corrected \<and> open_degree cs corrected n = 0) order = Some x"
    by (auto split: option.splits)
  then have "x \<in> set order" "x \<notin> set corrected" "open_degree cs corrected x = 0"
    by (auto simp: find_Some_iff)
  then show ?case
    using Suc.IH [of "corrected @ [x]"] Suc.prems x kahn_step_inv [of cs order corrected x]
    by (simp add: open_degree_step) force
qed auto

lemma kahn_Inl:
  "kahn k cs order (open_degree cs corrected) corrected = Inl members \<Longrightarrow>
    \<exists>emitted. members = filter (\<lambda>n. n \<notin> set emitted) order \<and> length emitted < length corrected + k
      \<and> (\<forall>c \<in> set members. \<exists>d. (d, c) \<in> set cs \<and> d \<notin> set emitted)"
proof (induction k arbitrary: corrected)
  case (Suc k)
  show ?case
  proof (cases "find (\<lambda>n. n \<notin> set corrected \<and> open_degree cs corrected n = 0) order")
    case None
    then have "\<forall>n \<in> set order. n \<notin> set corrected \<longrightarrow> (\<exists>d. (d, n) \<in> set cs \<and> d \<notin> set corrected)"
      by (auto simp: find_None_iff open_degree_0_iff)
    then show ?thesis using Suc.prems None by (intro exI [of _ corrected]) auto
  next
    case (Some x)
    then have "x \<notin> set corrected" by (auto simp: find_Some_iff)
    then show ?thesis
      using Suc.IH [of "corrected @ [x]"] Suc.prems Some by (simp add: open_degree_step)
  qed
qed simp

text \<open>If the order satisfies the constraints the sort returns it unchanged.\<close>

lemma kahn_satisfied:
  "kahn (length ys) cs (xs @ ys) (open_degree cs xs) xs = Inr (xs @ ys)"
  if "distinct (xs @ ys)" "satisfies (xs @ ys) cs" for xs ys
  using that
proof (induction ys arbitrary: xs)
  case (Cons y ys)
  have pick: "find (\<lambda>n. n \<notin> set xs \<and> open_degree cs xs n = 0) (xs @ y # ys) = Some y"
  proof -
    have "d \<in> set xs" if "(d, y) \<in> set cs" for d
    proof -
      have "comes_before (xs @ y # ys) d y"
        using Cons.prems(2) that by (auto simp: satisfies_def)
      then obtain us vs where uv: "xs @ y # ys = us @ y # vs" "d \<in> set us"
        unfolding comes_before_def by blast
      have "us = xs" using distinct_split_unique [OF Cons.prems(1) uv(1)] .
      then show ?thesis using uv(2) by simp
    qed
    then have "open_degree cs xs y = 0" "y \<notin> set xs"
      using Cons.prems(1) by (auto simp: open_degree_0_iff)
    moreover have "find P (us @ v # vs) = Some v" if "\<forall>u \<in> set us. \<not> P u" "P v" for P us vs and v :: string
      using that by (induction us) auto
    ultimately show ?thesis by simp
  qed
  have "y \<notin> set xs" using Cons.prems(1) by simp
  then show ?case
    using Cons.IH [of "xs @ [y]"] Cons.prems pick by (simp add: open_degree_step)
qed simp

section \<open>Constraints: lemmas\<close>

text \<open>The specification: what the edges demand of the plugins in the order.\<close>

definition demanded :: "(string \<Rightarrow> string \<Rightarrow> bool) \<Rightarrow> string list \<Rightarrow> behavior_edge list
    \<Rightarrow> (string \<times> string) set" where
  "demanded known order es = {dc. \<exists>e \<in> set es. edge_constraint known order e = Some dc}"

definition unit_free :: "string list \<Rightarrow> bool" where
  "unit_free order \<longleftrightarrow> (\<forall>n \<in> set order. CHR 0x1F \<notin> set n)"

lemma constraint_key_inj:
  "CHR 0x1F \<notin> set (fst a) \<Longrightarrow> CHR 0x1F \<notin> set (fst b) \<Longrightarrow> constraint_key a = constraint_key b \<Longrightarrow> a = b"
  using split_at_unique [of "CHR 0x1F" "fst a" "fst b" "snd a" "snd b"]
  by (simp add: constraint_key_def prod_eq_iff)

lemma edge_constraint_mem:
  "edge_constraint known order e = Some (d, c) \<Longrightarrow> d \<in> set order \<and> c \<in> set order \<and> d \<noteq> c"
  by (auto simp: edge_constraint_def split: option.splits if_splits)

lemma set_collect:
  assumes "unit_free order"
  shows "(\<forall>k \<in> set seen. \<exists>dc \<in> S. k = constraint_key dc \<and> fst dc \<in> set order) \<Longrightarrow>
    S \<union> set (collect_constraints known order es seen) = S \<union> demanded known order es"
proof (induction es arbitrary: seen S)
  case (Cons e es)
  show ?case
  proof (cases "edge_constraint known order e")
    case None
    then show ?thesis using Cons.IH [OF Cons.prems] by (simp add: demanded_def)
  next
    case (Some dc)
    have mem: "fst dc \<in> set order" using edge_constraint_mem [of known order e "fst dc" "snd dc"] Some by simp
    have dem: "demanded known order (e # es) = insert dc (demanded known order es)"
      using Some by (auto simp: demanded_def)
    show ?thesis
    proof (cases "constraint_key dc \<in> set seen")
      case True
      then obtain dc' where "dc' \<in> S" "constraint_key dc = constraint_key dc'" "fst dc' \<in> set order"
        using Cons.prems by blast
      then have "dc \<in> S" using constraint_key_inj assms mem by (metis unit_free_def)
      then show ?thesis using Cons.IH [OF Cons.prems] Some True dem by auto
    next
      case False
      have "insert dc S \<union> set (collect_constraints known order es (constraint_key dc # seen))
          = insert dc S \<union> demanded known order es"
        using Cons.prems mem by (intro Cons.IH) auto
      then show ?thesis using Some False dem by auto
    qed
  qed
qed (simp add: demanded_def)

lemma set_collect_constraints:
  "unit_free order \<Longrightarrow> set (collect_constraints known order es []) = demanded known order es"
  using set_collect [of order "[]" "{}"] by simp

lemma demanded_mem: "(d, c) \<in> demanded known order es \<Longrightarrow> d \<in> set order \<and> c \<in> set order \<and> d \<noteq> c"
  by (auto simp: demanded_def dest: edge_constraint_mem)

section \<open>The sort decides satisfiability\<close>

definition valid_order :: "string list \<Rightarrow> (string \<times> string) set \<Rightarrow> string list \<Rightarrow> bool" where
  "valid_order order dem xs \<longleftrightarrow> distinct xs \<and> set xs = set order
     \<and> (\<forall>(d, c) \<in> dem. comes_before xs d c)"

lemma kahn_sound:
  assumes cs: "\<forall>(d, c) \<in> set cs. d \<in> set order \<and> c \<in> set order" and "distinct order"
    and run: "kahn (length order) cs order (initial_inDegree cs) [] = Inr xs"
  shows "valid_order order (set cs) xs"
proof -
  have "kahn_inv cs order []" by (simp add: kahn_inv_def)
  then have inv: "kahn_inv cs order xs" and len: "length xs = length order"
    using kahn_Inr run by (fastforce simp: open_degree_initial)+
  have "set xs = set order"
    using inv len assms(2) by (intro card_subset_eq) (auto simp: kahn_inv_def distinct_card)
  then show ?thesis using inv cs by (auto simp: kahn_inv_def valid_order_def)
qed

text \<open>In a valid order the first of the cycle members has all its declarers emitted.\<close>

lemma kahn_cycle:
  assumes cs: "\<forall>(d, c) \<in> set cs. d \<in> set order \<and> c \<in> set order" and dist: "distinct order"
    and run: "kahn (length order) cs order (initial_inDegree cs) [] = Inl members"
  shows "members \<noteq> []" "\<And>c. c \<in> set members \<Longrightarrow> \<exists>d \<in> set members. (d, c) \<in> set cs"
    "\<not> valid_order order (set cs) xs"
proof -
  obtain emitted where m: "members = filter (\<lambda>n. n \<notin> set emitted) order"
    and len: "length emitted < length order"
    and open': "\<forall>c \<in> set members. \<exists>d. (d, c) \<in> set cs \<and> d \<notin> set emitted"
    using kahn_Inl [of "length order" cs order "[]" members] run by (auto simp: open_degree_initial)
  have "\<not> set order \<subseteq> set emitted"
  proof
    assume "set order \<subseteq> set emitted"
    then have "card (set order) \<le> card (set emitted)" by (intro card_mono) auto
    then show False using dist len card_length [of emitted] by (simp add: distinct_card)
  qed
  then show ne: "members \<noteq> []" by (auto simp: m filter_empty_conv)
  show pred: "\<exists>d \<in> set members. (d, c) \<in> set cs" if "c \<in> set members" for c
    using open' that cs by (fastforce simp: m)
  show "\<not> valid_order order (set cs) xs"
  proof
    assume v: "valid_order order (set cs) xs"
    then have "\<exists>x \<in> set xs. x \<in> set members"
      using ne by (auto simp: valid_order_def m filter_empty_conv)
    then obtain ys x zs where x: "xs = ys @ x # zs" "x \<in> set members" "\<forall>y \<in> set ys. y \<notin> set members"
      using split_list_first_prop [of xs "\<lambda>x. x \<in> set members"] by blast
    obtain d where d: "d \<in> set members" "(d, x) \<in> set cs" using pred [OF x(2)] by blast
    then have "comes_before xs d x" using v by (auto simp: valid_order_def)
    then obtain us vs where "xs = us @ x # vs" "d \<in> set us" by (auto simp: comes_before_def)
    moreover have "us = ys"
      using distinct_split_unique [of ys x zs us vs] calculation(1) x(1) v by (simp add: valid_order_def)
    ultimately show False using x(3) d(1) by simp
  qed
qed

section \<open>Priority rows: lemmas\<close>

lemma assign_walk_names [simp]: "map fst (assign_walk prio prev ns) = ns"
  by (induction ns arbitrary: prev) (simp_all add: Let_def)

text \<open>As long as the walk stays below 100 the assigned rows are strictly ascending.\<close>

lemma assigned_after:
  assumes "prev = Some (f, p)" "f < 100"
  shows "(f, p) < (assigned_priority prev n cur, n)"
  using assms by (auto simp: assigned_priority_def less_prod_def')

lemma assigned_le:
  "prev = Some (f, p) \<Longrightarrow> assigned_priority prev n cur \<le> max cur (f + 1)"
  by (auto simp: assigned_priority_def)

lemma assign_walk_sorted:
  "\<forall>n \<in> set ns. prio n + int (length ns) \<le> B + 1 \<Longrightarrow> B \<le> 100 \<Longrightarrow>
    (\<forall>f p. prev = Some (f, p) \<longrightarrow> f + int (length ns) \<le> B) \<Longrightarrow>
    sorted_wrt (<) (map (\<lambda>x. (snd x, fst x)) (assign_walk prio prev ns))
    \<and> (\<forall>f p. prev = Some (f, p) \<longrightarrow> (\<forall>x \<in> set (assign_walk prio prev ns). (f, p) < (snd x, fst x)))"
proof (induction ns arbitrary: prev)
  case (Cons n ns)
  let ?a = "assigned_priority prev n (prio n)"
  have le: "?a + int (length ns) \<le> B"
  proof (cases prev)
    case None
    then show ?thesis using Cons.prems(1) by (simp add: assigned_priority_def)
  next
    case (Some fp)
    obtain f p where "fp = (f, p)" by (cases fp)
    then have prev: "prev = Some (f, p)" using Some by simp
    then have "f + (1 + int (length ns)) \<le> B" "prio n + int (length ns) \<le> B"
      using Cons.prems(1,3) by auto
    then show ?thesis using assigned_le [OF prev, of n "prio n"] by linarith
  qed
  have IH: "sorted_wrt (<) (map (\<lambda>x. (snd x, fst x)) (assign_walk prio (Some (?a, n)) ns))
      \<and> (\<forall>x \<in> set (assign_walk prio (Some (?a, n)) ns). (?a, n) < (snd x, fst x))"
  proof -
    have "\<forall>m \<in> set ns. prio m + int (length ns) \<le> B + 1" using Cons.prems(1) by fastforce
    from Cons.IH [OF this Cons.prems(2), of "Some (?a, n)"] show ?thesis using le by (simp del: less_prod_simp)
  qed
  have first: "(f, p) < (?a, n)" if "prev = Some (f, p)" for f p
    using that Cons.prems(2,3) by (intro assigned_after) auto
  then show ?case
    using IH by (auto simp: Let_def simp del: less_prod_simp intro: less_trans)
qed simp

section \<open>What a computed result means\<close>

lemma Compute_cases [consumes 2, case_names cycle sorted]:
  assumes "distinct order" "unit_free order"
  obtains (cycle) members where "ao_verdict (ComputeAutoOrder es order known prio) = Cycle"
      "ao_cycleMembers (ComputeAutoOrder es order known prio) = members" "members \<noteq> []"
      "\<And>c. c \<in> set members \<Longrightarrow> \<exists>d \<in> set members. (d, c) \<in> demanded known order es"
      "\<And>xs. \<not> valid_order order (demanded known order es) xs"
  | (sorted) xs where "valid_order order (demanded known order es) xs"
      "ao_verdict (ComputeAutoOrder es order known prio) \<noteq> Cycle"
      "xs \<noteq> order \<Longrightarrow> ao_correctedOrder (ComputeAutoOrder es order known prio) = xs
         \<and> ao_moved (ComputeAutoOrder es order known prio) = moves_of prio (assign_walk prio None xs)"
      "xs = order \<Longrightarrow> ao_verdict (ComputeAutoOrder es order known prio) = NoChange
         \<and> ao_moved (ComputeAutoOrder es order known prio) = []"
proof -
  let ?cs = "collect_constraints known order es []"
  have cs: "set ?cs = demanded known order es" using assms(2) by (rule set_collect_constraints)
  have mem: "\<forall>(d, c) \<in> set ?cs. d \<in> set order \<and> c \<in> set order"
    unfolding cs using demanded_mem by fast
  show ?thesis
  proof (cases "kahn (length order) ?cs order (initial_inDegree ?cs) []")
    case (Inl members)
    note cyc = kahn_cycle [OF mem assms(1) Inl]
    show ?thesis
      by (rule cycle [of members]) (use cyc in \<open>simp_all add: ComputeAutoOrder_def Inl cs\<close>)
  next
    case (Inr xs)
    have v: "valid_order order (demanded known order es) xs"
      using kahn_sound [OF mem assms(1) Inr] unfolding cs .
    show ?thesis
      by (rule sorted [OF v]) (simp_all add: ComputeAutoOrder_def Inr Let_def)
  qed
qed

text \<open>The priority a name has once the moved rows are in force.\<close>

definition prio_after :: "(string \<Rightarrow> int) \<Rightarrow> auto_order_move list \<Rightarrow> string \<Rightarrow> int" where
  "prio_after prio moves n =
     (case map_of (map (\<lambda>mv. (mv_pluginName mv, mv_newPriority mv)) moves) n of
        None \<Rightarrow> prio n | Some p \<Rightarrow> p)"

lemma prio_after_moves:
  "distinct (map fst as) \<Longrightarrow> (n, a) \<in> set as \<Longrightarrow> prio_after prio (moves_of prio as) n = a"
proof (induction as)
  case (Cons x as)
  obtain m b where x: "x = (m, b)" by (cases x)
  show ?case
  proof (cases "n = m")
    case True
    then have "(m, a) \<notin> set as" using Cons.prems(1) x by simp (metis fst_conv image_eqI)
    then have "a = b" using Cons.prems(2) x True by simp
    moreover have "map_of (map (\<lambda>mv. (mv_pluginName mv, mv_newPriority mv)) (moves_of prio as)) m = None"
      using Cons.prems(1) x by (force simp: map_of_eq_None_iff moves_of_def)
    ultimately show ?thesis using True x by (simp add: prio_after_def moves_of_def)
  next
    case False
    then have "prio_after prio (moves_of prio (x # as)) n = prio_after prio (moves_of prio as) n"
      by (simp add: x prio_after_def moves_of_def)
    then show ?thesis using Cons False x by auto
  qed
qed simp

lemma walk_orders:
  assumes dist: "distinct xs" and room: "\<forall>n \<in> set xs. prio n + int (length xs) \<le> 101"
    and before: "comes_before xs d c"
  shows "(prio_after prio (moves_of prio (assign_walk prio None xs)) d, d)
       < (prio_after prio (moves_of prio (assign_walk prio None xs)) c, c)"
proof -
  let ?as = "assign_walk prio None xs"
  let ?q = "prio_after prio (moves_of prio ?as)"
  have d: "distinct (map fst ?as)" using dist by simp
  have q: "?q (fst x) = snd x" if "x \<in> set ?as" for x
    using that by (intro prio_after_moves [OF d]) simp
  have "sorted_wrt (<) (map (\<lambda>x. (snd x, fst x)) ?as)"
    using assign_walk_sorted [of xs prio 100 None] room by simp
  also have "map (\<lambda>x. (snd x, fst x)) ?as = map (\<lambda>n. (?q n, n)) (map fst ?as)"
    using q by (auto simp del: assign_walk_names)
  finally have "sorted_wrt (\<lambda>a b. (?q a, a) < (?q b, b)) xs" by (simp add: sorted_wrt_map del: less_prod_simp)
  then show ?thesis using before by (rule sorted_wrt_comes_before)
qed

section \<open>Properties\<close>

text \<open>Property C5.  The sort decides the problem: over an order of distinct names the verdict is Cycle
  iff no arrangement of the plugins puts every declarer before its consumers; a corrected order
  is such an arrangement of exactly the same plugins; and the members of a reported cycle all
  wait for one another.\<close>

theorem auto_order_decides:
  assumes "distinct order" "unit_free order"
  shows "(ao_verdict (ComputeAutoOrder es order known prio) = Cycle \<longleftrightarrow>
      (\<nexists>xs. valid_order order (demanded known order es) xs))
    \<and> (ao_verdict (ComputeAutoOrder es order known prio) = Reordered \<longrightarrow>
      valid_order order (demanded known order es) (ao_correctedOrder (ComputeAutoOrder es order known prio)))
    \<and> (ao_verdict (ComputeAutoOrder es order known prio) = Cycle \<longrightarrow>
      ao_cycleMembers (ComputeAutoOrder es order known prio) \<noteq> []
      \<and> (\<forall>c \<in> set (ao_cycleMembers (ComputeAutoOrder es order known prio)).
            \<exists>d \<in> set (ao_cycleMembers (ComputeAutoOrder es order known prio)). (d, c) \<in> demanded known order es))"
  using assms by (cases rule: Compute_cases [where known = known and es = es and prio = prio]; force)

theorem auto_order_decides_witness:
  "ao_verdict (ComputeAutoOrder
      [\<lparr>consumerAuthor = ''z'', consumerPlugin = ''a'', behaviorFullName = ''z.b.x''\<rparr>,
       \<lparr>consumerAuthor = ''z'', consumerPlugin = ''b'', behaviorFullName = ''z.a.x''\<rparr>]
      [''a'', ''b''] (\<lambda>_ _. True) (\<lambda>_. 50)) = Cycle
   \<and> (\<nexists>xs. valid_order [''a'', ''b''] (demanded (\<lambda>_ _. True) [''a'', ''b'']
      [\<lparr>consumerAuthor = ''z'', consumerPlugin = ''a'', behaviorFullName = ''z.b.x''\<rparr>,
       \<lparr>consumerAuthor = ''z'', consumerPlugin = ''b'', behaviorFullName = ''z.a.x''\<rparr>]) xs)"
  using auto_order_decides [of "[''a'', ''b'']"
      "[\<lparr>consumerAuthor = ''z'', consumerPlugin = ''a'', behaviorFullName = ''z.b.x''\<rparr>,
        \<lparr>consumerAuthor = ''z'', consumerPlugin = ''b'', behaviorFullName = ''z.a.x''\<rparr>]"
      "\<lambda>_ _. True" "\<lambda>_. 50"]
  by (simp add: unit_free_def ComputeAutoOrder_def edge_constraint_def DeclarerFromBehaviorName_def
      str_find_def constraint_key_def initial_inDegree_def)

text \<open>Auto-order leaves a correct order alone: if the current order already satisfies
  every demand the verdict is NoChange and no row is written.\<close>

theorem auto_order_stable:
  assumes "distinct order" "unit_free order" "valid_order order (demanded known order es) order"
  shows "ao_verdict (ComputeAutoOrder es order known prio) = NoChange
    \<and> ao_moved (ComputeAutoOrder es order known prio) = []"
proof -
  let ?cs = "collect_constraints known order es []"
  have "satisfies ([] @ order) ?cs"
    using assms(3) set_collect_constraints [OF assms(2)] by (simp add: satisfies_def valid_order_def)
  then have "kahn (length order) ?cs order (initial_inDegree ?cs) [] = Inr order"
    using kahn_satisfied [of "[]" order ?cs] assms(1) by (simp add: open_degree_initial)
  then show ?thesis by (simp add: ComputeAutoOrder_def)
qed

theorem auto_order_stable_witness:
  "ao_verdict (ComputeAutoOrder
      [\<lparr>consumerAuthor = ''z'', consumerPlugin = ''b'', behaviorFullName = ''z.a.x''\<rparr>]
      [''a'', ''b''] (\<lambda>_ _. True) (\<lambda>_. 50)) = NoChange
   \<and> ao_moved (ComputeAutoOrder
      [\<lparr>consumerAuthor = ''z'', consumerPlugin = ''b'', behaviorFullName = ''z.a.x''\<rparr>]
      [''a'', ''b''] (\<lambda>_ _. True) (\<lambda>_. 50)) = []"
proof (rule auto_order_stable)
  have "comes_before [''a'', ''b''] ''a'' ''b''"
    using comes_before_last [of "''a''" "[''a'']" "''b''"] by simp
  then show "valid_order [''a'', ''b''] (demanded (\<lambda>_ _. True) [''a'', ''b'']
      [\<lparr>consumerAuthor = ''z'', consumerPlugin = ''b'', behaviorFullName = ''z.a.x''\<rparr>]) [''a'', ''b'']"
    by (simp add: valid_order_def demanded_def edge_constraint_def DeclarerFromBehaviorName_def str_find_def)
qed (simp_all add: unit_free_def)

text \<open>Property C6.  After auto-order the next launch is clean: when the plugins share one zone and
  order index, there is room below 100, and the next launch resolves the priorities the moved
  rows carry, then unless a cycle was reported the launch check finds no edge violated.\<close>

theorem auto_order_next_launch_clean:
  assumes order: "order = current_order s ms" "distinct order" "unit_free order"
      "\<forall>m \<in> set ms. pm_name m \<noteq> []"
    and uniform: "\<forall>n \<in> set order. eff_zone (Of s n) = z \<and> eff_orderIndex (Of s n) = i"
      "\<forall>n \<in> set order. eff_zone (Of s' n) = z \<and> eff_orderIndex (Of s' n) = i"
    and room: "\<forall>n \<in> set order. eff_priority (Of s n) + int (length order) \<le> 101"
    and r: "r = ComputeAutoOrder es order (isKnownPlugin ms) (\<lambda>n. eff_priority (Of s n))"
      "ao_verdict r \<noteq> Cycle"
    and next': "\<forall>n \<in> set order. eff_priority (Of s' n) = prio_after (\<lambda>n. eff_priority (Of s n)) (ao_moved r) n"
  shows "RecheckBehaviorEdges s' es (isKnownPlugin ms) = []"
proof -
  let ?p = "\<lambda>n. eff_priority (Of s n)"
  let ?dem = "demanded (isKnownPlugin ms) order es"
  have key: "RunsBefore s' d c \<longleftrightarrow> (prio_after ?p (ao_moved r) d, d) < (prio_after ?p (ao_moved r) c, c)"
    if "d \<in> set order" "c \<in> set order" for d c
    using that uniform(2) next' by (auto simp: RunsBefore_SortKey SortKey_def)
  have before: "RunsBefore s' d c" if dc: "(d, c) \<in> ?dem" for d c
  proof -
    have mem: "d \<in> set order" "c \<in> set order" using demanded_mem [OF dc] by auto
    show ?thesis
      using order(2,3)
    proof (cases rule: Compute_cases [where es = es and known = "isKnownPlugin ms" and prio = ?p])
      case (sorted xs)
      have b: "comes_before xs d c" and x: "distinct xs" "set xs = set order"
        using sorted(1) dc by (auto simp: valid_order_def)
      show ?thesis
      proof (cases "xs = order")
        case False
        have "\<forall>n \<in> set xs. ?p n + int (length xs) \<le> 101"
          using room x order(2) by (metis distinct_card)
        then show ?thesis
          using walk_orders [OF x(1) _ b] sorted(3) [OF False] key [OF mem] r(1) by simp
      next
        case True
        have "sorted (map (SortKey s) order)" by (simp add: order(1) current_order_def)
        then have "sorted_wrt (\<lambda>a b. SortKey s a \<le> SortKey s b) order" by (simp add: sorted_map)
        then have "SortKey s d \<le> SortKey s c" using sorted_wrt_comes_before b True by metis
        then have "SortKey s d < SortKey s c"
          using demanded_mem [OF dc] by (auto simp: SortKey_def less_le)
        then have "(?p d, d) < (?p c, c)" using uniform(1) mem by (simp add: SortKey_def)
        moreover have "ao_moved r = []" using sorted(4) [OF True] r(1) by simp
        ultimately show ?thesis using key [OF mem] by (simp add: prio_after_def)
      qed
    qed (use r in simp)
  qed
  have known: "n \<in> set order" if "isKnownPlugin ms a n" for a n
    using that order(1,4) by (auto simp: isKnownPlugin_def current_order_def)
  show ?thesis
    unfolding recheck_silent_iff_order_ok_aux
  proof (intro ballI allI impI)
    fix e da dp
    assume e: "e \<in> set es" "DeclarerFromBehaviorName (behaviorFullName e) = Some (da, dp)"
      "isKnownPlugin ms (consumerAuthor e) (consumerPlugin e)" "isKnownPlugin ms da dp"
    show "consumerPlugin e = dp \<or> RunsBefore s' dp (consumerPlugin e)"
    proof (cases "consumerPlugin e = dp")
      case False
      then have "edge_constraint (isKnownPlugin ms) order e = Some (dp, consumerPlugin e)"
        using e known by (simp add: edge_constraint_def)
      then show ?thesis using before e(1) by (auto simp: demanded_def)
    qed simp
  qed
qed

text \<open>Two plugins of author z; a sets a behavior of b.\<close>

definition two_plugins :: "plugin_manifest list" where
  "two_plugins = [default_manifest\<lparr>pm_author := ''z'', pm_name := ''a''\<rparr>,
                  default_manifest\<lparr>pm_author := ''z'', pm_name := ''b''\<rparr>]"

definition a_needs_b :: "behavior_edge list" where
  "a_needs_b = [\<lparr>consumerAuthor = ''z'', consumerPlugin = ''a'', behaviorFullName = ''z.b.x''\<rparr>]"

definition lo_with :: "effective \<Rightarrow> effective \<Rightarrow> lo_state" where
  "lo_with a b = \<lparr>g_userOverrides = Map.empty, g_effective = [''a'' \<mapsto> a, ''b'' \<mapsto> b]\<rparr>"

lemma Of_lo_with [simp]: "Of (lo_with a b) ''a'' = a" "Of (lo_with a b) ''b'' = b"
  by (simp_all add: Of_def lo_with_def)

lemma declarer_zbx [simp]: "DeclarerFromBehaviorName ''z.b.x'' = Some (''z'', ''b'')"
  using DeclarerFromBehaviorName_stamped [of "''z''" "''b''" "''x''"] by (simp add: dot_free_def)

lemma two_plugins_known: "isKnownPlugin two_plugins ''z'' ''a''" "isKnownPlugin two_plugins ''z'' ''b''"
  by (simp_all add: isKnownPlugin_def two_plugins_def default_manifest_def)

lemma two_plugins_order:
  "RunsBefore (lo_with a b) ''a'' ''b'' \<Longrightarrow> current_order (lo_with a b) two_plugins = [''a'', ''b'']"
  by (simp add: current_order_def two_plugins_def default_manifest_def RunsBefore_SortKey
      del: less_prod_simp)

lemma a_needs_b_sorted:
  "ComputeAutoOrder a_needs_b [''a'', ''b''] (isKnownPlugin two_plugins) prio =
     (let m = moves_of prio (assign_walk prio None [''b'', ''a''])
      in \<lparr>ao_verdict = (if m = [] then NoChange else Reordered), ao_correctedOrder = [''b'', ''a''],
          ao_moved = m, ao_cycleMembers = []\<rparr>)"
  by (simp add: ComputeAutoOrder_def a_needs_b_def edge_constraint_def two_plugins_known
      constraint_key_def initial_inDegree_def successors_of_def release_successors_def Let_def
      del: assign_walk.simps)

lemma a_needs_b_conflict:
  "RecheckBehaviorEdges s a_needs_b (isKnownPlugin two_plugins) = [] \<longleftrightarrow> RunsBefore s ''b'' ''a''"
  by (simp add: recheck_silent_iff_order_ok_aux a_needs_b_def two_plugins_known)

theorem auto_order_next_launch_clean_witness:
  "RecheckBehaviorEdges (lo_with (DefaultEffective\<lparr>eff_priority := 51\<rparr>) DefaultEffective)
     a_needs_b (isKnownPlugin two_plugins) = []"
proof -
  let ?s = "lo_with DefaultEffective DefaultEffective"
  have before: "RunsBefore ?s ''a'' ''b''" by (simp add: RunsBefore_def Let_def)
  then have order: "current_order ?s two_plugins = [''a'', ''b'']" by (rule two_plugins_order)
  have prio: "n \<in> {''a'', ''b''} \<Longrightarrow> eff_priority (Of ?s n) = 50" for n
    by (auto simp: DefaultEffective_def)
  have moved: "ao_moved (ComputeAutoOrder a_needs_b [''a'', ''b''] (isKnownPlugin two_plugins)
      (\<lambda>n. eff_priority (Of ?s n))) = [\<lparr>mv_pluginName = ''a'', mv_newPriority = 51, mv_oldPriority = 50\<rparr>]"
    by (simp add: a_needs_b_sorted moves_of_def assigned_priority_def DefaultEffective_def)
  show ?thesis
  proof (rule auto_order_next_launch_clean [where z = AfterGame and i = INT_MAX, OF order [symmetric] _ _ _ _ _ _ refl])
    show "ao_verdict (ComputeAutoOrder a_needs_b [''a'', ''b''] (isKnownPlugin two_plugins)
        (\<lambda>n. eff_priority (Of ?s n))) \<noteq> Cycle"
      by (simp add: a_needs_b_sorted Let_def)
    show "\<forall>n \<in> set [''a'', ''b'']. eff_priority (Of (lo_with (DefaultEffective\<lparr>eff_priority := 51\<rparr>) DefaultEffective) n)
        = prio_after (\<lambda>n. eff_priority (Of ?s n)) (ao_moved (ComputeAutoOrder a_needs_b [''a'', ''b'']
            (isKnownPlugin two_plugins) (\<lambda>n. eff_priority (Of ?s n)))) n"
      unfolding moved by (simp add: prio_after_def)
  qed (simp_all add: unit_free_def two_plugins_def default_manifest_def DefaultEffective_def)
qed

text \<open>At the top of the range auto-order gives up silently: the bump is clamped to 100 and
  a tie past that is broken by the name, so when a consumer whose name sorts first and its
  declarer both have priority 100 the verdict is NoChange while the edge stays violated.\<close>

theorem auto_order_clamp_gives_up:
  assumes "s = lo_with (DefaultEffective\<lparr>eff_priority := 100\<rparr>) (DefaultEffective\<lparr>eff_priority := 100\<rparr>)"
  shows "ao_verdict (ComputeAutoOrder a_needs_b (current_order s two_plugins) (isKnownPlugin two_plugins)
      (\<lambda>n. eff_priority (Of s n))) = NoChange
    \<and> RecheckBehaviorEdges s a_needs_b (isKnownPlugin two_plugins) \<noteq> []"
proof -
  have "RunsBefore s ''a'' ''b''" by (simp add: assms RunsBefore_def Let_def)
  then have "current_order s two_plugins = [''a'', ''b'']" unfolding assms by (rule two_plugins_order)
  then have "ao_verdict (ComputeAutoOrder a_needs_b (current_order s two_plugins) (isKnownPlugin two_plugins)
      (\<lambda>n. eff_priority (Of s n))) = NoChange"
    by (simp add: a_needs_b_sorted moves_of_def assigned_priority_def assms)
  then show ?thesis by (simp add: a_needs_b_conflict assms RunsBefore_def Let_def)
qed

theorem auto_order_clamp_gives_up_witness:
  "RecheckBehaviorEdges (lo_with (DefaultEffective\<lparr>eff_priority := 100\<rparr>) (DefaultEffective\<lparr>eff_priority := 100\<rparr>))
     a_needs_b (isKnownPlugin two_plugins) \<noteq> []"
  using auto_order_clamp_gives_up [OF refl] by blast

text \<open>Auto-order ignores zones: it moves priorities only, so when the consumer runs in
  before_game and its declarer in after_game no assignment of priorities, hence no result of
  auto-order, makes the next launch clean.\<close>

theorem auto_order_cannot_cross_zones:
  assumes "eff_zone a = BeforeGame" "eff_zone b = AfterGame"
  shows "RecheckBehaviorEdges (lo_with (a\<lparr>eff_priority := p\<rparr>) (b\<lparr>eff_priority := q\<rparr>))
      a_needs_b (isKnownPlugin two_plugins) \<noteq> []
    \<and> ao_verdict (ComputeAutoOrder a_needs_b (current_order (lo_with a b) two_plugins)
      (isKnownPlugin two_plugins) (\<lambda>n. eff_priority (Of (lo_with a b) n))) \<noteq> Cycle"
proof -
  have "RecheckBehaviorEdges (lo_with (a\<lparr>eff_priority := p\<rparr>) (b\<lparr>eff_priority := q\<rparr>))
      a_needs_b (isKnownPlugin two_plugins) \<noteq> []"
    by (simp add: a_needs_b_conflict assms RunsBefore_def Let_def)
  moreover have "RunsBefore (lo_with a b) ''a'' ''b''" by (simp add: assms RunsBefore_def Let_def)
  then have "current_order (lo_with a b) two_plugins = [''a'', ''b'']" by (rule two_plugins_order)
  then have "ao_verdict (ComputeAutoOrder a_needs_b (current_order (lo_with a b) two_plugins)
      (isKnownPlugin two_plugins) (\<lambda>n. eff_priority (Of (lo_with a b) n))) \<noteq> Cycle"
    by (simp add: a_needs_b_sorted Let_def)
  ultimately show ?thesis by blast
qed

theorem auto_order_cannot_cross_zones_witness:
  "RecheckBehaviorEdges (lo_with (DefaultEffective\<lparr>eff_zone := BeforeGame, eff_priority := 51\<rparr>)
     (DefaultEffective\<lparr>eff_priority := 50\<rparr>)) a_needs_b (isKnownPlugin two_plugins) \<noteq> []"
  using auto_order_cannot_cross_zones [of "DefaultEffective\<lparr>eff_zone := BeforeGame\<rparr>"
    DefaultEffective 51 50] by (simp add: DefaultEffective_def)

lemma isPriorityLine_priority_line: "isPriorityLine (priority_line p)"
proof -
  have "trim3 (priority_line p) = priority_line p"
    unfolding trim3_def by (rule trim_by_id) (simp add: priority_line_def ws3_def last_append)
  then show ?thesis
    by (simp add: isPriorityLine_def priority_line_def str_find_def trim3_def trim_by_def ws3_def Let_def)
qed

lemma rev_dropWhile_takeWhile: "rev (dropWhile P (rev xs)) @ rev (takeWhile P (rev xs)) = xs"
  by (metis rev_append rev_rev_ident takeWhile_dropWhile_id)

lemma upsert_body_other:
  "filter (\<lambda>l. \<not> isPriorityLine l) (upsert_body p body) = filter (\<lambda>l. \<not> isPriorityLine l) body"
proof (cases "list_ex isPriorityLine body")
  case True
  have "filter (\<lambda>l. \<not> isPriorityLine l) (map (\<lambda>l. if isPriorityLine l then priority_line p else l) body)
      = filter (\<lambda>l. \<not> isPriorityLine l) body"
    by (induction body) (auto simp: isPriorityLine_priority_line)
  then show ?thesis using True by (simp add: upsert_body_def)
next
  case False
  let ?blank = "\<lambda>l. trim3 l = []"
  have "filter (\<lambda>l. \<not> isPriorityLine l) (rev (dropWhile ?blank (rev body)) @ rev (takeWhile ?blank (rev body)))
      = filter (\<lambda>l. \<not> isPriorityLine l) body"
    by (simp only: rev_dropWhile_takeWhile)
  then show ?thesis using False by (simp add: upsert_body_def Let_def isPriorityLine_priority_line)
qed

lemma upsert_lines_other:
  "filter (\<lambda>l. \<not> isPriorityLine l) (fst (upsert_lines ls want)) = filter (\<lambda>l. \<not> isPriorityLine l) ls"
proof (induction ls want rule: upsert_lines.induct)
  case (2 l ls want)
  let ?w = "if nameOfLine l = [] then None else want (nameOfLine l)"
  show ?case
  proof (cases ?w)
    case None
    then show ?thesis using "2.IH"(1) by (simp add: case_prod_beta Let_def)
  next
    case (Some p)
    let ?h = "\<lambda>x. \<not> isTableHeader x"
    let ?P = "\<lambda>l. \<not> isPriorityLine l"
    have IH: "filter ?P (fst (upsert_lines (dropWhile ?h ls) (want(nameOfLine l := None))))
        = filter ?P (dropWhile ?h ls)"
      using "2.IH"(2) [OF Some] by (simp add: fun_upd_def)
    have cut: "filter ?P ls = filter ?P (takeWhile ?h ls) @ filter ?P (dropWhile ?h ls)"
      by (metis filter_append takeWhile_dropWhile_id)
    have "fst (upsert_lines (l # ls) want) = l # upsert_body p (takeWhile ?h ls)
        @ fst (upsert_lines (dropWhile ?h ls) (want(nameOfLine l := None)))"
      using Some by (simp add: case_prod_beta Let_def)
    then show ?thesis by (simp only: filter.simps filter_append upsert_body_other IH cut)
  qed
qed simp

text \<open>The upsert into load_order.toml touches priority lines only: the output is a list of
  lines followed by the appended rows, and the lines that are not priority lines are exactly
  those of the input, in order.\<close>

theorem upsert_touches_only_priority_lines:
  "\<exists>out appended. SerializeAutoOrderUpsert existing moves = unlines out @ appended
     \<and> filter (\<lambda>l. \<not> isPriorityLine l) out = filter (\<lambda>l. \<not> isPriorityLine l) (getlines existing)"
proof (intro exI conjI)
  let ?r = "upsert_lines (getlines existing) (want_of moves)"
  show "SerializeAutoOrderUpsert existing moves = unlines (fst ?r) @ append_rows moves (snd ?r)"
    by (simp add: SerializeAutoOrderUpsert_def case_prod_beta Let_def)
  show "filter (\<lambda>l. \<not> isPriorityLine l) (fst ?r) = filter (\<lambda>l. \<not> isPriorityLine l) (getlines existing)"
    by (rule upsert_lines_other)
qed

end
