(* ===== verification/Mod_Manifest.thy ===== *)
theory Mod_Manifest
  imports Kcdx_Data
begin

text \<open>
  src/version_compat.cpp, the one game-version policy plugins and pak mods share, and
  src/mod_absorb/mod_manifest.cpp, the minimal reader of a mod.manifest: entity decoding, tag
  extraction, the supports list, the whole file.  A file that cannot be opened is \<open>None\<close>.
\<close>

section \<open>The version policy\<close>

datatype CompatResult = Compatible | Incompatible | UnknownGameVersion

definition PatternMatches :: "string \<Rightarrow> string \<Rightarrow> bool" where
  "PatternMatches pattern runtime =
     (if pattern \<noteq> [] \<and> last pattern = CHR ''*''
      then starts_with (butlast pattern) runtime
      else pattern = runtime)"

definition DecideGameVersionCompatString :: "string list \<Rightarrow> string \<Rightarrow> CompatResult" where
  "DecideGameVersionCompatString supports runtime =
     (if supports = [] then Compatible
      else if runtime = [] then UnknownGameVersion
      else if list_ex (\<lambda>p. PatternMatches p runtime) supports then Compatible
      else Incompatible)"

lemma Decide_Incompatible:
  "DecideGameVersionCompatString supports runtime = Incompatible \<longleftrightarrow>
     supports \<noteq> [] \<and> runtime \<noteq> [] \<and> (\<forall>p \<in> set supports. \<not> PatternMatches p runtime)"
  by (auto simp: DecideGameVersionCompatString_def list_ex_iff)

section \<open>Entities\<close>

definition Trim :: "string \<Rightarrow> string" where
  "Trim s = trim_by is_space s"

text \<open>One left-to-right pass; emitted text is not looked at again.\<close>

function DecodeEntities :: "string \<Rightarrow> string" where
  "DecodeEntities [] = []"
| "DecodeEntities (c # cs) =
     (if c = CHR ''&'' then
        (if starts_with ''&amp;'' (c # cs) then CHR ''&'' # DecodeEntities (drop 5 (c # cs))
         else if starts_with ''&lt;'' (c # cs) then CHR ''<'' # DecodeEntities (drop 4 (c # cs))
         else if starts_with ''&gt;'' (c # cs) then CHR ''>'' # DecodeEntities (drop 4 (c # cs))
         else if starts_with ''&quot;'' (c # cs) then CHR 0x22 # DecodeEntities (drop 6 (c # cs))
         else if starts_with ''&apos;'' (c # cs) then CHR 0x27 # DecodeEntities (drop 6 (c # cs))
         else c # DecodeEntities cs)
      else c # DecodeEntities cs)"
  by pat_completeness auto
termination
  by (relation "measure length") auto

section \<open>Tags\<close>

function extract_from :: "string \<Rightarrow> string \<Rightarrow> nat \<Rightarrow> string" where
  "extract_from xml tag searchFrom =
     (let open' = CHR ''<'' # tag;
          close = ''</'' @ tag @ ''>'';
          content = (\<lambda>inner. case str_find xml close inner of
                               None \<Rightarrow> []
                             | Some closePos \<Rightarrow> Trim (DecodeEntities (take (closePos - inner) (drop inner xml))))
      in case str_find xml open' searchFrom of
           None \<Rightarrow> []
         | Some openPos \<Rightarrow>
             (let afterName = openPos + length open'
              in if afterName \<ge> length xml then []
                 else if xml ! afterName = CHR ''>'' then content (afterName + 1)
                 else if xml ! afterName = CHR ''/'' \<and> afterName + 1 < length xml
                         \<and> xml ! (afterName + 1) = CHR ''>'' then []
                 else if is_space (xml ! afterName)
                 then (case str_find xml ''>'' afterName of
                         None \<Rightarrow> []
                       | Some openEnd \<Rightarrow> content (openEnd + 1))
                 else extract_from xml tag afterName))"
  by pat_completeness auto
termination
proof (relation "measure (\<lambda>(xml, tag, searchFrom). Suc (length xml) - searchFrom)", goal_cases)
  case (2 xml tag searchFrom open' close content openPos afterName)
  then show ?case using str_find_SomeD [of xml open' searchFrom openPos] by auto
qed simp

declare extract_from.simps [simp del]

definition ExtractTag :: "string \<Rightarrow> string \<Rightarrow> string" where
  "ExtractTag xml tag = extract_from xml tag 0"

text \<open>The walk over the version entries of the supports block.\<close>

function versions_from :: "string \<Rightarrow> nat \<Rightarrow> string list" where
  "versions_from block from' =
     (case str_find block ''<version>'' from' of
        None \<Rightarrow> []
      | Some vo \<Rightarrow>
          (let vstart = vo + 9
           in case str_find block ''</version>'' vstart of
                None \<Rightarrow> []
              | Some vc \<Rightarrow> Trim (DecodeEntities (take (vc - vstart) (drop vstart block)))
                             # versions_from block (vc + 10)))"
  by pat_completeness auto
termination
proof (relation "measure (\<lambda>(block, from'). Suc (length block) - from')", goal_cases)
  case (2 block from' vo vstart vc)
  then show ?case
    using str_find_SomeD [of block "''<version>''" from' vo]
      str_find_SomeD [of block "''</version>''" vstart vc] by auto
qed simp

declare versions_from.simps [simp del]

definition ParseSupports :: "string \<Rightarrow> string list" where
  "ParseSupports xml =
     (case str_find xml ''<supports'' 0 of
        None \<Rightarrow> []
      | Some openPos \<Rightarrow>
          (case str_find xml ''>'' openPos of
             None \<Rightarrow> []
           | Some openEnd \<Rightarrow>
               (let inner = openEnd + 1
                in case str_find xml ''</supports>'' inner of
                     None \<Rightarrow> []
                   | Some closePos \<Rightarrow> versions_from (take (closePos - inner) (drop inner xml)) 0)))"

section \<open>The manifest\<close>

definition ReadModManifest :: "string option \<Rightarrow> mod_manifest" where
  "ReadModManifest file =
     (case file of
        None \<Rightarrow> default_mod_manifest
      | Some xml \<Rightarrow>
          if str_find xml ''<kcd_mod'' 0 = None \<or> str_find xml ''<info'' 0 = None
          then default_mod_manifest
          else \<lparr>mm_ok = True, mm_name = ExtractTag xml ''name'',
                mm_description = ExtractTag xml ''description'',
                mm_author = ExtractTag xml ''author'', mm_version = ExtractTag xml ''version'',
                mm_createdOn = ExtractTag xml ''created_on'', mm_modId = ExtractTag xml ''modid'',
                mm_supports = ParseSupports xml\<rparr>)"

definition DecideModCompat :: "mod_manifest \<Rightarrow> string \<Rightarrow> CompatResult" where
  "DecideModCompat m runtime = DecideGameVersionCompatString (mm_supports m) runtime"

section \<open>Lemmas\<close>

text \<open>The writer's side, as XML prescribes it.\<close>

fun encode_char :: "char \<Rightarrow> string" where
  "encode_char c =
     (if c = CHR ''&'' then ''&amp;'' else if c = CHR ''<'' then ''&lt;''
      else if c = CHR ''>'' then ''&gt;'' else if c = CHR 0x22 then ''&quot;''
      else if c = CHR 0x27 then ''&apos;'' else [c])"

definition EncodeEntities :: "string \<Rightarrow> string" where
  "EncodeEntities s = concat (map encode_char s)"

lemma Decode_encode_char: "DecodeEntities (encode_char c @ rest) = c # DecodeEntities rest"
  by simp

lemma Decode_Encode_append: "DecodeEntities (EncodeEntities s @ rest) = s @ DecodeEntities rest"
  by (induction s)
    (simp_all add: EncodeEntities_def Decode_encode_char del: encode_char.simps DecodeEntities.simps)

lemma Decode_Encode [simp]: "DecodeEntities (EncodeEntities s) = s"
  using Decode_Encode_append [of s "[]"] by simp

lemma Encode_no_lt: "CHR ''<'' \<notin> set (EncodeEntities s)"
  by (induction s) (simp_all add: EncodeEntities_def)

lemma find_sub_first: "c \<notin> set xs \<Longrightarrow> find_sub (c # p) (xs @ (c # p) @ ys) = Some (length xs)"
proof (induction xs)
  case Nil
  have "starts_with (c # p) ((c # p) @ ys)" by (rule starts_with_append)
  then show ?case by simp
next
  case (Cons x xs)
  then show ?case by simp
qed

lemma str_find_at:
  assumes "c \<notin> set xs"
  shows "str_find (pre @ xs @ (c # p) @ ys) (c # p) (length pre) = Some (length pre + length xs)"
  using find_sub_first [OF assms, of p ys] by (simp add: str_find_def)

lemma extract_element:
  assumes first: "str_find (pre @ (CHR ''<'' # tag) @ ''>'' @ body @ (''</'' @ tag @ ''>'') @ post)
      (CHR ''<'' # tag) 0 = Some (length pre)"
    and body: "CHR ''<'' \<notin> set body"
  shows "ExtractTag (pre @ (CHR ''<'' # tag) @ ''>'' @ body @ (''</'' @ tag @ ''>'') @ post) tag
    = Trim (DecodeEntities body)"
proof -
  let ?pre = "pre @ (CHR ''<'' # tag) @ ''>''"
  let ?xml = "?pre @ body @ (CHR ''<'' # (CHR ''/'' # tag @ ''>'')) @ post"
  have eq: "pre @ (CHR ''<'' # tag) @ ''>'' @ body @ (''</'' @ tag @ ''>'') @ post = ?xml" by simp
  have open': "str_find ?xml (CHR ''<'' # tag) 0 = Some (length pre)"
    using first unfolding eq .
  have close: "str_find ?xml (CHR ''<'' # (CHR ''/'' # tag @ ''>'')) (length ?pre)
      = Some (length ?pre + length body)"
    using body by (rule str_find_at)
  have nth: "?xml ! (length pre + length (CHR ''<'' # tag)) = CHR ''>''"
    by (simp add: nth_append)
  have "extract_from ?xml tag 0 = Trim (DecodeEntities body)"
  proof -
    have len: "length pre + length (CHR ''<'' # tag) + 1 = length ?pre" by simp
    have lt: "\<not> length pre + length (CHR ''<'' # tag) \<ge> length ?xml" by simp
    have body': "take (length ?pre + length body - length ?pre) (drop (length ?pre) ?xml) = body"
      by simp
    have cl: "''</'' @ tag @ ''>'' = CHR ''<'' # (CHR ''/'' # tag @ ''>'')" by simp
    show ?thesis
      by (subst extract_from.simps)
        (simp only: Let_def open' option.case if_not_P [OF lt] nth refl if_True len cl close body')
  qed
  then show ?thesis unfolding ExtractTag_def eq .
qed

section \<open>Properties\<close>

text \<open>Property C21.  Any field value survives the manifest: the text of the first element of a tag,
  written with the five XML entities escaped, is read back as the value with outer whitespace
  trimmed, whatever follows it, including text that looks like markup or like an entity.\<close>

theorem manifest_field_roundtrip:
  assumes "str_find (pre @ (CHR ''<'' # tag) @ ''>'' @ EncodeEntities v @ (''</'' @ tag @ ''>'') @ post)
      (CHR ''<'' # tag) 0 = Some (length pre)"
  shows "ExtractTag (pre @ (CHR ''<'' # tag) @ ''>'' @ EncodeEntities v @ (''</'' @ tag @ ''>'') @ post) tag
    = Trim v"
  using extract_element [OF assms Encode_no_lt] by simp

theorem manifest_field_roundtrip_witness:
  "ExtractTag (''<info>'' @ (CHR ''<'' # ''name'') @ ''>'' @ EncodeEntities ''a</name>&lt;'' @
      (''</'' @ ''name'' @ ''>'') @ ''</info>'') ''name'' = Trim ''a</name>&lt;''"
  by (rule manifest_field_roundtrip) (simp add: str_find_def EncodeEntities_def)

end
