(* ===== verification/Topo_Sort.thy ===== *)
theory Topo_Sort
  imports Kcdx_Graph
begin

text \<open>
  The pass-based sort of src/plugin_loader.cpp's TopoSort over candidate indices: nodes
  \<open>0..<n\<close>, a validity flag per node, and edges (dependency, dependent).  An invalid node is
  marked emitted without being output and without releasing its dependents.
\<close>

record topo =
  t_out :: "nat list"
  t_emitted :: "nat list"
  t_indeg :: "nat \<Rightarrow> int"

definition scan_one :: "(nat \<Rightarrow> bool) \<Rightarrow> (nat \<times> nat) list \<Rightarrow> nat \<Rightarrow> topo \<times> bool \<Rightarrow> topo \<times> bool" where
  "scan_one valid edges i tp =
     (let (t, progressed) = tp
      in if i \<in> set (t_emitted t) then (t, progressed)
         else if t_indeg t i \<noteq> 0 then (t, progressed)
         else if \<not> valid i then (t\<lparr>t_emitted := t_emitted t @ [i]\<rparr>, progressed)
         else (\<lparr>t_out = t_out t @ [i], t_emitted = t_emitted t @ [i],
                t_indeg = release_successors (successors_of edges i) (t_indeg t)\<rparr>, True))"

text \<open>The while loop, with fuel for its passes.\<close>

fun topo_loop :: "nat \<Rightarrow> nat \<Rightarrow> (nat \<Rightarrow> bool) \<Rightarrow> (nat \<times> nat) list \<Rightarrow> topo \<Rightarrow> topo option" where
  "topo_loop 0 n valid edges t = None"
| "topo_loop (Suc k) n valid edges t =
     (if length (t_out t) < n
      then (let (t', progressed) = fold (scan_one valid edges) [0..<n] (t, False)
            in if progressed then topo_loop k n valid edges t' else Some t')
      else Some t)"

definition topo_order :: "nat \<Rightarrow> (nat \<Rightarrow> bool) \<Rightarrow> (nat \<times> nat) list \<Rightarrow> nat list" where
  "topo_order n valid edges =
     (case topo_loop (Suc n) n valid edges
             \<lparr>t_out = [], t_emitted = [], t_indeg = initial_inDegree edges\<rparr> of
        None \<Rightarrow> []
      | Some t \<Rightarrow> t_out t)"

section \<open>The specification\<close>

text \<open>
  A node is loadable when it is valid and every dependency it has an edge from is loadable.
\<close>

inductive loadable :: "(nat \<Rightarrow> bool) \<Rightarrow> (nat \<times> nat) list \<Rightarrow> nat \<Rightarrow> bool" for valid edges where
  loadable_node: "valid i \<Longrightarrow> (\<And>d. (d, i) \<in> set edges \<Longrightarrow> loadable valid edges d) \<Longrightarrow> loadable valid edges i"

inductive_cases loadableE: "loadable valid edges i"

inductive_simps loadable_iff: "loadable valid edges i"

section \<open>Invariants of the scan\<close>

definition topo_inv :: "nat \<Rightarrow> (nat \<Rightarrow> bool) \<Rightarrow> (nat \<times> nat) list \<Rightarrow> topo \<Rightarrow> bool" where
  "topo_inv n valid edges t \<longleftrightarrow>
     distinct (t_out t) \<and> set (t_out t) \<subseteq> set (t_emitted t) \<and> set (t_out t) \<subseteq> {..<n}
     \<and> (\<forall>i \<in> set (t_emitted t) - set (t_out t). \<not> valid i)
     \<and> t_indeg t = open_degree edges (t_out t)
     \<and> (\<forall>i \<in> set (t_out t). loadable valid edges i)
     \<and> (\<forall>d i. (d, i) \<in> set edges \<longrightarrow> i \<in> set (t_out t) \<longrightarrow> comes_before (t_out t) d i)"

lemma scan_one_inv:
  assumes inv: "topo_inv n valid edges t" and i: "i < n"
  shows "topo_inv n valid edges (fst (scan_one valid edges i (t, p)))"
proof -
  consider "i \<in> set (t_emitted t) \<or> t_indeg t i \<noteq> 0"
    | "i \<notin> set (t_emitted t)" "t_indeg t i = 0" "\<not> valid i"
    | "i \<notin> set (t_emitted t)" "t_indeg t i = 0" "valid i" by blast
  then show ?thesis
  proof cases
    case 1
    then show ?thesis using inv by (auto simp: scan_one_def)
  next
    case 2
    then show ?thesis using inv by (auto simp: scan_one_def topo_inv_def)
  next
    case 3
    have deg: "\<forall>d. (d, i) \<in> set edges \<longrightarrow> d \<in> set (t_out t)"
      using 3(2) inv by (simp add: topo_inv_def open_degree_0_iff)
    then have ld: "loadable valid edges i"
      using inv 3(3) by (auto simp: topo_inv_def intro: loadable_node)
    have new: "i \<notin> set (t_out t)" using 3(1) inv by (auto simp: topo_inv_def)
    have "\<forall>d j. (d, j) \<in> set edges \<longrightarrow> j \<in> set (t_out t @ [i]) \<longrightarrow> comes_before (t_out t @ [i]) d j"
      using inv deg by (auto simp: topo_inv_def intro: comes_before_append comes_before_last)
    moreover have "release_successors (successors_of edges i) (t_indeg t) = open_degree edges (t_out t @ [i])"
      using inv new by (simp add: topo_inv_def open_degree_step)
    ultimately show ?thesis
      using inv 3 ld new i by (auto simp: scan_one_def topo_inv_def)
  qed
qed

lemma scan_pass_inv:
  "topo_inv n valid edges t \<Longrightarrow> set is \<subseteq> {..<n} \<Longrightarrow>
    topo_inv n valid edges (fst (fold (scan_one valid edges) is (t, p)))"
proof (induction "is" arbitrary: t p)
  case (Cons i "is")
  then show ?case
    using scan_one_inv [of n valid edges t i p] Cons.IH [of "fst (scan_one valid edges i (t, p))"
        "snd (scan_one valid edges i (t, p))"] by simp
qed simp

text \<open>A pass either makes progress and outputs a node, or leaves the output and the degrees as they
  are and marks every node of degree 0.\<close>

lemma scan_one_progress:
  "snd (scan_one valid edges i (t, p)) \<Longrightarrow> p \<or> length (t_out t) < length (t_out (fst (scan_one valid edges i (t, p))))"
  "length (t_out t) \<le> length (t_out (fst (scan_one valid edges i (t, p))))"
  "p \<Longrightarrow> snd (scan_one valid edges i (t, p))"
  by (auto simp: scan_one_def split: if_splits)

lemma scan_pass_progress_aux:
  "(snd (fold (scan_one valid edges) is (t, p)) \<longrightarrow>
     p \<or> length (t_out t) < length (t_out (fst (fold (scan_one valid edges) is (t, p)))))
   \<and> length (t_out t) \<le> length (t_out (fst (fold (scan_one valid edges) is (t, p))))"
proof (induction "is" arbitrary: t p)
  case (Cons i "is")
  let ?s = "scan_one valid edges i (t, p)"
  have eq: "fold (scan_one valid edges) (i # is) (t, p) = fold (scan_one valid edges) is (fst ?s, snd ?s)"
    by simp
  note one = scan_one_progress(1,2) [where valid = valid and edges = edges and i = i and t = t and p = p]
  show ?case
    using Cons.IH [of "fst ?s" "snd ?s"] one unfolding eq
    by (meson less_le_trans le_less_trans order_trans)
qed simp

lemmas scan_pass_progress =
  scan_pass_progress_aux [THEN conjunct1, rule_format] scan_pass_progress_aux [THEN conjunct2]

lemma scan_pass_keeps_progress: "snd (fold (scan_one valid edges) is (t, True))"
proof (induction "is" arbitrary: t)
  case (Cons i "is")
  have "snd (scan_one valid edges i (t, True))" by (rule scan_one_progress(3)) simp
  then have "scan_one valid edges i (t, True) = (fst (scan_one valid edges i (t, True)), True)"
    by (simp add: prod_eq_iff)
  then show ?case using Cons.IH by (metis fold_simps(2))
qed simp

lemma scan_pass_stuck:
  "\<not> snd (fold (scan_one valid edges) is (t, False)) \<Longrightarrow>
     t_out (fst (fold (scan_one valid edges) is (t, False))) = t_out t
     \<and> t_indeg (fst (fold (scan_one valid edges) is (t, False))) = t_indeg t
     \<and> (\<forall>i \<in> set is. valid i \<longrightarrow> t_indeg t i = 0 \<longrightarrow> i \<in> set (t_emitted t))"
proof (induction "is" arbitrary: t)
  case (Cons i "is")
  let ?s = "scan_one valid edges i (t, False)"
  have "\<not> snd ?s"
    using Cons.prems scan_pass_keeps_progress [of valid edges "is"] by (metis (full_types) fold_simps(2) prod.collapse)
  then have s: "?s = (fst ?s, False)" and no: "\<not> (i \<notin> set (t_emitted t) \<and> t_indeg t i = 0 \<and> valid i)"
    by (auto simp: prod_eq_iff scan_one_def split: if_splits)
  have same: "t_out (fst ?s) = t_out t" "t_indeg (fst ?s) = t_indeg t"
    "\<And>j. valid j \<Longrightarrow> j \<in> set (t_emitted (fst ?s)) \<longleftrightarrow> j \<in> set (t_emitted t)"
    using no by (auto simp: scan_one_def)
  have "\<not> snd (fold (scan_one valid edges) is (fst ?s, False))"
    using Cons.prems s by (metis fold_simps(2))
  from Cons.IH [OF this] show ?case
    using s no same by (metis fold_simps(2) set_ConsD)
qed simp

lemma topo_loop_result:
  "topo_inv n valid edges t \<Longrightarrow> n < k + length (t_out t) \<Longrightarrow>
    \<exists>t'. topo_loop k n valid edges t = Some t' \<and> topo_inv n valid edges t'
      \<and> (\<forall>i < n. loadable valid edges i \<longrightarrow> (\<forall>d j. (d, j) \<in> set edges \<longrightarrow> d < n) \<longrightarrow> i \<in> set (t_out t'))"
proof (induction k arbitrary: t)
  case 0
  have "card (set (t_out t)) \<le> card {..<n}"
    using 0(1) by (intro card_mono) (auto simp: topo_inv_def)
  then show ?case using 0 by (simp add: topo_inv_def distinct_card)
next
  case (Suc k)
  show ?case
  proof (cases "length (t_out t) < n")
    case False
    have "set (t_out t) \<subseteq> {..<n}" "card (set (t_out t)) \<ge> n"
      using Suc.prems(1) False by (auto simp: topo_inv_def distinct_card)
    then have "set (t_out t) = {..<n}" by (intro card_seteq) auto
    then show ?thesis using False Suc.prems(1) by auto
  next
    case True
    let ?f = "fold (scan_one valid edges) [0..<n] (t, False)"
    have inv: "topo_inv n valid edges (fst ?f)"
      using Suc.prems(1) by (intro scan_pass_inv) auto
    show ?thesis
    proof (cases "snd ?f")
      case True
      then have "length (t_out t) < length (t_out (fst ?f))"
        using scan_pass_progress(1) [OF True] by simp
      then show ?thesis
        using Suc.IH [OF inv] Suc.prems(2) True \<open>length (t_out t) < n\<close> by (simp add: case_prod_beta Let_def)
    next
      case stuck: False
      have eq: "topo_loop (Suc k) n valid edges t = Some (fst ?f)"
        using stuck \<open>length (t_out t) < n\<close> by (simp add: case_prod_beta Let_def)
      note st = scan_pass_stuck [OF stuck]
      have "i \<in> set (t_out (fst ?f))"
        if "loadable valid edges i" "i < n" and edges: "\<forall>d j. (d, j) \<in> set edges \<longrightarrow> d < n" for i
        using that(1,2)
      proof induction
        case (loadable_node i)
        have "\<forall>d. (d, i) \<in> set edges \<longrightarrow> d \<in> set (t_out t)"
          using loadable_node edges st by auto
        then have "t_indeg t i = 0" using Suc.prems(1) by (simp add: topo_inv_def open_degree_0_iff)
        then have "i \<in> set (t_emitted t)" using st loadable_node(1,4) by auto
        then show ?case using Suc.prems(1) loadable_node(1) st by (auto simp: topo_inv_def)
      qed
      then show ?thesis using eq inv by blast
    qed
  qed
qed

text \<open>The result: exactly the loadable nodes, each once, dependencies first.\<close>

lemma topo_order_spec:
  assumes "\<forall>(d, i) \<in> set edges. d < n \<and> i < n"
  shows "distinct (topo_order n valid edges)"
    and "set (topo_order n valid edges) = {i. i < n \<and> loadable valid edges i}"
    and "(d, i) \<in> set edges \<Longrightarrow> i \<in> set (topo_order n valid edges) \<Longrightarrow>
           comes_before (topo_order n valid edges) d i"
proof -
  let ?t0 = "\<lparr>t_out = [], t_emitted = [], t_indeg = initial_inDegree edges\<rparr>"
  have "topo_inv n valid edges ?t0" by (simp add: topo_inv_def open_degree_initial)
  from topo_loop_result [OF this, of "Suc n"]
  obtain t where t: "topo_loop (Suc n) n valid edges ?t0 = Some t" "topo_inv n valid edges t"
    and all: "\<forall>i < n. loadable valid edges i \<longrightarrow> (\<forall>d j. (d, j) \<in> set edges \<longrightarrow> d < n) \<longrightarrow> i \<in> set (t_out t)"
    by auto
  have eq: "topo_order n valid edges = t_out t" using t(1) by (simp add: topo_order_def)
  show "distinct (topo_order n valid edges)" using t(2) by (simp add: eq topo_inv_def)
  have "\<forall>d j. (d, j) \<in> set edges \<longrightarrow> d < n" using assms by auto
  then show "set (topo_order n valid edges) = {i. i < n \<and> loadable valid edges i}"
    using t(2) all unfolding eq topo_inv_def by blast
  show "(d, i) \<in> set edges \<Longrightarrow> i \<in> set (topo_order n valid edges) \<Longrightarrow>
      comes_before (topo_order n valid edges) d i"
    using t(2) by (simp add: eq topo_inv_def)
qed

end
