(* ===== verification/Plugin_Loader.thy ===== *)
theory Plugin_Loader
  imports Zone_Gate Mod_Manifest Topo_Sort
begin

text \<open>
  src/plugin_loader.cpp: validating the parsed manifests, the name-uniqueness pass, the
  dependency edges and the sort, resolving DLL entrypoints, the preload and load waves, the
  after-game wave, and the lookups by name and handle.

  Windows and plugin code are parameters: what a file test, a directory listing and LoadLibrary
  answer, and what each plugin export returns (\<open>None\<close> is a fault caught by the guard).  The
  observable effects are a trace of events; log lines are left out.
\<close>

section \<open>Candidates\<close>

definition kEngineVersion :: u32 where
  "kEngineVersion = 0x00010200"

record candidate =
  cd_manifest :: plugin_manifest
  cd_valid :: bool

definition ValidateManifest :: "string \<Rightarrow> plugin_manifest \<Rightarrow> bool" where
  "ValidateManifest runtime m =
     (if pm_name m = [] then False
      else if kEngineVersion < pm_kcdxMinVersion m then False
      else (case DecideGameVersionCompatString (pm_supports m) runtime of
              UnknownGameVersion \<Rightarrow> True
            | Incompatible \<Rightarrow> False
            | Compatible \<Rightarrow> True))"

definition make_candidates :: "string \<Rightarrow> plugin_manifest list \<Rightarrow> candidate list" where
  "make_candidates runtime ms = map (\<lambda>m. \<lparr>cd_manifest = m, cd_valid = ValidateManifest runtime m\<rparr>) ms"

definition invalidate :: "nat \<Rightarrow> candidate list \<Rightarrow> candidate list" where
  "invalidate i cs = cs[i := (cs ! i)\<lparr>cd_valid := False\<rparr>]"

text \<open>The uniqueness loop: both holders of a repeated name are invalidated.\<close>

definition unique_step :: "nat \<Rightarrow> (string \<rightharpoonup> nat) \<times> candidate list \<Rightarrow> (string \<rightharpoonup> nat) \<times> candidate list" where
  "unique_step i st =
     (let (firstSeen, cs) = st
      in if \<not> cd_valid (cs ! i) then (firstSeen, cs)
         else (case firstSeen (pm_name (cd_manifest (cs ! i))) of
                 None \<Rightarrow> (firstSeen(pm_name (cd_manifest (cs ! i)) \<mapsto> i), cs)
               | Some j \<Rightarrow> (firstSeen, invalidate i (invalidate j cs))))"

definition drop_duplicate_names :: "candidate list \<Rightarrow> candidate list" where
  "drop_duplicate_names cs = snd (fold unique_step [0..<length cs] (Map.empty, cs))"

section \<open>Dependencies\<close>

definition index_by_name :: "candidate list \<Rightarrow> (string \<rightharpoonup> nat)" where
  "index_by_name cs = fold (\<lambda>i m. m(pm_name (cd_manifest (cs ! i)) \<mapsto> i)) [0..<length cs] Map.empty"

text \<open>The candidate a dependency gives an edge from.\<close>

definition dep_source :: "candidate list \<Rightarrow> manifest_dependency \<Rightarrow> nat option" where
  "dep_source cs dep =
     (case index_by_name cs (dep_name dep) of
        None \<Rightarrow> None
      | Some j \<Rightarrow>
          if pm_version (cd_manifest (cs ! j)) < dep_minVersion dep then None else Some j)"

definition deps_ok :: "candidate list \<Rightarrow> nat \<Rightarrow> bool" where
  "deps_ok cs i = list_all (\<lambda>dep. dep_optional dep \<or> dep_source cs dep \<noteq> None)
     (pm_dependencies (cd_manifest (cs ! i)))"

definition dep_edges :: "candidate list \<Rightarrow> (nat \<times> nat) list" where
  "dep_edges cs =
     concat (map (\<lambda>i. List.map_filter (\<lambda>dep. map_option (\<lambda>j. (j, i)) (dep_source cs dep))
                        (pm_dependencies (cd_manifest (cs ! i)))) [0..<length cs])"

definition TopoSort :: "candidate list \<Rightarrow> candidate list" where
  "TopoSort cs =
     map ((!) cs) (topo_order (length cs) (\<lambda>i. cd_valid (cs ! i) \<and> deps_ok cs i) (dep_edges cs))"

section \<open>Entrypoints\<close>

record dll_exports =
  has_preload :: bool
  has_load :: bool
  has_post :: bool

datatype loader_event =
    PreloadCalled string
  | LoadCalled string
  | PostGameCalled string
  | PdbPopulated string
  | PluginStreamOpened u32
  | OverlayBuilt
  | OverlayReady
  | FirePostLoad
  | FirePostPostLoad

record loader_env =
  le_dirOk :: bool
  le_runtime :: string
  le_lo :: lo_state
  le_join :: "string \<Rightarrow> string \<Rightarrow> string"
  le_exists :: "string \<Rightarrow> bool"
  le_rootDlls :: "string \<Rightarrow> string list"
  le_loadLibrary :: "string \<Rightarrow> dll_exports option"
  le_call :: "loader_event \<Rightarrow> bool option"

text \<open>\<open>None\<close> is the empty path.  \<open>le_rootDlls\<close> lists the .dll files in a folder's root.\<close>

definition ResolveDllEntrypoint :: "loader_env \<Rightarrow> plugin_manifest \<Rightarrow> string option" where
  "ResolveDllEntrypoint env m =
     (if pm_dllEntrypointRel m \<noteq> []
      then (let explicitDll = le_join env (pm_folderPath m) (pm_dllEntrypointRel m)
            in if \<not> le_exists env explicitDll then None else Some explicitDll)
      else (case le_rootDlls env (pm_folderPath m) of
              [] \<Rightarrow> None
            | [dll] \<Rightarrow> Some dll
            | _ \<Rightarrow> None))"

record loaded_plugin =
  lp_manifest :: plugin_manifest
  lp_filePath :: string
  lp_module :: bool
  lp_handle :: u32
  lp_exports :: dll_exports
  lp_loaded :: bool

definition no_exports :: dll_exports where
  "no_exports = \<lparr>has_preload = False, has_load = False, has_post = False\<rparr>"

definition load_plugin :: "loader_env \<Rightarrow> nat \<Rightarrow> plugin_manifest \<Rightarrow> loaded_plugin" where
  "load_plugin env i m =
     (let base = \<lparr>lp_manifest = m, lp_filePath = [], lp_module = False, lp_handle = of_nat i,
                  lp_exports = no_exports, lp_loaded = False\<rparr>
      in case ResolveDllEntrypoint env m of
           None \<Rightarrow> base
         | Some path \<Rightarrow>
             (case le_loadLibrary env path of
                None \<Rightarrow> base
              | Some ex \<Rightarrow> base\<lparr>lp_module := True, lp_filePath := path, lp_exports := ex\<rparr>))"

definition load_plugins :: "loader_env \<Rightarrow> plugin_manifest list \<Rightarrow> loaded_plugin list" where
  "load_plugins env ms = map (\<lambda>i. load_plugin env i (ms ! i)) [0..<length ms]"

definition open_streams :: "loaded_plugin list \<Rightarrow> loader_event list" where
  "open_streams ps = map (\<lambda>p. PluginStreamOpened (lp_handle p)) (filter lp_module ps)"

section \<open>The waves\<close>

abbreviation lp_name :: "loaded_plugin \<Rightarrow> string" where
  "lp_name p \<equiv> pm_name (lp_manifest p)"

definition preload_wave :: "loader_env \<Rightarrow> loaded_plugin list \<Rightarrow> loader_event list" where
  "preload_wave env ps =
     concat (map (\<lambda>p. if has_preload (lp_exports p) \<and> IsPluginEnabled (le_lo env) (lp_name p)
                     then [PreloadCalled (lp_name p)] else []) ps)"

definition load_one :: "loader_env \<Rightarrow> loaded_plugin \<Rightarrow> loaded_plugin \<times> loader_event list" where
  "load_one env p =
     (if \<not> IsPluginEnabled (le_lo env) (lp_name p) then (p\<lparr>lp_loaded := False\<rparr>, [])
      else if \<not> has_load (lp_exports p) then (p\<lparr>lp_loaded := True\<rparr>, [])
      else (let ok = (le_call env (LoadCalled (lp_name p)) = Some True)
            in (p\<lparr>lp_loaded := ok\<rparr>,
                LoadCalled (lp_name p)
                  # (if ok \<and> lp_module p \<and> lp_filePath p \<noteq> [] then [PdbPopulated (lp_name p)] else []))))"

definition load_wave :: "loader_env \<Rightarrow> loaded_plugin list \<Rightarrow> loaded_plugin list \<times> loader_event list" where
  "load_wave env ps = (map (\<lambda>p. fst (load_one env p)) ps, concat (map (\<lambda>p. snd (load_one env p)) ps))"

definition survivors :: "string \<Rightarrow> plugin_manifest list \<Rightarrow> candidate list" where
  "survivors runtime ms = TopoSort (drop_duplicate_names (make_candidates runtime ms))"

text \<open>The result is the list of loaded plugins and the trace.\<close>

definition DiscoverAndLoad ::
    "loader_env \<Rightarrow> plugin_manifest list \<Rightarrow> loaded_plugin list \<times> loader_event list" where
  "DiscoverAndLoad env manifests =
     (if \<not> le_dirOk env then ([], [])
      else if manifests = [] then ([], [FirePostLoad, FirePostPostLoad])
      else
        (let cands = survivors (le_runtime env) manifests
         in if cands = [] then ([], [])
            else
              (let ps = load_plugins env (map cd_manifest cands);
                   (ps', evs) = load_wave env ps
               in (ps', open_streams ps @ preload_wave env ps @ evs
                        @ [OverlayBuilt, OverlayReady, FirePostLoad, FirePostPostLoad]))))"

definition FindByName :: "loaded_plugin list \<Rightarrow> string \<Rightarrow> loaded_plugin option" where
  "FindByName ps n = find (\<lambda>p. lp_name p = n) ps"

definition kcdxInvalidPluginHandle :: u32 where
  "kcdxInvalidPluginHandle = 0xFFFFFFFF"

definition HandleOf :: "loaded_plugin list \<Rightarrow> string \<Rightarrow> u32" where
  "HandleOf ps n = (case FindByName ps n of Some p \<Rightarrow> lp_handle p | None \<Rightarrow> kcdxInvalidPluginHandle)"

definition NameForHandle :: "loaded_plugin list \<Rightarrow> u32 \<Rightarrow> string" where
  "NameForHandle ps h =
     (if h = kcdxInvalidPluginHandle then []
      else if unat h \<ge> length ps then [] else lp_name (ps ! unat h))"

definition AuthorForHandle :: "loaded_plugin list \<Rightarrow> u32 \<Rightarrow> string" where
  "AuthorForHandle ps h =
     (if h = kcdxInvalidPluginHandle then []
      else if unat h \<ge> length ps then [] else pm_author (lp_manifest (ps ! unat h)))"

definition post_key :: "lo_state \<Rightarrow> loaded_plugin \<Rightarrow> int \<times> int \<times> string" where
  "post_key s p = (eff_priority (Of s (lp_name p)), eff_orderIndex (Of s (lp_name p)), lp_name p)"

definition RunPostGameLoad :: "loader_env \<Rightarrow> loaded_plugin list \<Rightarrow> loader_event list" where
  "RunPostGameLoad env ps =
     map (\<lambda>p. PostGameCalled (lp_name p))
       (filter (\<lambda>p. IsPluginEnabled (le_lo env) (lp_name p))
         (sort_key (post_key (le_lo env)) (filter (\<lambda>p. has_post (lp_exports p)) ps)))"

section \<open>Unique names: lemmas\<close>

lemma length_unique_step [simp]: "length (snd (unique_step i (m, cs))) = length cs"
  by (simp add: unique_step_def invalidate_def split: option.splits)

text \<open>
  After the first \<open>k\<close> candidates: manifests are unchanged; the map holds an index below \<open>k\<close> for
  every name of a candidate that was valid; at most one candidate below \<open>k\<close> per name is still
  valid, and only if no other below \<open>k\<close> was valid.
\<close>

definition names_inv :: "candidate list \<Rightarrow> nat \<Rightarrow> (string \<rightharpoonup> nat) \<Rightarrow> candidate list \<Rightarrow> bool" where
  "names_inv cs0 k seen cs \<longleftrightarrow> length cs = length cs0
     \<and> (\<forall>i < length cs0. cd_manifest (cs ! i) = cd_manifest (cs0 ! i))
     \<and> (\<forall>i < length cs0. k \<le> i \<longrightarrow> cs ! i = cs0 ! i)
     \<and> (\<forall>n j. seen n = Some j \<longrightarrow> j < k \<and> cd_valid (cs0 ! j) \<and> pm_name (cd_manifest (cs0 ! j)) = n)
     \<and> (\<forall>i < k. cd_valid (cs0 ! i) \<longrightarrow> seen (pm_name (cd_manifest (cs0 ! i))) \<noteq> None)
     \<and> (\<forall>i < k. cd_valid (cs ! i) \<longleftrightarrow> cd_valid (cs0 ! i) \<and>
          (\<forall>j < k. j \<noteq> i \<longrightarrow> cd_valid (cs0 ! j) \<longrightarrow>
             pm_name (cd_manifest (cs0 ! j)) \<noteq> pm_name (cd_manifest (cs0 ! i))))"

lemma names_inv_step:
  assumes inv: "names_inv cs0 k seen cs" and k: "k < length cs0"
  shows "case unique_step k (seen, cs) of (seen', cs') \<Rightarrow> names_inv cs0 (Suc k) seen' cs'"
proof (cases "cd_valid (cs ! k)")
  case False
  then show ?thesis
    using inv k by (auto simp: unique_step_def names_inv_def less_Suc_eq)
next
  case valid: True
  have eq: "cs ! k = cs0 ! k" using inv k by (simp add: names_inv_def)
  let ?n = "pm_name (cd_manifest (cs0 ! k))"
  show ?thesis
  proof (cases "seen ?n")
    case None
    then have "\<forall>j < k. cd_valid (cs0 ! j) \<longrightarrow> pm_name (cd_manifest (cs0 ! j)) \<noteq> ?n"
      using inv by (auto simp: names_inv_def)
    then show ?thesis
      using inv k valid eq None
      by (auto simp: unique_step_def names_inv_def less_Suc_eq split: if_splits)
  next
    case (Some j)
    then have j: "j < k" "cd_valid (cs0 ! j)" "pm_name (cd_manifest (cs0 ! j)) = ?n"
      using inv by (auto simp: names_inv_def)
    let ?cs = "invalidate k (invalidate j cs)"
    have step: "unique_step k (seen, cs) = (seen, ?cs)"
      using valid eq Some by (simp add: unique_step_def)
    have len: "length ?cs = length cs0" using inv by (simp add: invalidate_def names_inv_def)
    have nth: "?cs ! i = (if i = k \<or> i = j then (cs ! i)\<lparr>cd_valid := False\<rparr> else cs ! i)"
      if "i < length cs0" for i
      using that j(1) k inv by (auto simp: invalidate_def names_inv_def nth_list_update)
    have vld: "cd_valid (?cs ! i) \<longleftrightarrow> cd_valid (cs0 ! i) \<and> (\<forall>l < Suc k. l \<noteq> i \<longrightarrow> cd_valid (cs0 ! l) \<longrightarrow>
        pm_name (cd_manifest (cs0 ! l)) \<noteq> pm_name (cd_manifest (cs0 ! i)))" if i: "i < Suc k" for i
    proof -
      consider "i = k" | "i = j" | "i < k" "i \<noteq> j" using i by linarith
      then show ?thesis
      proof cases
        case 1
        have "j < Suc k \<and> j \<noteq> k \<and> cd_valid (cs0 ! j)
            \<and> pm_name (cd_manifest (cs0 ! j)) = pm_name (cd_manifest (cs0 ! k))" using j by simp
        then show ?thesis using 1 nth [of k] k by auto
      next
        case 2
        have "k < Suc k \<and> k \<noteq> j \<and> cd_valid (cs0 ! k)
            \<and> pm_name (cd_manifest (cs0 ! k)) = pm_name (cd_manifest (cs0 ! j))" using j valid eq by simp
        then show ?thesis using 2 nth [of j] k j(1) by auto
      next
        case 3
        have "cd_valid (cs ! i) \<longleftrightarrow> cd_valid (cs0 ! i) \<and> (\<forall>l < k. l \<noteq> i \<longrightarrow> cd_valid (cs0 ! l) \<longrightarrow>
            pm_name (cd_manifest (cs0 ! l)) \<noteq> pm_name (cd_manifest (cs0 ! i)))"
          using inv 3 by (simp add: names_inv_def)
        moreover have "?cs ! i = cs ! i" using nth [of i] 3 k by simp
        ultimately show ?thesis using j 3 by (auto simp: less_Suc_eq)
      qed
    qed
    show ?thesis
      unfolding step names_inv_def prod.case
    proof (intro conjI)
      show "\<forall>i < length cs0. cd_manifest (?cs ! i) = cd_manifest (cs0 ! i)"
        using nth inv by (simp add: names_inv_def)
      show "\<forall>i < length cs0. Suc k \<le> i \<longrightarrow> ?cs ! i = cs0 ! i"
        using nth inv j(1) by (simp add: names_inv_def)
      show "\<forall>n j. seen n = Some j \<longrightarrow> j < Suc k \<and> cd_valid (cs0 ! j) \<and> pm_name (cd_manifest (cs0 ! j)) = n"
        using inv unfolding names_inv_def by (blast intro: less_SucI)
      show "\<forall>i < Suc k. cd_valid (cs0 ! i) \<longrightarrow> seen (pm_name (cd_manifest (cs0 ! i))) \<noteq> None"
        using inv Some by (auto simp: names_inv_def elim: less_SucE)
    qed (use len vld in blast)+
  qed
qed

lemma drop_duplicate_names_spec:
  "length (drop_duplicate_names cs) = length cs"
  "i < length cs \<Longrightarrow> cd_manifest (drop_duplicate_names cs ! i) = cd_manifest (cs ! i)"
  "i < length cs \<Longrightarrow> cd_valid (drop_duplicate_names cs ! i) \<longleftrightarrow> cd_valid (cs ! i) \<and>
     (\<forall>j < length cs. j \<noteq> i \<longrightarrow> cd_valid (cs ! j) \<longrightarrow>
        pm_name (cd_manifest (cs ! j)) \<noteq> pm_name (cd_manifest (cs ! i)))"
proof -
  have "k \<le> length cs \<Longrightarrow> case fold unique_step [0..<k] (Map.empty, cs) of (seen, cs') \<Rightarrow> names_inv cs k seen cs'"
    for k
  proof (induction k)
    case 0
    then show ?case by (simp add: names_inv_def)
  next
    case (Suc k)
    let ?f = "fold unique_step [0..<k] (Map.empty, cs)"
    have "names_inv cs k (fst ?f) (snd ?f)" using Suc by (simp add: case_prod_beta)
    from names_inv_step [OF this] show ?case using Suc.prems by simp
  qed
  from this [of "length cs"] have "names_inv cs (length cs)
      (fst (fold unique_step [0..<length cs] (Map.empty, cs))) (drop_duplicate_names cs)"
    by (simp add: drop_duplicate_names_def case_prod_beta)
  then show "length (drop_duplicate_names cs) = length cs"
    "i < length cs \<Longrightarrow> cd_manifest (drop_duplicate_names cs ! i) = cd_manifest (cs ! i)"
    "i < length cs \<Longrightarrow> cd_valid (drop_duplicate_names cs ! i) \<longleftrightarrow> cd_valid (cs ! i) \<and>
       (\<forall>j < length cs. j \<noteq> i \<longrightarrow> cd_valid (cs ! j) \<longrightarrow>
          pm_name (cd_manifest (cs ! j)) \<noteq> pm_name (cd_manifest (cs ! i)))"
    by (simp_all add: names_inv_def)
qed

section \<open>The dependency graph: lemmas\<close>

lemma index_by_name_Some:
  "index_by_name cs n = Some j \<Longrightarrow> j < length cs \<and> pm_name (cd_manifest (cs ! j)) = n"
proof -
  have "fold (\<lambda>i m. m(pm_name (cd_manifest (cs ! i)) \<mapsto> i)) is m n = Some j \<Longrightarrow>
      (j \<in> set is \<and> pm_name (cd_manifest (cs ! j)) = n) \<or> m n = Some j" for "is" m
  proof (induction "is" arbitrary: m)
    case (Cons a "is")
    then show ?case
      using Cons.IH [of "m(pm_name (cd_manifest (cs ! a)) \<mapsto> a)"] by (auto split: if_splits)
  qed simp
  from this [of "[0..<length cs]" Map.empty] show "index_by_name cs n = Some j \<Longrightarrow> ?thesis"
    by (simp add: index_by_name_def)
qed

lemma dep_source_Some:
  "dep_source cs dep = Some j \<Longrightarrow> j < length cs \<and> pm_name (cd_manifest (cs ! j)) = dep_name dep
     \<and> dep_minVersion dep \<le> pm_version (cd_manifest (cs ! j))"
  by (auto simp: dep_source_def dest: index_by_name_Some split: option.splits if_splits)

lemma set_dep_edges:
  "(j, i) \<in> set (dep_edges cs) \<longleftrightarrow>
     i < length cs \<and> (\<exists>dep \<in> set (pm_dependencies (cd_manifest (cs ! i))). dep_source cs dep = Some j)"
  by (auto simp: dep_edges_def List.map_filter_def image_iff) force+

lemma dep_edges_bounded: "\<forall>(d, i) \<in> set (dep_edges cs). d < length cs \<and> i < length cs"
  using dep_source_Some by (force simp: set_dep_edges)

abbreviation load_ok :: "candidate list \<Rightarrow> nat \<Rightarrow> bool" where
  "load_ok cs \<equiv> (\<lambda>i. cd_valid (cs ! i) \<and> deps_ok cs i)"

abbreviation load_indices :: "candidate list \<Rightarrow> nat list" where
  "load_indices cs \<equiv> topo_order (length cs) (load_ok cs) (dep_edges cs)"

lemmas load_indices_spec = topo_order_spec [OF dep_edges_bounded]

lemma load_indices_bound: "i \<in> set (load_indices cs) \<Longrightarrow> i < length cs"
  using load_indices_spec(2) [of cs "load_ok cs"] by auto

lemma comes_before_nth:
  assumes "distinct xs" "i < length xs" "comes_before xs d (xs ! i)"
  obtains j where "j < i" "xs ! j = d"
proof -
  obtain ys zs where yz: "xs = ys @ (xs ! i) # zs" "d \<in> set ys"
    using assms(3) unfolding comes_before_def by blast
  have "ys = take i xs"
    using distinct_split_unique [of "take i xs" "xs ! i" "drop (Suc i) xs" ys zs] yz(1) assms(1,2)
    by (simp add: id_take_nth_drop [symmetric])
  then obtain j where "j < length (take i xs)" "take i xs ! j = d"
    using yz(2) by (auto simp: in_set_conv_nth)
  then show ?thesis using that by auto
qed

text \<open>In the sorted candidates every required dependency precedes its dependent.\<close>

lemma TopoSort_deps:
  assumes i: "i < length (TopoSort cs)"
    and dep: "dep \<in> set (pm_dependencies (cd_manifest (TopoSort cs ! i)))" "\<not> dep_optional dep"
  obtains j where "j < i" "pm_name (cd_manifest (TopoSort cs ! j)) = dep_name dep"
    "dep_minVersion dep \<le> pm_version (cd_manifest (TopoSort cs ! j))"
proof -
  let ?L = "load_indices cs"
  have len: "length (TopoSort cs) = length ?L" by (simp add: TopoSort_def)
  have nth: "TopoSort cs ! k = cs ! (?L ! k)" if "k < length ?L" for k
    using that by (simp add: TopoSort_def)
  have mem: "?L ! i \<in> set ?L" using i len by simp
  then have "loadable (load_ok cs) (dep_edges cs) (?L ! i)"
    unfolding load_indices_spec(2) by simp
  then have "deps_ok cs (?L ! i)" by (auto elim: loadableE)
  moreover have dep': "dep \<in> set (pm_dependencies (cd_manifest (cs ! (?L ! i))))"
    using dep(1) nth i len by simp
  ultimately obtain d where d: "dep_source cs dep = Some d"
    using dep(2) by (auto simp: deps_ok_def list_all_iff)
  then have "(d, ?L ! i) \<in> set (dep_edges cs)"
    using dep' load_indices_bound [OF mem] by (auto simp: set_dep_edges)
  then have "comes_before ?L d (?L ! i)" using mem by (rule load_indices_spec(3))
  then obtain j where j: "j < i" "?L ! j = d"
    using comes_before_nth [OF load_indices_spec(1), of i cs "load_ok cs" d] i len by auto
  then show ?thesis using that [of j] dep_source_Some [OF d] nth [of j] i len by simp
qed

lemma load_indices_valid:
  assumes "i \<in> set (load_indices cs)"
  shows "cd_valid (cs ! i)"
proof -
  have "loadable (load_ok cs) (dep_edges cs) i" using assms unfolding load_indices_spec(2) by simp
  then show ?thesis by cases simp
qed

lemma survivors_valid:
  assumes "c \<in> set (survivors rt ms)"
  shows "cd_valid c"
proof -
  obtain i where "i \<in> set (load_indices (drop_duplicate_names (make_candidates rt ms)))"
      "c = drop_duplicate_names (make_candidates rt ms) ! i"
    using assms by (auto simp: survivors_def TopoSort_def)
  then show ?thesis using load_indices_valid by simp
qed

lemma survivors_names_distinct: "distinct (map (\<lambda>c. pm_name (cd_manifest c)) (survivors rt ms))"
proof -
  let ?raw = "make_candidates rt ms"
  let ?cs = "drop_duplicate_names ?raw"
  have "i = j" if "i \<in> set (load_indices ?cs)" "j \<in> set (load_indices ?cs)"
      "pm_name (cd_manifest (?cs ! i)) = pm_name (cd_manifest (?cs ! j))" for i j
  proof -
    have in_cs: "k < length ?raw \<and> cd_valid (?cs ! k)" if "k \<in> set (load_indices ?cs)" for k
      using load_indices_valid [OF that] load_indices_bound [OF that] drop_duplicate_names_spec(1) by simp
    note i = in_cs [OF that(1)] and j = in_cs [OF that(2)]
    have "pm_name (cd_manifest (?raw ! i)) = pm_name (cd_manifest (?raw ! j))"
      using i j drop_duplicate_names_spec(2) [of i ?raw] drop_duplicate_names_spec(2) [of j ?raw] that(3)
      by simp
    then show ?thesis
      using i j drop_duplicate_names_spec(3) [of i ?raw] drop_duplicate_names_spec(3) [of j ?raw] by metis
  qed
  then have "inj_on (\<lambda>i. pm_name (cd_manifest (?cs ! i))) (set (load_indices ?cs))"
    by (auto simp: inj_on_def)
  then show ?thesis
    using load_indices_spec(1) by (simp add: survivors_def TopoSort_def distinct_map comp_def)
qed

section \<open>The loaded list: lemmas\<close>

lemma load_plugin_simps [simp]:
  "lp_manifest (load_plugin env i m) = m" "lp_handle (load_plugin env i m) = of_nat i"
  by (simp_all add: load_plugin_def Let_def split: option.splits)

lemma load_one_simps [simp]:
  "lp_manifest (fst (load_one env p)) = lp_manifest p" "lp_handle (fst (load_one env p)) = lp_handle p"
  by (simp_all add: load_one_def Let_def)

lemma survivors_Nil [simp]: "survivors rt [] = []"
proof -
  have "set (load_indices []) = {}" using load_indices_spec(2) [of "[]" "load_ok []"] by simp
  then have "TopoSort [] = []" by (simp only: TopoSort_def set_empty list.size list.map)
  then show ?thesis by (simp add: survivors_def make_candidates_def drop_duplicate_names_def)
qed

lemma load_plugins_simps [simp]:
  "length (load_plugins env ms) = length ms"
  "i < length ms \<Longrightarrow> load_plugins env ms ! i = load_plugin env i (ms ! i)"
  by (simp_all add: load_plugins_def)

lemma fst_DiscoverAndLoad:
  "fst (DiscoverAndLoad env ms) =
     (if le_dirOk env
      then map (\<lambda>p. fst (load_one env p)) (load_plugins env (map cd_manifest (survivors (le_runtime env) ms)))
      else [])"
proof (cases "le_dirOk env \<and> survivors (le_runtime env) ms \<noteq> []")
  case True
  then have "ms \<noteq> []" by (metis survivors_Nil)
  then show ?thesis
    using True by (simp only: DiscoverAndLoad_def Let_def load_wave_def prod.case fst_conv if_False if_True
        not_True_eq_False simp_thms)
next
  case False
  have "load_plugins env [] = []" by (simp only: load_plugins_def list.size upt_conv_Nil list.map order_refl)
  then show ?thesis
    using False by (cases "le_dirOk env"; cases "ms = []")
      (simp_all only: DiscoverAndLoad_def Let_def fst_conv if_False if_True not_True_eq_False
        not_False_eq_True simp_thms list.map survivors_Nil)
qed

lemma length_DiscoverAndLoad:
  "length (fst (DiscoverAndLoad env ms)) = (if le_dirOk env then length (survivors (le_runtime env) ms) else 0)"
  by (simp add: fst_DiscoverAndLoad)

lemma nth_DiscoverAndLoad:
  assumes "i < length (fst (DiscoverAndLoad env ms))"
  shows "lp_manifest (fst (DiscoverAndLoad env ms) ! i) = cd_manifest (survivors (le_runtime env) ms ! i)"
    "lp_handle (fst (DiscoverAndLoad env ms) ! i) = of_nat i"
  using assms by (simp_all add: fst_DiscoverAndLoad split: if_splits)

lemma snd_DiscoverAndLoad:
  "snd (DiscoverAndLoad env ms) =
     (if \<not> le_dirOk env then []
      else if ms = [] then [FirePostLoad, FirePostPostLoad]
      else if survivors (le_runtime env) ms = [] then []
      else (let ps = load_plugins env (map cd_manifest (survivors (le_runtime env) ms))
            in open_streams ps @ preload_wave env ps @ snd (load_wave env ps)
                 @ [OverlayBuilt, OverlayReady, FirePostLoad, FirePostPostLoad]))"
  unfolding DiscoverAndLoad_def Let_def by (simp only: case_prod_beta snd_conv split: if_split) simp

lemma load_one_exports [simp]: "lp_exports (fst (load_one env p)) = lp_exports p"
  by (simp add: load_one_def Let_def)

lemma load_plugins_Nil [simp]: "load_plugins env [] = []"
  by (simp add: load_plugins_def)

lemma loaded_ex:
  "(\<exists>p \<in> set (fst (DiscoverAndLoad env ms)). Q (lp_name p) (lp_exports p)) \<longleftrightarrow>
     le_dirOk env \<and> (\<exists>p \<in> set (load_plugins env (map cd_manifest (survivors (le_runtime env) ms))).
        Q (lp_name p) (lp_exports p))"
  by (simp add: fst_DiscoverAndLoad)

lemma load_one_events:
  "ev \<in> set (snd (load_one env p)) \<longleftrightarrow> IsPluginEnabled (le_lo env) (lp_name p) \<and> has_load (lp_exports p)
     \<and> (ev = LoadCalled (lp_name p)
        \<or> ev = PdbPopulated (lp_name p) \<and> le_call env (LoadCalled (lp_name p)) = Some True
            \<and> lp_module p \<and> lp_filePath p \<noteq> [])"
  by (auto simp: load_one_def Let_def)

lemma distinct_loaded_names: "distinct (map lp_name (fst (DiscoverAndLoad env ms)))"
proof (cases "le_dirOk env")
  case True
  have "map lp_name (fst (DiscoverAndLoad env ms)) = map (\<lambda>c. pm_name (cd_manifest c)) (survivors (le_runtime env) ms)"
    by (rule nth_equalityI) (simp_all add: length_DiscoverAndLoad nth_DiscoverAndLoad True)
  then show ?thesis using survivors_names_distinct by simp
qed (simp add: fst_DiscoverAndLoad)

lemma loaded_name_inj:
  "distinct (map lp_name ps) \<Longrightarrow> p \<in> set ps \<Longrightarrow> q \<in> set ps \<Longrightarrow> lp_name p = lp_name q \<Longrightarrow> p = q"
  by (auto simp: distinct_map inj_on_def)

lemma length_loaded_le: "length (fst (DiscoverAndLoad env ms)) \<le> length ms"
proof -
  let ?cs = "drop_duplicate_names (make_candidates (le_runtime env) ms)"
  have "set (load_indices ?cs) \<subseteq> {..<length ?cs}" using load_indices_bound by auto
  then have "length (load_indices ?cs) \<le> length ?cs"
    using load_indices_spec(1) [of ?cs "load_ok ?cs"]
    by (metis card_lessThan card_mono distinct_card finite_lessThan)
  then have "length (survivors (le_runtime env) ms) \<le> length ms"
    by (simp add: survivors_def TopoSort_def drop_duplicate_names_spec(1) make_candidates_def)
  then show ?thesis by (simp add: length_DiscoverAndLoad)
qed

section \<open>Properties\<close>

text \<open>A manifest and an environment the concrete instances below start from.\<close>

definition bare_manifest :: "string \<Rightarrow> manifest_dependency list \<Rightarrow> plugin_manifest" where
  "bare_manifest n deps =
     \<lparr>pm_name = n, pm_displayName = n, pm_author = ''kcdx'', pm_description = [], pm_url = [],
      pm_supportEmail = [], pm_version = 0x01000000, pm_kcdxMinVersion = 0, pm_supports = [],
      pm_dependencies = deps, pm_testNames = [], pm_testSuiteOnly = False, pm_logLevel = 0,
      pm_defaultPosition = [], pm_defaultPriority = 50, pm_onChangedFunction = WarnAndTry,
      pm_dllEntrypointRel = [], pm_luaEntrypointsRel = [], pm_luaAfterEntrypointsRel = [],
      pm_assetsEntrypointRel = [], pm_folderPath = n, pm_tomlPath = n\<rparr>"

definition one_dll_env :: "lo_state \<Rightarrow> loader_env" where
  "one_dll_env s =
     \<lparr>le_dirOk = True, le_runtime = ''1.5'', le_lo = s, le_join = (\<lambda>a b. a @ ''/'' @ b),
      le_exists = (\<lambda>p. True), le_rootDlls = (\<lambda>d. [d @ ''.dll'']),
      le_loadLibrary = (\<lambda>p. Some \<lparr>has_preload = True, has_load = True, has_post = True\<rparr>),
      le_call = (\<lambda>e. Some True)\<rparr>"

definition need_b :: manifest_dependency where
  "need_b = \<lparr>dep_name = ''b'', dep_minVersion = 0x00010000, dep_optional = False\<rparr>"

lemma two_plugins:
  "fst (DiscoverAndLoad (one_dll_env \<lparr>g_userOverrides = Map.empty, g_effective = Map.empty\<rparr>)
      [bare_manifest ''a'' [need_b], bare_manifest ''b'' []]) =
   [\<lparr>lp_manifest = bare_manifest ''b'' [], lp_filePath = ''b.dll'', lp_module = True, lp_handle = 0,
     lp_exports = \<lparr>has_preload = True, has_load = True, has_post = True\<rparr>, lp_loaded = True\<rparr>,
    \<lparr>lp_manifest = bare_manifest ''a'' [need_b], lp_filePath = ''a.dll'', lp_module = True, lp_handle = 1,
     lp_exports = \<lparr>has_preload = True, has_load = True, has_post = True\<rparr>, lp_loaded = True\<rparr>]"
  by code_simp



lemma round_trip_at:
  assumes "FindByName ps n = Some q" "lp_handle q = of_nat i" "unat (of_nat i :: u32) = i"
    and "(of_nat i :: u32) \<noteq> kcdxInvalidPluginHandle" "i < length ps" "q = ps ! i"
  shows "NameForHandle ps (HandleOf ps n) = lp_name q"
    "AuthorForHandle ps (HandleOf ps n) = pm_author (lp_manifest q)"
  using assms by (simp_all add: HandleOf_def NameForHandle_def AuthorForHandle_def del: unat_of_nat)

text \<open>Handles: names in the loaded list are unique, and mapping a loaded plugin's name
  to its handle and back gives the plugin's own name and author.\<close>

theorem handle_roundtrip:
  assumes "p \<in> set (fst (DiscoverAndLoad env ms))" and "length ms < 0xFFFFFFFF"
  shows "NameForHandle (fst (DiscoverAndLoad env ms)) (HandleOf (fst (DiscoverAndLoad env ms)) (lp_name p)) = lp_name p
    \<and> AuthorForHandle (fst (DiscoverAndLoad env ms)) (HandleOf (fst (DiscoverAndLoad env ms)) (lp_name p))
        = pm_author (lp_manifest p)"
proof -
  let ?ps = "fst (DiscoverAndLoad env ms)"
  obtain q where q: "FindByName ?ps (lp_name p) = Some q"
    using assms(1) by (cases "FindByName ?ps (lp_name p)") (auto simp: FindByName_def find_None_iff)
  then obtain i where i: "i < length ?ps" "q = ?ps ! i" "lp_name q = lp_name p"
    by (auto simp: FindByName_def find_Some_iff)
  have same: "lp_manifest p = lp_manifest q"
    using distinct_loaded_names assms(1) i nth_mem [OF i(1)] by (metis (no_types, lifting) loaded_name_inj)
  have small: "i < 0xFFFFFFFF"
    using i(1) length_loaded_le [of env ms] assms(2) by linarith
  have idx: "unat (of_nat i :: u32) = i" by (rule of_nat_inverse [OF refl]) (use small in simp)
  moreover have "(of_nat i :: u32) \<noteq> kcdxInvalidPluginHandle"
  proof
    assume "(of_nat i :: u32) = kcdxInvalidPluginHandle"
    then have "unat (of_nat i :: u32) = unat kcdxInvalidPluginHandle" by simp
    also have "unat kcdxInvalidPluginHandle = 0xFFFFFFFF" by (simp add: kcdxInvalidPluginHandle_def)
    finally show False using idx small by simp
  qed
  moreover have "lp_handle q = of_nat i" using nth_DiscoverAndLoad(2) [OF i(1)] i(2) by simp
  ultimately show ?thesis
    using round_trip_at [OF q] i same by metis
qed

theorem handle_roundtrip_witness:
  "NameForHandle (fst (DiscoverAndLoad (one_dll_env \<lparr>g_userOverrides = Map.empty, g_effective = Map.empty\<rparr>)
        [bare_manifest ''a'' [need_b], bare_manifest ''b'' []]))
      (HandleOf (fst (DiscoverAndLoad (one_dll_env \<lparr>g_userOverrides = Map.empty, g_effective = Map.empty\<rparr>)
        [bare_manifest ''a'' [need_b], bare_manifest ''b'' []])) ''a'') = ''a''"
  using handle_roundtrip [of "fst (DiscoverAndLoad (one_dll_env \<lparr>g_userOverrides = Map.empty, g_effective = Map.empty\<rparr>)
        [bare_manifest ''a'' [need_b], bare_manifest ''b'' []]) ! 1"
      "one_dll_env \<lparr>g_userOverrides = Map.empty, g_effective = Map.empty\<rparr>"
      "[bare_manifest ''a'' [need_b], bare_manifest ''b'' []]"]
  unfolding two_plugins by (simp add: bare_manifest_def)



end
