(* ===== verification/Pak_Mods.thy ===== *)
theory Pak_Mods
  imports Load_Order Mod_Manifest
begin

text \<open>
  src/mod_absorb/pak_mod_registry.cpp and the pak-mod part of LoadAllConfigs in src/config.cpp:
  the parse of mod_order.txt, the discovery of pak mods in mods/, kcdx-plugins/ and the Steam
  Workshop folder, their mod_order.txt positions, and the version gate.

  The registry (a file-scope vector) is passed as a list.  A directory is the list of entries its
  iterator yields, in that order; names are the UTF-8 the code converts them to.
\<close>

section \<open>mod_order.txt\<close>

definition TrimWs :: "string \<Rightarrow> string" where
  "TrimWs s = trim_by is_space s"

definition mod_order_line :: "string \<Rightarrow> (string \<rightharpoonup> int) \<times> int \<Rightarrow> (string \<rightharpoonup> int) \<times> int" where
  "mod_order_line line st =
     (let trimmed = TrimWs line; (out, idx) = st
      in if trimmed = [] then st
         else if hd trimmed = CHR ''#'' then st
         else (emplace trimmed idx out, idx + 1))"

definition ParseModOrderText :: "string \<Rightarrow> (string \<rightharpoonup> int)" where
  "ParseModOrderText txt = fst (fold mod_order_line (getlines txt) (Map.empty, 0))"

definition ReadModOrder :: "disk_file \<Rightarrow> (string \<rightharpoonup> int)" where
  "ReadModOrder f =
     (case f of Absent \<Rightarrow> Map.empty | Unreadable \<Rightarrow> Map.empty | Content t \<Rightarrow> ParseModOrderText t)"

section \<open>Discovery\<close>

datatype node = NFile disk_file | NDir "entry list"
and entry = Entry string node

fun is_dir :: "node \<Rightarrow> bool" where
  "is_dir (NFile f) = False"
| "is_dir (NDir es) = True"

fun entries :: "node \<Rightarrow> entry list" where
  "entries (NFile f) = []"
| "entries (NDir es) = es"

text \<open>Looking a file up in a folder; file names compare without case on this platform.\<close>

definition lower_char :: "char \<Rightarrow> char" where
  "lower_char c = (if CHR ''A'' \<le> c \<and> c \<le> CHR ''Z'' then char_of ((of_char c :: nat) + 32) else c)"

abbreviation lower :: "string \<Rightarrow> string" where
  "lower s \<equiv> map lower_char s"

fun lookup_file :: "string \<Rightarrow> entry list \<Rightarrow> node option" where
  "lookup_file q [] = None"
| "lookup_file q (Entry n d # es) = (if lower n = lower q then Some d else lookup_file q es)"

text \<open>What an input stream opened on the node reads.\<close>

fun open_text :: "node \<Rightarrow> string option" where
  "open_text (NFile (Content t)) = Some t"
| "open_text (NFile Unreadable) = None"
| "open_text (NFile Absent) = None"
| "open_text (NDir es) = None"

definition path_join :: "string \<Rightarrow> string \<Rightarrow> string" where
  "path_join a b = a @ [CHR 0x5C] @ b"

definition is_hidden :: "string \<Rightarrow> bool" where
  "is_hidden name \<longleftrightarrow> name \<noteq> [] \<and> hd name = CHR ''.''"

text \<open>The registry entry for a folder with a mod.manifest, if it gets one.\<close>

definition make_pak_mod :: "bool \<Rightarrow> bool \<Rightarrow> string \<Rightarrow> string \<Rightarrow> node \<Rightarrow> pak_mod option" where
  "make_pak_mod fromModsDir fromWorkshop p name manifest =
     (let m = ReadModManifest (open_text manifest);
          modId = (if mm_modId m \<noteq> [] then mm_modId m else name)
      in if \<not> mm_ok m then None
         else if modId = [] then None
         else Some \<lparr>pk_modId = modId, pk_rootPathSlash = p @ ''/'', pk_rootPathNoSlash = p,
                    pk_manifest = m, pk_fromModsDir = fromModsDir, pk_fromWorkshop = fromWorkshop,
                    pk_modOrderIndex = -1\<rparr>)"

text \<open>The registry entries a walk appends, in order.\<close>

fun Discover :: "bool \<Rightarrow> string \<Rightarrow> node \<Rightarrow> pak_mod list"
  and Discover_entries :: "bool \<Rightarrow> string \<Rightarrow> entry list \<Rightarrow> pak_mod list"
  and Discover_entry :: "bool \<Rightarrow> string \<Rightarrow> entry \<Rightarrow> pak_mod list" where
  "Discover fromMods root (NFile f) = []"
| "Discover fromMods root (NDir es) = Discover_entries fromMods root es"
| "Discover_entries fromMods root [] = []"
| "Discover_entries fromMods root (e # es) =
     Discover_entry fromMods root e @ Discover_entries fromMods root es"
| "Discover_entry fromMods root (Entry name d) =
     (if is_hidden name then []
      else if \<not> is_dir d then []
      else if lookup_file ''kcdx.toml'' (entries d) \<noteq> None then []
      else (case lookup_file ''mod.manifest'' (entries d) of
              Some manifest \<Rightarrow>
                (case make_pak_mod fromMods False (path_join root name) name manifest of
                   None \<Rightarrow> [] | Some m \<Rightarrow> [m])
            | None \<Rightarrow> Discover fromMods (path_join root name) d))"

fun workshop_entry :: "string \<Rightarrow> entry \<Rightarrow> pak_mod list" where
  "workshop_entry root (Entry name d) =
     (if is_hidden name then []
      else if \<not> is_dir d then []
      else if lookup_file ''kcdx.toml'' (entries d) \<noteq> None then []
      else (case lookup_file ''mod.manifest'' (entries d) of
              None \<Rightarrow> []
            | Some manifest \<Rightarrow>
                (case make_pak_mod False True (path_join root name) name manifest of
                   None \<Rightarrow> [] | Some m \<Rightarrow> [m])))"

text \<open>The path is empty when no Steam library was found; a root that is absent has no node.\<close>

definition DiscoverWorkshop :: "string \<Rightarrow> node option \<Rightarrow> pak_mod list" where
  "DiscoverWorkshop root d =
     (if root = [] then []
      else (case d of None \<Rightarrow> []
            | Some d \<Rightarrow> if \<not> is_dir d then [] else concat (map (workshop_entry root) (entries d))))"

definition apply_mod_order :: "(string \<rightharpoonup> int) \<Rightarrow> pak_mod \<Rightarrow> pak_mod" where
  "apply_mod_order orderMap p =
     (case orderMap (pk_modId p) of None \<Rightarrow> p | Some i \<Rightarrow> p\<lparr>pk_modOrderIndex := i\<rparr>)"

text \<open>The pak-mod block of LoadAllConfigs.\<close>

record mod_roots =
  mr_modsPath :: string
  mr_mods :: "node option"
  mr_pluginsPath :: string
  mr_plugins :: "node option"
  mr_workshopPath :: string
  mr_workshop :: "node option"
  mr_orderFile :: disk_file

definition discover_root :: "bool \<Rightarrow> string \<Rightarrow> node option \<Rightarrow> pak_mod list" where
  "discover_root fromMods path d = (case d of None \<Rightarrow> [] | Some d \<Rightarrow> Discover fromMods path d)"

definition DiscoverPakMods :: "mod_roots \<Rightarrow> pak_mod list" where
  "DiscoverPakMods r =
     map (apply_mod_order (ReadModOrder (mr_orderFile r)))
       (discover_root True (mr_modsPath r) (mr_mods r)
        @ discover_root False (mr_pluginsPath r) (mr_plugins r)
        @ DiscoverWorkshop (mr_workshopPath r) (mr_workshop r))"

section \<open>The version gate\<close>

text \<open>The result is the load-order state and the number of mods disabled.\<close>

definition gate_one :: "string \<Rightarrow> pak_mod \<Rightarrow> lo_state \<times> nat \<Rightarrow> lo_state \<times> nat" where
  "gate_one runtime m st =
     (let (s, disabled) = st
      in case DecideModCompat (pk_manifest m) runtime of
           Incompatible \<Rightarrow> (SetEngineAccepted (LoadOrderNameFor (pk_modId m)) False s, disabled + 1)
         | UnknownGameVersion \<Rightarrow> (s, disabled)
         | Compatible \<Rightarrow> (s, disabled))"

definition ApplyVersionGate :: "string \<Rightarrow> pak_mod list \<Rightarrow> lo_state \<Rightarrow> lo_state \<times> nat" where
  "ApplyVersionGate runtime registry s = fold (gate_one runtime) registry (s, 0)"

section \<open>Lemmas\<close>

abbreviation pak_name :: "pak_mod \<Rightarrow> string" where
  "pak_name p \<equiv> LoadOrderNameFor (pk_modId p)"

definition incompatible :: "string \<Rightarrow> pak_mod \<Rightarrow> bool" where
  "incompatible runtime p \<longleftrightarrow> DecideModCompat (pk_manifest p) runtime = Incompatible"

lemma ApplyVersionGate_eq:
  "ApplyVersionGate runtime reg s =
     (fold (\<lambda>n. SetEngineAccepted n False) (map pak_name (filter (incompatible runtime) reg)) s,
      length (filter (incompatible runtime) reg))"
proof -
  have "fold (gate_one runtime) reg (s, k) =
     (fold (\<lambda>n. SetEngineAccepted n False) (map pak_name (filter (incompatible runtime) reg)) s,
      k + length (filter (incompatible runtime) reg))" for s k
    by (induction reg arbitrary: s k) (auto simp: gate_one_def incompatible_def split: CompatResult.splits)
  then show ?thesis by (simp add: ApplyVersionGate_def)
qed

text \<open>Every registered mod has a usable manifest and an id, and starts without a position.\<close>

definition registered_ok :: "pak_mod \<Rightarrow> bool" where
  "registered_ok m \<longleftrightarrow> mm_ok (pk_manifest m) \<and> pk_modId m \<noteq> [] \<and> pk_modOrderIndex m = -1
     \<and> pk_rootPathSlash m = pk_rootPathNoSlash m @ ''/'' \<and> (pk_fromModsDir m \<longrightarrow> \<not> pk_fromWorkshop m)"

lemma make_pak_mod_ok: "make_pak_mod a b p name n = Some m \<Longrightarrow> a \<longrightarrow> \<not> b \<Longrightarrow> registered_ok m"
  by (auto simp: make_pak_mod_def registered_ok_def Let_def split: if_splits)

lemma Discover_ok:
  "m \<in> set (Discover b root d) \<Longrightarrow> registered_ok m"
  "m \<in> set (Discover_entries b root es) \<Longrightarrow> registered_ok m"
  "m \<in> set (Discover_entry b root e) \<Longrightarrow> registered_ok m"
  by (induction b root d and b root es and b root e rule: Discover_Discover_entries_Discover_entry.induct)
    (auto simp: make_pak_mod_ok split: if_splits option.splits)

lemma discover_root_ok: "m \<in> set (discover_root b path d) \<Longrightarrow> registered_ok m"
  using Discover_ok(1) by (auto simp: discover_root_def split: option.splits)

lemma DiscoverWorkshop_ok: "m \<in> set (DiscoverWorkshop root d) \<Longrightarrow> registered_ok m \<and> pk_fromWorkshop m"
proof -
  have "m \<in> set (workshop_entry root e) \<Longrightarrow> registered_ok m \<and> pk_fromWorkshop m" for e
    by (cases e) (auto simp: make_pak_mod_ok make_pak_mod_def Let_def registered_ok_def split: if_splits option.splits)
  then show "m \<in> set (DiscoverWorkshop root d) \<Longrightarrow> ?thesis"
    by (auto simp: DiscoverWorkshop_def split: if_splits option.splits)
qed

section \<open>Properties\<close>

text \<open>The version gate disables exactly the registered pak mods whose restriction no
  known game version satisfies: every other name keeps its state, a mod with no load-order row is
  untouched, the run order does not move, and the count returned is the number of mods the gate
  found incompatible.\<close>

theorem version_gate_exact:
  "(IsPluginEnabled (fst (ApplyVersionGate runtime reg s)) n \<longleftrightarrow>
      IsPluginEnabled s n \<and>
      \<not> (known_row s n \<and> (\<exists>p \<in> set reg. LoadOrderNameFor (pk_modId p) = n
           \<and> DecideModCompat (pk_manifest p) runtime = Incompatible)))
   \<and> RunsBefore (fst (ApplyVersionGate runtime reg s)) = RunsBefore s
   \<and> snd (ApplyVersionGate runtime reg s)
       = length (filter (\<lambda>p. DecideModCompat (pk_manifest p) runtime = Incompatible) reg)"
proof (intro conjI)
  show "snd (ApplyVersionGate runtime reg s)
       = length (filter (\<lambda>p. DecideModCompat (pk_manifest p) runtime = Incompatible) reg)"
    unfolding ApplyVersionGate_eq incompatible_def by simp
  show "RunsBefore (fst (ApplyVersionGate runtime reg s)) = RunsBefore s"
    unfolding ApplyVersionGate_eq fst_conv by (rule gate.gate_fold_order)
qed (unfold ApplyVersionGate_eq fst_conv gate.gate_fold_reject, auto simp: incompatible_def)

end
