(* ===== verification/Order_Persist.thy ===== *)
theory Order_Persist
  imports Pak_Mods
begin

text \<open>
  src/mod_absorb/order_persist.cpp: what is written back to load_order.toml (rows are added, never
  changed) and to mods/mod_order.txt (rewritten only when the resolved sequence of pak mods is not
  the one on disk).  A file is a \<open>disk_file\<close>; how a write ends is a parameter.
\<close>

section \<open>Files\<close>

text \<open>The result is (read, existed, text).\<close>

definition ReadFileText :: "disk_file \<Rightarrow> bool \<times> bool \<times> string" where
  "ReadFileText f =
     (case f of Absent \<Rightarrow> (True, False, [])
      | Unreadable \<Rightarrow> (False, True, [])
      | Content t \<Rightarrow> (True, True, t))"

definition ws4 :: "char \<Rightarrow> bool" where
  "ws4 c \<longleftrightarrow> c \<in> {CHR '' '', CHR 0x09, CHR 0x0D, CHR 0x0A}"

definition Trim4 :: "string \<Rightarrow> string" where
  "Trim4 s = trim_by ws4 s"

section \<open>load_order.toml\<close>

record resolved_row =
  rr_loadOrderName :: string
  rr_humanName :: string
  rr_isPakMod :: bool

abbreviation quote :: char where
  "quote \<equiv> CHR 0x22"

text \<open>The name on a \<open>name = "value"\<close> line.\<close>

definition row_name_of_line :: "string \<Rightarrow> string option" where
  "row_name_of_line line =
     (let t = Trim4 line
      in if t = [] \<or> hd t = CHR ''#'' then None
         else if \<not> starts_with ''name'' t then None
         else (case str_find t ''='' 4 of
                 None \<Rightarrow> None
               | Some eq \<Rightarrow>
                   if Trim4 (take (eq - 4) (drop 4 t)) \<noteq> [] then None
                   else (case str_find t [quote] (eq + 1) of
                           None \<Rightarrow> None
                         | Some q1 \<Rightarrow>
                             (case str_find t [quote] (q1 + 1) of
                                None \<Rightarrow> None
                              | Some q2 \<Rightarrow> Some (take (q2 - q1 - 1) (drop (q1 + 1) t))))))"

definition ExistingRowNames :: "string \<Rightarrow> string list" where
  "ExistingRowNames txt = List.map_filter row_name_of_line (getlines txt)"

definition one_line :: "string \<Rightarrow> string" where
  "one_line s = map (\<lambda>c. if c = nl \<or> c = CHR 0x0D then CHR '' '' else c) s"

definition row_text :: "resolved_row \<Rightarrow> string" where
  "row_text r =
     ''[[plugin]]'' @ [nl] @ ''name    = '' @ [quote] @ rr_loadOrderName r @ [quote] @
     (if rr_isPakMod r \<and> rr_humanName r \<noteq> [] then ''  # '' @ one_line (rr_humanName r) else [])
     @ [nl]"

text \<open>The append loop: names already present, the text so far, and the names added.\<close>

record merge_state =
  mg_have :: "string set"
  mg_out :: string
  mg_added :: "string list"
  mg_firstAppend :: bool

definition merge_row :: "bool \<Rightarrow> resolved_row \<Rightarrow> merge_state \<Rightarrow> merge_state" where
  "merge_row needsSeparatorBlank r st =
     (if rr_loadOrderName r = [] then st
      else if rr_loadOrderName r \<in> mg_have st then st
      else \<lparr>mg_have = insert (rr_loadOrderName r) (mg_have st),
            mg_out = mg_out st @ (if mg_firstAppend st \<and> needsSeparatorBlank then [nl] else [])
                       @ row_text r,
            mg_added = mg_added st @ [rr_loadOrderName r],
            mg_firstAppend = False\<rparr>)"

text \<open>The merged text and the names of the rows added.\<close>

definition MergeLoadOrderToml :: "string \<Rightarrow> resolved_row list \<Rightarrow> string \<times> string list" where
  "MergeLoadOrderToml existing rows =
     (let out = (if existing \<noteq> [] \<and> last existing \<noteq> nl then existing @ [nl] else existing);
          st = fold (merge_row (existing \<noteq> [])) rows
                 \<lparr>mg_have = set (ExistingRowNames existing), mg_out = out, mg_added = [],
                  mg_firstAppend = True\<rparr>
      in (mg_out st, mg_added st))"

definition resolved_rows :: "plugin_manifest list \<Rightarrow> pak_mod list \<Rightarrow> resolved_row list" where
  "resolved_rows manifests registry =
     map (\<lambda>m. \<lparr>rr_loadOrderName = pm_name m, rr_humanName = [], rr_isPakMod = False\<rparr>)
       (filter (\<lambda>m. pm_name m \<noteq> []) manifests)
     @ map (\<lambda>p. \<lparr>rr_loadOrderName = LoadOrderNameFor (pk_modId p),
                  rr_humanName = mm_name (pk_manifest p), rr_isPakMod = True\<rparr>) registry"

definition WriteLoadOrderToml ::
    "write_outcome \<Rightarrow> plugin_manifest list \<Rightarrow> pak_mod list \<Rightarrow> disk_file \<Rightarrow> disk_file" where
  "WriteLoadOrderToml w manifests registry file =
     (let (ok, existed, existing) = ReadFileText file
      in if \<not> ok then file
         else (let (merged, added) = MergeLoadOrderToml existing (resolved_rows manifests registry)
               in if merged = existing then file else fst (disk_write w merged file)))"

section \<open>mod_order.txt\<close>

definition mod_order_header :: string where
  "mod_order_header =
     ''# managed by kcdx '' @ [CHR 0xE2, CHR 0x80, CHR 0x94] @
     '' order reflects kcdx'' @ [CHR 0x27] @ ''s resolved load order.'' @ [nl] @
     ''# One mod id per line; file order is the load/mount order. kcdx'' @ [nl] @
     ''# rewrites this only when the resolved order changes.'' @ [nl]"

definition SerializeModOrderText :: "string list \<Rightarrow> string" where
  "SerializeModOrderText order = mod_order_header @ concat (map (\<lambda>i. i @ [nl]) order)"

text \<open>
  The sequence rebuilt from the map: position \<open>i\<close> holds the id with index \<open>i\<close>.  The indices of
  \<open>ParseModOrderText\<close> are those of the distinct surviving lines, so the map is given by that list
  of ids in order of first appearance.
\<close>

definition mod_ids :: "string \<Rightarrow> string list" where
  "mod_ids txt = remdups (filter (\<lambda>t. t \<noteq> [] \<and> hd t \<noteq> CHR ''#'') (map TrimWs (getlines txt)))"

definition place :: "(string \<rightharpoonup> int) \<Rightarrow> string \<Rightarrow> string list \<Rightarrow> string list" where
  "place m k seq = seq[nat (the (m k)) := k]"

definition ModOrderDiffers :: "string \<Rightarrow> string list \<Rightarrow> bool" where
  "ModOrderDiffers existing order =
     (let diskMap = ParseModOrderText existing;
          keys = mod_ids existing;
          indexOk = list_all (\<lambda>k. 0 \<le> the (diskMap k) \<and> the (diskMap k) < int (length keys)) keys;
          diskSeq = fold (place diskMap) keys (replicate (length keys) [])
      in if \<not> indexOk then True else diskSeq \<noteq> order)"

definition strip_prefix :: "string \<Rightarrow> string" where
  "strip_prefix key = (if starts_with ''mods.'' key then drop 5 key else key)"

definition resolved_order :: "lo_state \<Rightarrow> pak_mod list \<Rightarrow> string list" where
  "resolved_order s registry =
     map strip_prefix (sort_key (SortKey s) (map (\<lambda>p. LoadOrderNameFor (pk_modId p)) registry))"

definition WriteModOrderTxt :: "write_outcome \<Rightarrow> lo_state \<Rightarrow> pak_mod list \<Rightarrow> disk_file \<Rightarrow> disk_file" where
  "WriteModOrderTxt w s registry file =
     (let order = resolved_order s registry
      in if order = [] then file
         else (let (ok, existed, txt) = ReadFileText file;
                   existing = (if ok then txt else [])
               in if \<not> ModOrderDiffers existing order then file
                  else fst (disk_write w (SerializeModOrderText order) file)))"

text \<open>The state of the two files after the boot's persist step.\<close>

definition PersistResolvedOrder ::
    "write_outcome \<Rightarrow> write_outcome \<Rightarrow> lo_state \<Rightarrow> plugin_manifest list \<Rightarrow> pak_mod list
      \<Rightarrow> disk_file \<times> disk_file \<Rightarrow> disk_file \<times> disk_file" where
  "PersistResolvedOrder w1 w2 s manifests registry files =
     (WriteLoadOrderToml w1 manifests registry (fst files), WriteModOrderTxt w2 s registry (snd files))"

section \<open>Parsing and serializing the sequence: lemmas\<close>

definition order_lines :: "string \<Rightarrow> string list" where
  "order_lines txt = filter (\<lambda>t. t \<noteq> [] \<and> hd t \<noteq> CHR ''#'') (map TrimWs (getlines txt))"

definition position :: "'a \<Rightarrow> 'a list \<Rightarrow> int" where
  "position k xs = int (length (takeWhile (\<lambda>x. x \<noteq> k) xs))"

lemma position_nth: "distinct xs \<Longrightarrow> i < length xs \<Longrightarrow> position (xs ! i) xs = int i"
  by (induction xs arbitrary: i) (auto simp: position_def nth_Cons split: nat.splits)

lemma position_less: "k \<in> set xs \<Longrightarrow> position k xs < int (length xs)"
  by (induction xs) (auto simp: position_def)

lemma nth_position: "k \<in> set xs \<Longrightarrow> xs ! nat (position k xs) = k"
  by (induction xs) (auto simp: position_def)

lemma fold_mod_order_line:
  "fst (fold mod_order_line ls (m, i)) k =
     (case m k of
        Some v \<Rightarrow> Some v
      | None \<Rightarrow> (let L = filter (\<lambda>t. t \<noteq> [] \<and> hd t \<noteq> CHR ''#'') (map TrimWs ls)
                 in if k \<in> set L then Some (i + position k L) else None))"
proof (induction ls arbitrary: m i)
  case (Cons l ls)
  show ?case
  proof (cases "TrimWs l = [] \<or> hd (TrimWs l) = CHR ''#''")
    case False
    then have "mod_order_line l (m, i) = (emplace (TrimWs l) i m, i + 1)"
      by (simp add: mod_order_line_def)
    then show ?thesis
      using False Cons.IH
      by (auto simp: emplace_def position_def Let_def split: option.splits)
  next
    case True
    then have "mod_order_line l (m, i) = (m, i)" by (auto simp: mod_order_line_def Let_def)
    then show ?thesis using True Cons.IH by (auto simp: Let_def split: option.splits)
  qed
qed (simp split: option.splits)

lemma ParseModOrderText_eq:
  "ParseModOrderText txt k = (if k \<in> set (order_lines txt) then Some (position k (order_lines txt)) else None)"
  by (simp add: ParseModOrderText_def fold_mod_order_line order_lines_def Let_def)

lemma place_all:
  assumes "distinct keys" "inj_on (\<lambda>k. nat (the (m k))) (set keys)"
    and "\<forall>k \<in> set keys. nat (the (m k)) < length seq"
  shows "length (fold (place m) keys seq) = length seq"
    "k \<in> set keys \<Longrightarrow> fold (place m) keys seq ! nat (the (m k)) = k"
proof -
  have len: "length (fold (place m) ks sq) = length sq" for ks sq
    by (induction ks arbitrary: sq) (simp_all add: place_def)
  have keep: "i \<notin> (\<lambda>k. nat (the (m k))) ` set ks \<Longrightarrow> fold (place m) ks sq ! i = sq ! i" for ks sq i
    by (induction ks arbitrary: sq) (auto simp: place_def)
  show "length (fold (place m) keys seq) = length seq" by (rule len)
  show "k \<in> set keys \<Longrightarrow> fold (place m) keys seq ! nat (the (m k)) = k"
    using assms
  proof (induction keys arbitrary: seq)
    case (Cons j ks)
    show ?case
    proof (cases "k \<in> set ks")
      case True
      then show ?thesis using Cons by (simp add: place_def)
    next
      case False
      then have "k = j" using Cons.prems by simp
      have "nat (the (m k)) \<notin> (\<lambda>k. nat (the (m k))) ` set ks"
        using Cons.prems False by (auto simp: \<open>k = j\<close> dest: inj_onD)
      then have "fold (place m) (j # ks) seq ! nat (the (m k)) = place m j seq ! nat (the (m k))"
        by (simp add: keep)
      also have "\<dots> = k" using Cons.prems \<open>k = j\<close> by (simp add: place_def)
      finally show ?thesis .
    qed
  qed simp
qed

lemma mod_ids_eq: "mod_ids txt = remdups (order_lines txt)"
  by (simp add: mod_ids_def order_lines_def)

text \<open>When the text is not judged different, its index of each id is the id's position.\<close>

lemma ModOrderDiffers_False:
  assumes "\<not> ModOrderDiffers txt order"
  shows "distinct order" "k \<in> set order \<Longrightarrow> ParseModOrderText txt k = Some (position k order)"
proof -
  let ?m = "ParseModOrderText txt" and ?L = "order_lines txt"
  let ?keys = "remdups ?L"
  let ?seq = "fold (place ?m) ?keys (replicate (length ?keys) [])"
  have ok: "\<forall>k \<in> set ?keys. 0 \<le> the (?m k) \<and> the (?m k) < int (length ?keys)" and seq: "?seq = order"
    using assms by (simp_all add: ModOrderDiffers_def mod_ids_eq Let_def list_all_iff split: if_splits)
  have inj: "inj_on (\<lambda>k. nat (the (?m k))) (set ?keys)"
    by (rule inj_onI) (simp add: ParseModOrderText_eq, metis nth_position)
  have below: "\<forall>k \<in> set ?keys. nat (the (?m k)) < length (replicate (length ?keys) ([] :: string))"
    using ok by auto
  note pl = place_all [OF distinct_remdups inj below]
  have len: "length order = length ?keys" using pl(1) seq by simp
  have at: "order ! nat (the (?m k)) = k" if "k \<in> set ?keys" for k using pl(2) [OF that] seq by simp
  have sub: "set ?keys \<subseteq> set order"
    using at below len by (metis length_replicate nth_mem subsetI)
  then have "card (set ?keys) \<le> card (set order)" by (simp add: card_mono)
  then have "length order \<le> card (set order)" using len by (simp add: distinct_card [OF distinct_remdups, symmetric])
  then show dist: "distinct order" by (simp add: card_distinct card_length eq_iff)
  have "set order = set ?keys"
    using sub len dist by (metis List.finite_set card_subset_eq distinct_card distinct_remdups)
  then show "k \<in> set order \<Longrightarrow> ?m k = Some (position k order)"
    using at below ok len dist
    by (smt (verit) ParseModOrderText_eq int_nat_eq length_replicate option.sel position_nth set_remdups)
qed

lemma ModOrderDiffers_distinct:
  assumes "distinct (order_lines txt)"
  shows "ModOrderDiffers txt (order_lines txt) = False"
proof -
  let ?m = "ParseModOrderText txt" and ?L = "order_lines txt"
  have keys: "mod_ids txt = ?L" using assms by (simp add: mod_ids_eq distinct_remdups_id)
  have m: "the (?m k) = position k ?L" if "k \<in> set ?L" for k using that by (simp add: ParseModOrderText_eq)
  have inj: "inj_on (\<lambda>k. nat (the (?m k))) (set ?L)"
    by (rule inj_onI) (simp add: m, metis nth_position)
  have below: "\<forall>k \<in> set ?L. nat (the (?m k)) < length (replicate (length ?L) ([] :: string))"
    using m position_less by (fastforce simp: position_def)
  note pl = place_all [OF assms inj below]
  have "fold (place ?m) ?L (replicate (length ?L) []) = ?L"
  proof (rule nth_equalityI)
    fix i assume i: "i < length (fold (place ?m) ?L (replicate (length ?L) []))"
    then have "i < length ?L" using pl(1) by simp
    then show "fold (place ?m) ?L (replicate (length ?L) []) ! i = ?L ! i"
      using pl(2) [of "?L ! i"] m [of "?L ! i"] position_nth [OF assms, of i] by simp
  qed (simp add: pl(1))
  moreover have "list_all (\<lambda>k. 0 \<le> the (?m k) \<and> the (?m k) < int (length ?L)) ?L"
    using m position_less by (auto simp: list_all_iff position_def)
  ultimately show ?thesis by (simp add: ModOrderDiffers_def keys Let_def)
qed

section \<open>The written sequence: lemmas\<close>

text \<open>An id the line format can carry: no newline, no surrounding space, not a comment.\<close>

definition clean_id :: "string \<Rightarrow> bool" where
  "clean_id i \<longleftrightarrow> i \<noteq> [] \<and> hd i \<noteq> CHR ''#'' \<and> \<not> is_space (hd i) \<and> \<not> is_space (last i) \<and> nl \<notin> set i"

lemma TrimWs_clean: "clean_id i \<Longrightarrow> TrimWs i = i"
  unfolding TrimWs_def by (rule trim_by_id) (simp add: clean_id_def)

lemma mod_order_header_lines: "getlines (mod_order_header @ t) = getlines mod_order_header @ getlines t"
  by (simp add: mod_order_header_def)

lemma order_lines_header: "order_lines mod_order_header = []"
  by (simp add: order_lines_def mod_order_header_def TrimWs_def trim_by_def is_space_def)

lemma order_lines_Serialize:
  assumes "\<forall>i \<in> set order. clean_id i"
  shows "order_lines (SerializeModOrderText order) = order"
proof -
  have "getlines (concat (map (\<lambda>i. i @ [nl]) order)) = order"
    using assms by (intro getlines_unlines) (simp add: clean_id_def)
  then have "order_lines (SerializeModOrderText order)
      = order_lines mod_order_header @ filter (\<lambda>t. t \<noteq> [] \<and> hd t \<noteq> CHR ''#'') (map TrimWs order)"
    by (simp add: SerializeModOrderText_def order_lines_def mod_order_header_lines)
  also have "map TrimWs order = order" using assms by (simp add: TrimWs_clean map_idI)
  also have "filter (\<lambda>t. t \<noteq> [] \<and> hd t \<noteq> CHR ''#'') order = order"
    using assms by (simp add: clean_id_def)
  finally show ?thesis by (simp add: order_lines_header)
qed

lemma strip_prefix_name [simp]: "strip_prefix (LoadOrderNameFor i) = i"
  by (simp add: strip_prefix_def LoadOrderNameFor_def)

lemma resolved_order_strict:
  assumes "distinct (map pk_modId reg)"
  shows "sorted_wrt (\<lambda>a b. RunsBefore s (LoadOrderNameFor a) (LoadOrderNameFor b)) (resolved_order s reg)"
    "set (resolved_order s reg) = pk_modId ` set reg" "distinct (resolved_order s reg)"
proof -
  let ?names = "map (\<lambda>p. LoadOrderNameFor (pk_modId p)) reg"
  let ?xs = "sort_key (SortKey s) ?names"
  have names: "set ?xs = LoadOrderNameFor ` pk_modId ` set reg" by auto
  then have keyed: "map LoadOrderNameFor (resolved_order s reg) = ?xs"
    unfolding resolved_order_def map_map by (intro map_idI) auto
  have "distinct ?names" using assms by (simp add: distinct_map inj_on_def)
  moreover have "inj (SortKey s)" by (auto simp: inj_def SortKey_def)
  ultimately have "distinct (map (SortKey s) ?xs)" by (simp add: distinct_map inj_on_def inj_def)
  then have "sorted_wrt (<) (map (SortKey s) ?xs)" by (simp add: strict_sorted_iff)
  then have "sorted_wrt (RunsBefore s) (map LoadOrderNameFor (resolved_order s reg))"
    unfolding keyed by (simp add: sorted_wrt_map RunsBefore_eq)
  then show "sorted_wrt (\<lambda>a b. RunsBefore s (LoadOrderNameFor a) (LoadOrderNameFor b)) (resolved_order s reg)"
    by (simp add: sorted_wrt_map)
  show "set (resolved_order s reg) = pk_modId ` set reg"
    unfolding resolved_order_def set_map set_sort by (force simp: image_image)
  show "distinct (resolved_order s reg)"
    using \<open>distinct ?names\<close> keyed by (metis distinct_map distinct_sort)
qed

lemma Of_pak:
  assumes "p \<in> set reg" "distinct (map pk_modId reg)" "\<forall>m \<in> set ms. dot_free (pm_name m)"
  shows "Of (Resolve ms reg s) (LoadOrderNameFor (pk_modId p)) = pak_row (g_userOverrides s) p"
proof -
  have "find (\<lambda>m. pm_name m = LoadOrderNameFor (pk_modId p)) ms = None"
    using assms(3) dot_free_not_pak_key by (auto simp: find_None_iff)
  moreover have "find (\<lambda>q. LoadOrderNameFor (pk_modId q) = LoadOrderNameFor (pk_modId p)) reg = Some p"
  proof -
    obtain i where "i < length reg" "p = reg ! i" using assms(1) by (auto simp: in_set_conv_nth)
    then show ?thesis
      using assms(2) by (auto simp: find_Some_iff distinct_conv_nth intro!: exI [of _ i])
  qed
  ultimately show ?thesis by (simp add: Of_def Resolve_lookup)
qed

lemma written_positions:
  assumes clean: "\<forall>p \<in> set reg. clean_id (pk_modId p)" and dist: "distinct (map pk_modId reg)"
    and i: "i \<in> set (resolved_order s reg)"
  shows "ReadModOrder (WriteModOrderTxt Completes s reg f) i = Some (position i (resolved_order s reg))"
proof -
  let ?o = "resolved_order s reg"
  have o: "\<forall>i \<in> set ?o. clean_id i" using clean resolved_order_strict(2) [OF dist] by auto
  then have new: "ParseModOrderText (SerializeModOrderText ?o) i = Some (position i ?o)"
    using i by (simp add: ParseModOrderText_eq order_lines_Serialize)
  have ne: "?o \<noteq> []" using i by auto
  have empty: "ModOrderDiffers [] ?o"
  proof (rule ccontr)
    assume "\<not> ModOrderDiffers [] ?o"
    from ModOrderDiffers_False(2) [OF this i] show False
      by (simp add: ParseModOrderText_eq order_lines_def split: if_splits)
  qed
  show ?thesis
  proof (cases f)
    case (Content t)
    then show ?thesis
      using ModOrderDiffers_False(2) [of t ?o i] i ne new
      by (simp add: WriteModOrderTxt_def ReadFileText_def ReadModOrder_def Let_def)
  qed (use ne empty new in \<open>simp_all add: WriteModOrderTxt_def ReadFileText_def ReadModOrder_def Let_def\<close>)
qed

lemma written_not_rewritten:
  assumes clean: "\<forall>p \<in> set reg. clean_id (pk_modId p)" and dist: "distinct (map pk_modId reg)"
    and same: "resolved_order s' reg' = resolved_order s reg"
  shows "WriteModOrderTxt w s' reg' (WriteModOrderTxt Completes s reg f) = WriteModOrderTxt Completes s reg f"
proof -
  let ?o = "resolved_order s reg"
  have o: "\<forall>i \<in> set ?o. clean_id i" using clean resolved_order_strict(2) [OF dist] by auto
  have "\<not> ModOrderDiffers (SerializeModOrderText ?o) ?o"
    using ModOrderDiffers_distinct [of "SerializeModOrderText ?o"] order_lines_Serialize [OF o]
      resolved_order_strict(3) [OF dist, of s] by simp
  then show ?thesis
    by (simp add: WriteModOrderTxt_def same Let_def ReadFileText_def split: disk_file.splits)
qed

lemma pak_row_same_id:
  assumes "pk_modId p = pk_modId q"
  shows "eff_zone (pak_row ovs p) = eff_zone (pak_row ovs q)"
    "eff_priority (pak_row ovs p) = eff_priority (pak_row ovs q)"
  using assms by (simp_all add: pak_row_def with_override_def split: option.splits)

lemma apply_mod_order_id [simp]: "pk_modId (apply_mod_order m p) = pk_modId p"
  by (simp add: apply_mod_order_def split: option.splits)

section \<open>Merging rows: lemmas\<close>

definition row_name_ok :: "string \<Rightarrow> bool" where
  "row_name_ok n \<longleftrightarrow> quote \<notin> set n \<and> nl \<notin> set n"

lemma getlines_append:
  "a = [] \<or> last a = nl \<Longrightarrow> getlines (a @ b) = getlines a @ getlines b"
proof (induction a)
  case (Cons c cs)
  show ?case
  proof (cases "c = nl")
    case True
    then show ?thesis using Cons by (cases cs) auto
  next
    case False
    then have ne: "cs \<noteq> []" "last cs = nl" using Cons.prems by (auto split: if_splits)
    then have "getlines cs \<noteq> []" by (cases cs) (auto split: list.splits)
    then show ?thesis using Cons False ne by (auto split: list.splits)
  qed
qed simp

lemma getlines_end_nl: "a \<noteq> [] \<Longrightarrow> last a \<noteq> nl \<Longrightarrow> getlines (a @ [nl]) = getlines a"
proof (induction a)
  case (Cons c cs)
  then show ?case by (cases "cs = []") (auto split: list.splits)
qed simp

lemma one_line_nl: "nl \<notin> set (one_line s)"
  by (auto simp: one_line_def)

lemma trim_by_append:
  assumes "x \<noteq> []" "\<not> p (hd x)" "\<not> p (last x)"
  shows "trim_by p (x @ y) = x @ rev (dropWhile p (rev y))"
proof -
  have "dropWhile p (x @ y) = x @ y" using assms(1,2) by (cases x) auto
  moreover have "dropWhile p (rev x) = rev x" using assms(1,3) by (cases "rev x") (auto simp: hd_rev [symmetric])
  moreover have "dropWhile p (rev y @ rev x) = dropWhile p (rev y) @ rev x" if "dropWhile p (rev x) = rev x"
  proof (cases "\<forall>c \<in> set (rev y). p c")
    case True
    then have "dropWhile p (rev y @ rev x) = dropWhile p (rev x)" by (intro dropWhile_append2) simp
    moreover have "dropWhile p (rev y) = []" using True by (simp add: dropWhile_eq_Nil_conv)
    ultimately show ?thesis using that by simp
  next
    case False
    then obtain c where "c \<in> set (rev y)" "\<not> p c" by blast
    then show ?thesis by (rule dropWhile_append1)
  qed
  ultimately show ?thesis by (simp add: trim_by_def)
qed

lemma row_name_of_line_row:
  assumes "quote \<notin> set n"
  shows "row_name_of_line (''name    = '' @ [quote] @ n @ [quote] @ rest) = Some n"
proof -
  define r where "r = rev (dropWhile ws4 (rev rest))"
  have t: "Trim4 (''name    = '' @ [quote] @ n @ [quote] @ rest) = ''name    = '' @ [quote] @ n @ quote # r"
    using trim_by_append [of "''name    = '' @ [quote] @ n @ [quote]" ws4 rest]
    by (simp add: Trim4_def r_def ws4_def)
  have eq: "str_find (''name    = '' @ [quote] @ n @ quote # r) ''='' 4 = Some 8"
    by (simp add: str_find_def)
  have q1: "str_find (''name    = '' @ [quote] @ n @ quote # r) [quote] 9 = Some 10"
    by (simp add: str_find_def)
  have q2: "str_find (''name    = '' @ [quote] @ n @ quote # r) [quote] 11 = Some (11 + length n)"
    using find_sub_char [OF assms] by (simp add: str_find_def)
  show ?thesis
    unfolding row_name_of_line_def t Let_def eq option.case
    using q1 q2 by (simp add: Trim4_def trim_by_def ws4_def)
qed

lemma ExistingRowNames_row:
  assumes "row_name_ok (rr_loadOrderName r)"
  shows "ExistingRowNames (row_text r) = [rr_loadOrderName r]"
proof -
  obtain rest where rt: "row_text r = ''[[plugin]]'' @ nl # (''name    = '' @ [quote] @ rr_loadOrderName r @ [quote] @ rest) @ nl # []"
    and rest: "nl \<notin> set rest"
    by (rule that [of "if rr_isPakMod r \<and> rr_humanName r \<noteq> [] then ''  # '' @ one_line (rr_humanName r) else []"])
      (use one_line_nl in \<open>simp_all add: row_text_def\<close>)
  have "nl \<notin> set (''name    = '' @ [quote] @ rr_loadOrderName r @ [quote] @ rest)"
    using assms rest by (auto simp: row_name_ok_def)
  then have "getlines (row_text r) = [''[[plugin]]'', ''name    = '' @ [quote] @ rr_loadOrderName r @ [quote] @ rest]"
    unfolding rt by (subst getlines_line, simp, subst getlines_line, assumption, simp)
  moreover have "row_name_of_line ''[[plugin]]'' = None"
    by (simp add: row_name_of_line_def Trim4_def trim_by_def ws4_def)
  ultimately show ?thesis
    using row_name_of_line_row [of "rr_loadOrderName r" rest] assms
    by (simp add: ExistingRowNames_def row_name_ok_def List.map_filter_def)
qed

lemma ExistingRowNames_append:
  "a = [] \<or> last a = nl \<Longrightarrow> ExistingRowNames (a @ b) = ExistingRowNames a @ ExistingRowNames b"
  by (simp add: ExistingRowNames_def getlines_append List.map_filter_def)

definition merge_start :: "string \<Rightarrow> merge_state" where
  "merge_start existing =
     \<lparr>mg_have = set (ExistingRowNames existing),
      mg_out = (if existing \<noteq> [] \<and> last existing \<noteq> nl then existing @ [nl] else existing),
      mg_added = [], mg_firstAppend = True\<rparr>"

definition merge_inv :: "string \<Rightarrow> merge_state \<Rightarrow> bool" where
  "merge_inv existing st \<longleftrightarrow>
     starts_with (mg_out (merge_start existing)) (mg_out st)
     \<and> (mg_out st = [] \<or> last (mg_out st) = nl)
     \<and> ExistingRowNames (mg_out st) = ExistingRowNames existing @ mg_added st
     \<and> mg_have st = set (ExistingRowNames (mg_out st))
     \<and> (mg_added st = [] \<longrightarrow> mg_out st = mg_out (merge_start existing))
     \<and> set (mg_added st) \<inter> set (ExistingRowNames existing) = {} \<and> [] \<notin> set (mg_added st)"

lemma merge_inv_start: "merge_inv existing (merge_start existing)"
proof -
  have "existing \<noteq> [] \<Longrightarrow> last existing \<noteq> nl \<Longrightarrow> ExistingRowNames (existing @ [nl]) = ExistingRowNames existing"
    by (simp add: ExistingRowNames_def getlines_end_nl)
  then show ?thesis by (auto simp: merge_inv_def merge_start_def starts_with_iff)
qed

lemma row_text_end: "row_text r \<noteq> [] \<and> last (row_text r) = nl"
  by (simp add: row_text_def)

lemma merge_inv_row:
  assumes inv: "merge_inv existing st" and ok: "row_name_ok (rr_loadOrderName r)"
  shows "merge_inv existing (merge_row b r st)"
proof (cases "rr_loadOrderName r = [] \<or> rr_loadOrderName r \<in> mg_have st")
  case False
  let ?gap = "if mg_firstAppend st \<and> b then [nl] else []"
  have gap: "ExistingRowNames ?gap = []"
    by (simp add: ExistingRowNames_def row_name_of_line_def Trim4_def List.map_filter_def)
  have "ExistingRowNames (mg_out st @ ?gap @ row_text r)
      = ExistingRowNames (mg_out st) @ ExistingRowNames (?gap @ row_text r)"
    using inv by (intro ExistingRowNames_append) (simp add: merge_inv_def)
  also have "ExistingRowNames (?gap @ row_text r) = ExistingRowNames ?gap @ ExistingRowNames (row_text r)"
    by (rule ExistingRowNames_append) simp
  finally have names: "ExistingRowNames (mg_out st @ ?gap @ row_text r)
      = ExistingRowNames (mg_out st) @ [rr_loadOrderName r]"
    by (simp add: gap ExistingRowNames_row [OF ok])
  have row: "merge_row b r st = \<lparr>mg_have = insert (rr_loadOrderName r) (mg_have st),
      mg_out = mg_out st @ ?gap @ row_text r, mg_added = mg_added st @ [rr_loadOrderName r],
      mg_firstAppend = False\<rparr>"
    using False by (simp add: merge_row_def)
  show ?thesis
    using inv names False row_text_end [of r] unfolding row merge_inv_def
    by (auto simp: starts_with_iff simp del: append_assoc) (simp add: append_assoc)+
qed (use inv in \<open>auto simp: merge_row_def\<close>)

lemma merge_inv_fold:
  "merge_inv existing st \<Longrightarrow> \<forall>r \<in> set rows. row_name_ok (rr_loadOrderName r) \<Longrightarrow>
     merge_inv existing (fold (merge_row b) rows st)
     \<and> mg_have (fold (merge_row b) rows st) = mg_have st \<union> (rr_loadOrderName ` set rows - {[]})"
proof (induction rows arbitrary: st)
  case (Cons r rows)
  then have "merge_inv existing (merge_row b r st)" by (simp add: merge_inv_row)
  moreover have "mg_have (merge_row b r st) = mg_have st \<union> ({rr_loadOrderName r} - {[]})"
    by (auto simp: merge_row_def)
  ultimately show ?case using Cons by auto
qed simp

lemma merge_nothing:
  "rr_loadOrderName ` set rows - {[]} \<subseteq> mg_have st \<Longrightarrow> fold (merge_row b) rows st = st"
proof (induction rows)
  case (Cons r rows)
  then have "merge_row b r st = st" by (auto simp: merge_row_def)
  then show ?case using Cons by auto
qed simp

lemma union_cancel: "B \<union> A = B \<union> C \<Longrightarrow> A \<inter> B = {} \<Longrightarrow> A = C - B"
  by blast

lemma Merge_start:
  "MergeLoadOrderToml existing rows =
     (let st = fold (merge_row (existing \<noteq> [])) rows (merge_start existing) in (mg_out st, mg_added st))"
  by (simp add: MergeLoadOrderToml_def merge_start_def Let_def)

section \<open>Properties\<close>


definition sample_mod :: "string \<Rightarrow> pak_mod" where
  "sample_mod i = \<lparr>pk_modId = i, pk_rootPathSlash = i @ ''/'', pk_rootPathNoSlash = i,
     pk_manifest = default_mod_manifest\<lparr>mm_ok := True\<rparr>, pk_fromModsDir = True, pk_fromWorkshop = False,
     pk_modOrderIndex = -1\<rparr>"

abbreviation fresh_lo :: lo_state where
  "fresh_lo \<equiv> \<lparr>g_userOverrides = Map.empty, g_effective = Map.empty\<rparr>"


text \<open>A repeated id defeats the write-if-changed rule: when two registered pak mods
  share a mod id (one in mods/, one from the Workshop), mod_order.txt is judged different from
  every text, kcdx's own included, and is written at every launch.\<close>

theorem mod_order_duplicate_rewrites:
  assumes "\<not> distinct (map pk_modId reg)"
  shows "WriteModOrderTxt w s reg file = fst (disk_write w (SerializeModOrderText (resolved_order s reg)) file)"
proof -
  have "map LoadOrderNameFor (resolved_order s reg) = sort_key (SortKey s) (map (\<lambda>p. LoadOrderNameFor (pk_modId p)) reg)"
    unfolding resolved_order_def map_map by (intro map_idI) auto
  then have "distinct (resolved_order s reg) \<Longrightarrow> distinct (map (\<lambda>p. LoadOrderNameFor (pk_modId p)) reg)"
    by (metis LoadOrderNameFor_inj distinct_map distinct_sort inj_on_def)
  then have dup: "\<not> distinct (resolved_order s reg)"
    using assms by (auto simp: distinct_map inj_on_def)
  then have "ModOrderDiffers t (resolved_order s reg)" for t
    using ModOrderDiffers_False(1) by blast
  moreover have "resolved_order s reg \<noteq> []" using dup by auto
  ultimately show ?thesis by (simp add: WriteModOrderTxt_def Let_def case_prod_beta)
qed

theorem mod_order_duplicate_rewrites_witness:
  "WriteModOrderTxt Completes fresh_lo [sample_mod ''a'', sample_mod ''a'']
      (WriteModOrderTxt Completes fresh_lo [sample_mod ''a'', sample_mod ''a''] Absent)
   = fst (disk_write Completes
       (SerializeModOrderText (resolved_order fresh_lo [sample_mod ''a'', sample_mod ''a'']))
       (WriteModOrderTxt Completes fresh_lo [sample_mod ''a'', sample_mod ''a''] Absent))"
  by (rule mod_order_duplicate_rewrites) (simp add: sample_mod_def)

text \<open>Rows are only added: the merged text starts with the user's text unchanged, holds
  a row for every name asked for and for no other new one, and merging once more changes nothing,
  so a hand edit is never lost and a launch that discovers nothing new writes nothing.\<close>

theorem merge_rows_add_only:
  assumes "\<forall>r \<in> set rows. row_name_ok (rr_loadOrderName r)"
  shows "starts_with existing (fst (MergeLoadOrderToml existing rows))
    \<and> ExistingRowNames (fst (MergeLoadOrderToml existing rows))
        = ExistingRowNames existing @ snd (MergeLoadOrderToml existing rows)
    \<and> set (snd (MergeLoadOrderToml existing rows))
        = rr_loadOrderName ` set rows - {[]} - set (ExistingRowNames existing)
    \<and> MergeLoadOrderToml (fst (MergeLoadOrderToml existing rows)) rows
        = (fst (MergeLoadOrderToml existing rows), [])"
proof -
  define st where "st = fold (merge_row (existing \<noteq> [])) rows (merge_start existing)"
  have m: "MergeLoadOrderToml existing rows = (mg_out st, mg_added st)"
    by (simp add: Merge_start Let_def st_def)
  have "mg_have (merge_start existing) = set (ExistingRowNames existing)" by (simp add: merge_start_def)
  then have inv: "merge_inv existing st"
    and have_eq: "mg_have st = set (ExistingRowNames existing) \<union> (rr_loadOrderName ` set rows - {[]})"
    using merge_inv_fold [OF merge_inv_start assms, where b = "existing \<noteq> []"] by (simp_all add: st_def)
  have start: "mg_out (merge_start (mg_out st)) = mg_out st"
    using inv by (auto simp: merge_start_def merge_inv_def)
  have "rr_loadOrderName ` set rows - {[]} \<subseteq> mg_have (merge_start (mg_out st))"
    using inv have_eq by (auto simp: merge_start_def merge_inv_def)
  from merge_nothing [OF this] have again: "MergeLoadOrderToml (mg_out st) rows = (mg_out st, [])"
    using start by (simp add: Merge_start Let_def) (simp add: merge_start_def)
  have names: "ExistingRowNames (mg_out st) = ExistingRowNames existing @ mg_added st"
    and disj: "set (mg_added st) \<inter> set (ExistingRowNames existing) = {}" "[] \<notin> set (mg_added st)"
    and have_names: "mg_have st = set (ExistingRowNames (mg_out st))"
    using inv by (simp_all add: merge_inv_def)
  have "set (ExistingRowNames existing) \<union> set (mg_added st)
      = set (ExistingRowNames existing) \<union> (rr_loadOrderName ` set rows - {[]})"
    using have_eq have_names unfolding names by simp
  then have added: "set (mg_added st) = rr_loadOrderName ` set rows - {[]} - set (ExistingRowNames existing)"
    using disj(1) by (rule union_cancel)
  have "starts_with existing (mg_out (merge_start existing))" by (simp add: merge_start_def starts_with_iff)
  moreover have "starts_with (mg_out (merge_start existing)) (mg_out st)" using inv by (simp add: merge_inv_def)
  ultimately have "starts_with existing (mg_out st)" by (auto simp: starts_with_iff)
  then show ?thesis unfolding m fst_conv snd_conv again using names added by simp
qed

theorem merge_rows_add_only_witness:
  "MergeLoadOrderToml (fst (MergeLoadOrderToml ''x''
        [\<lparr>rr_loadOrderName = ''mods.a'', rr_humanName = ''A'', rr_isPakMod = True\<rparr>]))
      [\<lparr>rr_loadOrderName = ''mods.a'', rr_humanName = ''A'', rr_isPakMod = True\<rparr>]
   = (fst (MergeLoadOrderToml ''x''
        [\<lparr>rr_loadOrderName = ''mods.a'', rr_humanName = ''A'', rr_isPakMod = True\<rparr>]), [])"
  using merge_rows_add_only [of "[\<lparr>rr_loadOrderName = ''mods.a'', rr_humanName = ''A'', rr_isPakMod = True\<rparr>]" "''x''"]
  by (simp add: row_name_ok_def)

text \<open>Ids are written without escaping: for a mod whose manifest gives it the id
  \<open>a"b\<close> the row written is read back under the name \<open>mods.a\<close>, so the row is never found again and
  every launch appends another copy of it.\<close>

theorem quoted_id_row_grows:
  "let row = \<lparr>rr_loadOrderName = LoadOrderNameFor [CHR ''a'', quote, CHR ''b''], rr_humanName = [],
              rr_isPakMod = True\<rparr>;
       once = fst (MergeLoadOrderToml [] [row]);
       twice = fst (MergeLoadOrderToml once [row])
   in ExistingRowNames once = [''mods.a''] \<and> ExistingRowNames twice = [''mods.a'', ''mods.a'']
      \<and> length once < length twice"
  by code_simp

end
