(* ===== verification/Mod_Record.thy ===== *)
theory Mod_Record
  imports Kcdx_Data
begin

text \<open>
  src/mod_absorb/record_synth.cpp and record_validate.cpp: the 0x70-byte I_Mod records kcdx builds
  for the engine's mod list, their CryString buffers, and the check every record passes before
  the engine sees it.

  Memory is explicit: a heap is the list of live blocks with their bytes, an address is a number,
  and a read or write outside every block has no result.  The allocator is a parameter (\<open>None\<close> is
  std::bad_alloc); what the sources rely on is \<open>allocator_ok\<close>.  The vtable addresses come from the
  reference database, also a parameter.  The boxes and pointer vectors that own the blocks are
  the two address lists of the state.
\<close>

section \<open>Memory\<close>

type_synonym heap = "(nat \<times> byte list) list"

fun load_byte :: "heap \<Rightarrow> nat \<Rightarrow> byte option" where
  "load_byte [] a = None"
| "load_byte ((b, bs) # h) a = (if b \<le> a \<and> a < b + length bs then Some (bs ! (a - b)) else load_byte h a)"

fun store_byte :: "heap \<Rightarrow> nat \<Rightarrow> byte \<Rightarrow> heap" where
  "store_byte [] a v = []"
| "store_byte ((b, bs) # h) a v =
     (if b \<le> a \<and> a < b + length bs then (b, bs[a - b := v]) # h else (b, bs) # store_byte h a v)"

fun store_bytes :: "heap \<Rightarrow> nat \<Rightarrow> byte list \<Rightarrow> heap" where
  "store_bytes h a [] = h"
| "store_bytes h a (v # vs) = store_bytes (store_byte h a v) (Suc a) vs"

fun load_bytes :: "heap \<Rightarrow> nat \<Rightarrow> nat \<Rightarrow> byte list option" where
  "load_bytes h a 0 = Some []"
| "load_bytes h a (Suc n) =
     (case load_byte h a of
        None \<Rightarrow> None
      | Some v \<Rightarrow> map_option ((#) v) (load_bytes h (Suc a) n))"

type_synonym allocator = "heap \<Rightarrow> nat \<Rightarrow> nat option"

definition allocator_ok :: "allocator \<Rightarrow> bool" where
  "allocator_ok alloc \<longleftrightarrow>
     (\<forall>h n a. alloc h n = Some a \<longrightarrow>
        0 < a \<and> a + n \<le> 2 ^ 64 \<and> (\<forall>i < n. load_byte h (a + i) = None))"

definition read_int32 :: "byte list \<Rightarrow> int" where
  "read_int32 bs = sint (of_nat (le_val bs) :: u32)"

section \<open>Building a record\<close>

definition kRecordSize :: nat where
  "kRecordSize = 0x70"

definition kCryStrHeader :: nat where
  "kCryStrHeader = 16"

record synth =
  ss_heap :: heap
  ss_records :: "nat list"
  ss_cryStrings :: "nat list"

record mod_record_input =
  mi_rootPathSlash :: string
  mi_id :: string
  mi_rootPathNoSlash :: string
  mi_displayName :: string
  mi_description :: string
  mi_author :: string
  mi_version :: string
  mi_createdDate :: string

definition char_bytes :: "string \<Rightarrow> byte list" where
  "char_bytes s = map of_char s"

text \<open>The buffer: pad, nRefs, nLength and nAllocSize, the characters, a NUL.\<close>

definition cry_buffer :: "string \<Rightarrow> byte list" where
  "cry_buffer s =
     (let len = unat (of_nat (length s) :: u32)
      in le_bytes 4 0 @ le_bytes 4 1 @ le_bytes 4 len @ le_bytes 4 len @ char_bytes s @ [0])"

text \<open>The result is the new state and the address of the characters.\<close>

definition InternCryString :: "allocator \<Rightarrow> string \<Rightarrow> synth \<Rightarrow> (synth \<times> nat) option" where
  "InternCryString alloc s st =
     (case alloc (ss_heap st) (kCryStrHeader + length s + 1) of
        None \<Rightarrow> None
      | Some p \<Rightarrow>
          Some (st\<lparr>ss_heap := ss_heap st @ [(p, cry_buffer s)],
                   ss_cryStrings := ss_cryStrings st @ [p]\<rparr>, p + kCryStrHeader))"

definition PutPtr :: "nat \<Rightarrow> nat \<Rightarrow> nat \<Rightarrow> synth \<Rightarrow> synth" where
  "PutPtr r off value st = st\<lparr>ss_heap := store_bytes (ss_heap st) (r + off) (le_bytes 8 value)\<rparr>"

definition string_fields :: "mod_record_input \<Rightarrow> (nat \<times> string) list" where
  "string_fields i =
     [(0x08, mi_rootPathSlash i), (0x10, mi_id i), (0x20, mi_rootPathNoSlash i),
      (0x28, mi_displayName i), (0x30, mi_description i), (0x38, mi_author i),
      (0x40, mi_version i), (0x48, mi_createdDate i)]"

fun put_strings :: "allocator \<Rightarrow> nat \<Rightarrow> (nat \<times> string) list \<Rightarrow> synth \<Rightarrow> synth option" where
  "put_strings alloc r [] st = Some st"
| "put_strings alloc r ((off, s) # fs) st =
     (case InternCryString alloc s st of
        None \<Rightarrow> None
      | Some (st', p) \<Rightarrow> put_strings alloc r fs (PutPtr r off p st'))"

type_synonym addr_resolver = "string \<Rightarrow> u64"

text \<open>The result pointer is 0 (nullptr) when a vtable name does not resolve.\<close>

definition BuildRecord ::
    "allocator \<Rightarrow> addr_resolver \<Rightarrow> mod_record_input \<Rightarrow> synth \<Rightarrow> (synth \<times> nat) option" where
  "BuildRecord alloc resolve i st =
     (let vtablePrimary = resolve ''ImodVtable_primary'';
          vtableSubObject = resolve ''ImodVtable_subobject''
      in if vtablePrimary = 0 \<or> vtableSubObject = 0 then Some (st, 0)
         else (case alloc (ss_heap st) kRecordSize of
                 None \<Rightarrow> None
               | Some r \<Rightarrow>
                   (let st1 = st\<lparr>ss_heap := ss_heap st @ [(r, replicate kRecordSize 0)],
                                 ss_records := ss_records st @ [r]\<rparr>;
                        st2 = PutPtr r 0x00 (unat vtablePrimary) st1;
                        st3 = PutPtr r 0x18 (unat vtableSubObject) st2
                    in map_option (\<lambda>st'. (st', r)) (put_strings alloc r (string_fields i) st3))))"

section \<open>Validating a record\<close>

definition kStrlenCap :: nat where
  "kStrlenCap = 64 * 1024"

text \<open>The strlen walk: where it stopped and whether it hit the cap; no result is a fault.\<close>

fun scan_nul :: "heap \<Rightarrow> nat \<Rightarrow> nat \<Rightarrow> nat \<Rightarrow> (nat \<times> bool) option" where
  "scan_nul h a i 0 = Some (i, True)"
| "scan_nul h a i (Suc k) =
     (case load_byte h (a + i) of
        None \<Rightarrow> None
      | Some v \<Rightarrow> if v = 0 then Some (i, False) else scan_nul h a (i + 1) k)"

record cry_field =
  cf_nRefs :: int
  cf_nLength :: int
  cf_nAllocSize :: int
  cf_strLen :: nat
  cf_overCap :: bool

definition ReadCryStringFieldGuarded :: "heap \<Rightarrow> nat \<Rightarrow> cry_field option" where
  "ReadCryStringFieldGuarded h data =
     (if data = 0 then None
      else (case (load_bytes h (data - 12) 4, load_bytes h (data - 8) 4, load_bytes h (data - 4) 4,
                  scan_nul h data 0 kStrlenCap) of
              (Some r, Some l, Some a, Some (n, over)) \<Rightarrow>
                Some \<lparr>cf_nRefs = read_int32 r, cf_nLength = read_int32 l, cf_nAllocSize = read_int32 a,
                      cf_strLen = n, cf_overCap = over\<rparr>
            | _ \<Rightarrow> None))"

definition vtable_slot_ok :: "(nat \<times> nat) option \<Rightarrow> nat \<Rightarrow> nat \<Rightarrow> bool" where
  "vtable_slot_ok img resolved slot =
     (let nonNull = (slot \<noteq> 0);
          inImage = (case img of None \<Rightarrow> False | Some (b, e) \<Rightarrow> b \<le> slot \<and> slot < e);
          matchesResolved = (resolved \<noteq> 0 \<and> slot = resolved)
      in nonNull \<and> (if img \<noteq> None then inImage else matchesResolved)
         \<and> (resolved = 0 \<or> matchesResolved))"

definition kStringFields :: "nat list" where
  "kStringFields = [0x08, 0x10, 0x20, 0x28, 0x30, 0x38, 0x40, 0x48]"

text \<open>The unguarded read of a pointer field; \<open>None\<close> is a fault.\<close>

definition load_ptr :: "heap \<Rightarrow> nat \<Rightarrow> nat option" where
  "load_ptr h a = map_option le_val (load_bytes h a 8)"

definition field_valid :: "heap \<Rightarrow> nat \<Rightarrow> bool" where
  "field_valid h data =
     (case ReadCryStringFieldGuarded h data of
        None \<Rightarrow> False
      | Some f \<Rightarrow>
          if cf_overCap f then False
          else if cf_nLength f < 0 \<or> nat (cf_nLength f) \<noteq> cf_strLen f then False
          else if cf_nRefs f < 1 then False
          else \<not> cf_nAllocSize f < cf_nLength f)"

fun fields_valid :: "heap \<Rightarrow> nat \<Rightarrow> nat list \<Rightarrow> bool option" where
  "fields_valid h r [] = Some True"
| "fields_valid h r (off # offs) =
     (case load_ptr h (r + off) of
        None \<Rightarrow> None
      | Some data \<Rightarrow> if field_valid h data then fields_valid h r offs else Some False)"

definition ValidateSynthRecord ::
    "(nat \<times> nat) option \<Rightarrow> addr_resolver \<Rightarrow> heap \<Rightarrow> nat \<Rightarrow> bool option" where
  "ValidateSynthRecord img resolve h r =
     (if r = 0 then Some False
      else (case (load_ptr h (r + 0x00), load_ptr h (r + 0x18)) of
              (Some vtPrimary, Some vtSubObject) \<Rightarrow>
                if \<not> vtable_slot_ok img (unat (resolve ''ImodVtable_primary'')) vtPrimary then Some False
                else if \<not> vtable_slot_ok img (unat (resolve ''ImodVtable_subobject'')) vtSubObject
                then Some False
                else fields_valid h r kStringFields
            | _ \<Rightarrow> None))"

section \<open>Memory: lemmas\<close>

named_theorems heap_simps \<open>reading a byte after an operation on the heap\<close>

lemma load_new_block [heap_simps]:
  "load_byte (h @ [(p, bs)]) c =
     (case load_byte h c of
        Some v \<Rightarrow> Some v
      | None \<Rightarrow> if p \<le> c \<and> c < p + length bs then Some (bs ! (c - p)) else None)"
  by (induction h c rule: load_byte.induct) auto

lemma load_store_byte:
  "load_byte (store_byte h a v) c = (if c = a \<and> load_byte h a \<noteq> None then Some v else load_byte h c)"
  by (induction h a v rule: store_byte.induct) (auto simp: nth_list_update)

lemma load_store_bytes [heap_simps]:
  "load_byte (store_bytes h a vs) c =
     (if a \<le> c \<and> c < a + length vs \<and> load_byte h c \<noteq> None then Some (vs ! (c - a)) else load_byte h c)"
proof (induction h a vs rule: store_bytes.induct)
  case (2 h a v vs)
  show ?case
    using 2 by (cases "c = a") (auto simp: load_store_byte nth_Cons')
qed auto

lemma load_bytes_eq:
  "(\<forall>i < n. load_byte h (a + i) = load_byte g (a + i)) \<Longrightarrow> load_bytes h a n = load_bytes g a n"
proof (induction n arbitrary: a)
  case (Suc n)
  have "load_byte h a = load_byte g a" using Suc.prems by (metis add.right_neutral zero_less_Suc)
  moreover have "load_bytes h (Suc a) n = load_bytes g (Suc a) n"
    using Suc.prems by (intro Suc.IH) (metis Suc_less_eq add_Suc add_Suc_right)
  ultimately show ?case by (simp split: option.split)
qed simp

lemma load_bytes_Some:
  "(\<forall>i < length bs. load_byte h (a + i) = Some (bs ! i)) \<Longrightarrow> load_bytes h a (length bs) = Some bs"
proof (induction bs arbitrary: a)
  case (Cons b bs)
  have "load_byte h a = Some b" using Cons.prems by (metis add.right_neutral length_greater_0_conv list.distinct(1) nth_Cons_0)
  moreover have "load_bytes h (Suc a) (length bs) = Some bs"
    using Cons.prems by (intro Cons.IH) (metis Suc_less_eq add_Suc add_Suc_right length_Cons nth_Cons_Suc)
  ultimately show ?case by simp
qed simp

section \<open>Fields of a record: lemmas\<close>

text \<open>A pointer field holds \<open>d\<close>; a CryString buffer for \<open>s\<close> has its characters at \<open>d\<close>.\<close>

definition ptr_at :: "heap \<Rightarrow> nat \<Rightarrow> nat \<Rightarrow> bool" where
  "ptr_at h a d \<longleftrightarrow> (\<forall>i < 8. load_byte h (a + i) = Some (le_bytes 8 d ! i))"

definition cry_at :: "heap \<Rightarrow> nat \<Rightarrow> string \<Rightarrow> bool" where
  "cry_at h p s \<longleftrightarrow> (\<forall>i < length (cry_buffer s). load_byte h (p + i) = Some (cry_buffer s ! i))"

lemma length_cry_buffer [simp]: "length (cry_buffer s) = kCryStrHeader + length s + 1"
  by (simp add: cry_buffer_def Let_def char_bytes_def kCryStrHeader_def)

definition field_at :: "heap \<Rightarrow> nat \<Rightarrow> nat \<Rightarrow> string \<Rightarrow> bool" where
  "field_at h r off s \<longleftrightarrow>
     (\<exists>p. 0 < p \<and> p + kCryStrHeader + length s + 1 \<le> 2 ^ 64 \<and> ptr_at h (r + off) (p + kCryStrHeader) \<and> cry_at h p s
        \<and> (\<forall>c. p \<le> c \<and> c < p + length (cry_buffer s) \<longrightarrow> c < r \<or> r + kRecordSize \<le> c))"

lemma ptr_at_load: "ptr_at h a d \<Longrightarrow> d < 2 ^ 64 \<Longrightarrow> load_ptr h a = Some d"
proof -
  assume "ptr_at h a d" "d < 2 ^ 64"
  then have "load_bytes h a (length (le_bytes 8 d)) = Some (le_bytes 8 d)"
    by (intro load_bytes_Some) (simp add: ptr_at_def)
  moreover have "le_val (le_bytes 8 d) = d" using \<open>d < 2 ^ 64\<close> by (intro le_val_le_bytes) simp
  ultimately show ?thesis by (simp add: load_ptr_def)
qed

text \<open>A step that changes no mapped byte outside \<open>W\<close> keeps the fields that do not meet \<open>W\<close>.\<close>

definition keeps :: "heap \<Rightarrow> heap \<Rightarrow> (nat \<Rightarrow> bool) \<Rightarrow> bool" where
  "keeps h g W \<longleftrightarrow> (\<forall>c v. load_byte h c = Some v \<longrightarrow> \<not> W c \<longrightarrow> load_byte g c = Some v)
     \<and> (\<forall>c. load_byte h c \<noteq> None \<longrightarrow> load_byte g c \<noteq> None)"

lemma keeps_refl [simp]: "keeps h h W"
  by (simp add: keeps_def)

lemma keeps_trans: "keeps h g W \<Longrightarrow> keeps g k W \<Longrightarrow> keeps h k W"
  by (auto simp: keeps_def)

lemma keeps_mono: "keeps h g W \<Longrightarrow> (\<And>c. W c \<Longrightarrow> V c) \<Longrightarrow> keeps h g V"
  by (auto simp: keeps_def)

lemma keeps_new_block: "keeps h (h @ [(p, bs)]) W"
  by (auto simp: keeps_def heap_simps)

lemma keeps_store: "keeps h (store_bytes h a vs) (\<lambda>c. a \<le> c \<and> c < a + length vs)"
  by (auto simp: keeps_def heap_simps)

lemma ptr_at_keeps:
  "keeps h g W \<Longrightarrow> (\<And>c. W c \<Longrightarrow> c < a \<or> a + 8 \<le> c) \<Longrightarrow> ptr_at h a d \<Longrightarrow> ptr_at g a d"
  unfolding keeps_def ptr_at_def by (metis add_less_cancel_left leD le_add1)

lemma cry_at_keeps:
  "keeps h g W \<Longrightarrow> (\<And>c. W c \<Longrightarrow> c < p \<or> p + length (cry_buffer s) \<le> c) \<Longrightarrow> cry_at h p s \<Longrightarrow> cry_at g p s"
  unfolding keeps_def cry_at_def by (metis add_less_cancel_left leD le_add1)

lemma field_at_keeps:
  assumes "keeps h g W" "\<And>c. W c \<Longrightarrow> r \<le> c \<and> c < r + kRecordSize"
    "\<And>c. W c \<Longrightarrow> c < r + off \<or> r + off + 8 \<le> c" "field_at h r off s"
  shows "field_at g r off s"
proof -
  obtain p where p: "0 < p" "p + kCryStrHeader + length s + 1 \<le> 2 ^ 64" "ptr_at h (r + off) (p + kCryStrHeader)"
    "cry_at h p s" "\<forall>c. p \<le> c \<and> c < p + length (cry_buffer s) \<longrightarrow> c < r \<or> r + kRecordSize \<le> c"
    using assms(4) unfolding field_at_def by blast
  have "ptr_at g (r + off) (p + kCryStrHeader)" using assms(1,3) p(3) by (rule ptr_at_keeps)
  moreover have "cry_at g p s"
    using assms(1) _ p(4) by (rule cry_at_keeps) (use assms(2) p(5) in \<open>metis leD leI\<close>)
  ultimately show ?thesis using p unfolding field_at_def by blast
qed

section \<open>Building: lemmas\<close>

definition mapped :: "heap \<Rightarrow> nat \<Rightarrow> nat \<Rightarrow> bool" where
  "mapped h a n \<longleftrightarrow> (\<forall>i < n. load_byte h (a + i) \<noteq> None)"

lemma mapped_keeps: "keeps h g W \<Longrightarrow> mapped h a n \<Longrightarrow> mapped g a n"
  unfolding keeps_def mapped_def by blast

lemma ptr_at_stored:
  assumes "mapped h r kRecordSize" "off + 8 \<le> kRecordSize"
  shows "ptr_at (store_bytes h (r + off) (le_bytes 8 d)) (r + off) d"
proof (unfold ptr_at_def, intro allI impI)
  fix i :: nat assume i: "i < 8"
  have "load_byte h (r + (off + i)) \<noteq> None"
    using assms i unfolding mapped_def by (metis add_less_cancel_left less_le_trans)
  then show "load_byte (store_bytes h (r + off) (le_bytes 8 d)) (r + off + i) = Some (le_bytes 8 d ! i)"
    using i by (auto simp: load_store_bytes add.assoc)
qed

lemma Intern_step:
  assumes ok: "allocator_ok alloc" and map: "mapped (ss_heap st) r kRecordSize"
    and off: "off + 8 \<le> kRecordSize" and run: "InternCryString alloc s st = Some (st', d)"
  shows "keeps (ss_heap st) (ss_heap (PutPtr r off d st')) (\<lambda>c. r + off \<le> c \<and> c < r + off + 8)"
    "field_at (ss_heap (PutPtr r off d st')) r off s"
proof -
  obtain p where p: "alloc (ss_heap st) (kCryStrHeader + length s + 1) = Some p"
    and st': "ss_heap st' = ss_heap st @ [(p, cry_buffer s)]" and d: "d = p + kCryStrHeader"
    using run by (auto simp: InternCryString_def split: option.splits)
  have p0: "0 < p" "p + kCryStrHeader + length s + 1 \<le> 2 ^ 64"
    and fresh: "\<forall>i < length (cry_buffer s). load_byte (ss_heap st) (p + i) = None"
    using ok [unfolded allocator_ok_def, rule_format, OF p] by (simp_all add: add.assoc)
  let ?h = "ss_heap st" and ?h1 = "ss_heap st @ [(p, cry_buffer s)]"
  let ?h2 = "store_bytes ?h1 (r + off) (le_bytes 8 d)"
  have h2: "ss_heap (PutPtr r off d st') = ?h2" by (simp add: PutPtr_def st')
  have k2: "keeps ?h1 ?h2 (\<lambda>c. r + off \<le> c \<and> c < r + off + 8)"
    using keeps_store [of ?h1 "r + off" "le_bytes 8 d"] by simp
  have k1: "keeps ?h ?h1 (\<lambda>c. r + off \<le> c \<and> c < r + off + 8)" by (rule keeps_new_block)
  from keeps_trans [OF k1 k2]
  show "keeps (ss_heap st) (ss_heap (PutPtr r off d st')) (\<lambda>c. r + off \<le> c \<and> c < r + off + 8)"
    unfolding h2 .
  have apart: "\<forall>c. p \<le> c \<and> c < p + length (cry_buffer s) \<longrightarrow> c < r \<or> r + kRecordSize \<le> c"
    using fresh map unfolding mapped_def
    by (metis add.commute add_diff_inverse_nat leD le_add_diff_inverse2 less_diff_conv2 linorder_not_less)
  have "cry_at ?h1 p s" using fresh by (simp add: cry_at_def heap_simps)
  from cry_at_keeps [OF k2 _ this] have "cry_at ?h2 p s"
    using apart off by (fastforce simp: not_less)
  moreover have "ptr_at ?h2 (r + off) d"
    using mapped_keeps [OF k1 map] off by (rule ptr_at_stored)
  ultimately show "field_at (ss_heap (PutPtr r off d st')) r off s"
    unfolding h2 field_at_def using p0 apart d by auto
qed

definition offsets_ok :: "nat list \<Rightarrow> bool" where
  "offsets_ok offs \<longleftrightarrow> sorted_wrt (\<lambda>a b. a + 8 \<le> b) offs \<and> (\<forall>o' \<in> set offs. o' + 8 \<le> kRecordSize)"

abbreviation field_bytes :: "nat \<Rightarrow> nat list \<Rightarrow> nat \<Rightarrow> bool" where
  "field_bytes r offs \<equiv> (\<lambda>c. \<exists>o' \<in> set offs. r + o' \<le> c \<and> c < r + o' + 8)"

lemma put_strings_spec:
  assumes "allocator_ok alloc" "mapped (ss_heap st) r kRecordSize" "offsets_ok (map fst fs)"
    and "put_strings alloc r fs st = Some st'"
  shows "keeps (ss_heap st) (ss_heap st') (field_bytes r (map fst fs))
     \<and> (\<forall>(off, s) \<in> set fs. field_at (ss_heap st') r off s)"
  using assms
proof (induction fs arbitrary: st)
  case (Cons f fs)
  obtain off s where f: "f = (off, s)" by (cases f)
  obtain st1 d where run: "InternCryString alloc s st = Some (st1, d)"
    and rest: "put_strings alloc r fs (PutPtr r off d st1) = Some st'"
    using Cons.prems(4) by (auto simp: f split: option.splits)
  have off: "off + 8 \<le> kRecordSize" and offs: "offsets_ok (map fst fs)"
    and after: "\<forall>o' \<in> set (map fst fs). off + 8 \<le> o' \<and> o' + 8 \<le> kRecordSize"
    using Cons.prems(3) by (simp_all add: offsets_ok_def f)
  note step = Intern_step [OF Cons.prems(1,2) off run]
  have IH: "keeps (ss_heap (PutPtr r off d st1)) (ss_heap st') (field_bytes r (map fst fs))"
    "\<forall>(off, s) \<in> set fs. field_at (ss_heap st') r off s"
    using Cons.IH [OF Cons.prems(1) mapped_keeps [OF step(1) Cons.prems(2)] offs rest] by simp_all
  have "field_at (ss_heap st') r off s"
  proof (rule field_at_keeps [OF IH(1) _ _ step(2)])
    fix c assume "field_bytes r (map fst fs) c"
    then obtain o' where "o' \<in> set (map fst fs)" "r + o' \<le> c" "c < r + o' + 8" by blast
    then show "r \<le> c \<and> c < r + kRecordSize" "c < r + off \<or> r + off + 8 \<le> c" using after by force+
  qed
  moreover have "keeps (ss_heap st) (ss_heap st') (field_bytes r (map fst (f # fs)))"
    by (rule keeps_trans [OF keeps_mono [OF step(1)] keeps_mono [OF IH(1)]]) (auto simp: f)
  ultimately show ?case using IH(2) by (auto simp: f)
qed simp

section \<open>Validating a built record: lemmas\<close>

lemma cry_at_bytes:
  assumes "cry_at h p s" "k + n \<le> length (cry_buffer s)"
  shows "load_bytes h (p + k) n = Some (take n (drop k (cry_buffer s)))"
proof -
  have "load_bytes h (p + k) (length (take n (drop k (cry_buffer s)))) = Some (take n (drop k (cry_buffer s)))"
    by (rule load_bytes_Some) (use assms in \<open>auto simp: cry_at_def add.assoc\<close>)
  then show ?thesis using assms(2) by (simp add: min_absorb2)
qed

lemma read_int32_le: "v < 2 ^ 31 \<Longrightarrow> read_int32 (le_bytes 4 v) = int v"
proof -
  assume v: "v < 2 ^ 31"
  then have "le_val (le_bytes 4 v) = v" by (intro le_val_le_bytes) simp
  moreover have "sint (of_nat v :: u32) = int v"
    using v by (simp add: signed_of_nat signed_take_bit_int_eq_self)
  ultimately show ?thesis by (simp add: read_int32_def)
qed

lemma scan_nul_eq:
  assumes "\<forall>j < length bs. load_byte h (d + j) = Some (bs ! j)" "i \<le> length bs"
    and "load_byte h (d + length bs) = Some 0"
  shows "scan_nul h d i k =
    (let n = length (takeWhile (\<lambda>b. b \<noteq> 0) (drop i bs)) in if n < k then Some (i + n, False) else Some (i + k, True))"
  using assms(2)
proof (induction k arbitrary: i)
  case (Suc k)
  show ?case
  proof (cases "i = length bs")
    case True
    then show ?thesis using assms(3) by simp
  next
    case False
    then have i: "i < length bs" using Suc.prems by simp
    then have "drop i bs = bs ! i # drop (Suc i) bs" by (rule Cons_nth_drop_Suc [symmetric])
    then show ?thesis
      using assms(1) i Suc.IH [of "Suc i"] by (auto simp: Let_def)
  qed
qed simp

lemma length_takeWhile_eq: "length (takeWhile P xs) = length xs \<longleftrightarrow> (\<forall>x \<in> set xs. P x)"
  by (induction xs) auto

lemma unat_of_char: "unat (of_char c :: byte) = of_char c"
  by (rule of_nat_inverse [OF of_nat_of_char]) simp

lemma of_char_byte_0: "(of_char c :: byte) = 0 \<longleftrightarrow> c = CHR 0x00"
proof
  assume "(of_char c :: byte) = 0"
  then have "(of_char c :: nat) = 0" using unat_of_char [of c] by simp
  then have "(of_char c :: nat) = of_char (CHR 0x00)" by simp
  then show "c = CHR 0x00" by (simp only: of_char_eq_iff)
qed simp

lemma field_at_valid:
  assumes f: "field_at h r off s" and len: "length s < 2 ^ 31"
  shows "\<exists>d. load_ptr h (r + off) = Some d
    \<and> (field_valid h d \<longleftrightarrow> CHR 0x00 \<notin> set s \<and> length s < kStrlenCap)"
proof -
  obtain p where p: "0 < p" "p + kCryStrHeader + length s + 1 \<le> 2 ^ 64" "ptr_at h (r + off) (p + kCryStrHeader)"
    "cry_at h p s" using f unfolding field_at_def by blast
  let ?d = "p + kCryStrHeader"
  have ptr: "load_ptr h (r + off) = Some ?d" using p(2,3) by (intro ptr_at_load) simp_all
  have "(of_nat (length s) :: u32) = of_nat (length s)" by simp
  then have u: "unat (of_nat (length s) :: u32) = length s"
    by (rule of_nat_inverse) (use len in simp)
  have buf: "cry_buffer s = le_bytes 4 0 @ le_bytes 4 1 @ le_bytes 4 (length s) @ le_bytes 4 (length s) @ char_bytes s @ [0]"
    by (simp add: cry_buffer_def Let_def u)
  have hdr: "load_bytes h (?d - 12) 4 = Some (le_bytes 4 1)" "load_bytes h (?d - 8) 4 = Some (le_bytes 4 (length s))"
    "load_bytes h (?d - 4) 4 = Some (le_bytes 4 (length s))"
    using cry_at_bytes [OF p(4), of 4 4] cry_at_bytes [OF p(4), of 8 4] cry_at_bytes [OF p(4), of 12 4]
    by (simp_all add: buf kCryStrHeader_def add.commute [of _ p])
  have chars: "load_byte h (?d + j) = Some ((char_bytes s @ [0]) ! j)" if "j \<le> length s" for j
  proof -
    have "cry_buffer s ! (16 + j) = (char_bytes s @ [0]) ! j" unfolding buf by (simp add: nth_append)
    moreover have "load_byte h (p + (16 + j)) = Some (cry_buffer s ! (16 + j))"
      using p(4) that unfolding cry_at_def by (simp add: kCryStrHeader_def)
    ultimately show ?thesis by (simp add: kCryStrHeader_def add.assoc)
  qed
  define n where "n = length (takeWhile (\<lambda>b. b \<noteq> 0) (char_bytes s))"
  have lenb: "length (char_bytes s) = length s" by (simp add: char_bytes_def)
  have c1: "\<forall>j < length (char_bytes s). load_byte h (?d + j) = Some (char_bytes s ! j)"
    using chars by (simp add: lenb nth_append)
  have c2: "load_byte h (?d + length (char_bytes s)) = Some 0"
    using chars [of "length s"] by (simp add: lenb nth_append)
  have scan: "scan_nul h ?d 0 kStrlenCap = Some (if n < kStrlenCap then (n, False) else (kStrlenCap, True))"
    using scan_nul_eq [OF c1 _ c2, of 0 kStrlenCap] by (simp add: Let_def n_def)
  have i1: "read_int32 (le_bytes 4 (Suc 0)) = 1" using read_int32_le [of "Suc 0"] by simp
  have read: "ReadCryStringFieldGuarded h ?d =
      Some \<lparr>cf_nRefs = 1, cf_nLength = int (length s), cf_nAllocSize = int (length s),
            cf_strLen = (if n < kStrlenCap then n else kStrlenCap), cf_overCap = (\<not> n < kStrlenCap)\<rparr>"
    using p(1) by (simp add: ReadCryStringFieldGuarded_def hdr scan i1 read_int32_le [OF len])
  have nul: "(n = length s) = (CHR 0x00 \<notin> set s)"
  proof -
    have "(n = length (char_bytes s)) = (\<forall>b \<in> set (char_bytes s). b \<noteq> 0)"
      unfolding n_def by (rule length_takeWhile_eq)
    also have "\<dots> = (CHR 0x00 \<notin> set s)"
      using of_char_byte_0 by (auto simp: char_bytes_def)
    finally show ?thesis by (simp add: lenb)
  qed
  have "field_valid h ?d = (n < kStrlenCap \<and> length s = n)"
    unfolding field_valid_def read option.case by (cases "n < kStrlenCap") auto
  moreover have "\<dots> = (CHR 0x00 \<notin> set s \<and> length s < kStrlenCap)" using nul by metis
  ultimately show ?thesis using ptr by blast
qed

lemma offsets_ok_fields: "offsets_ok (map fst (string_fields i))"
  by (simp add: offsets_ok_def string_fields_def kRecordSize_def)

lemma kStringFields_eq: "kStringFields = map fst (string_fields i)"
  by (simp add: kStringFields_def string_fields_def)

lemma PutPtr_heap [simp]: "ss_heap (PutPtr r off v st) = store_bytes (ss_heap st) (r + off) (le_bytes 8 v)"
  by (simp add: PutPtr_def)

lemma u64_less: "unat (w :: u64) < 2 ^ 64"
  using unsigned_less [of w, where ?'a = nat] by simp

lemma BuildRecord_spec:
  assumes ok: "allocator_ok alloc" and run: "BuildRecord alloc resolve i st = Some (st', r)" and r: "r \<noteq> 0"
  shows "keeps (ss_heap st) (ss_heap st') (\<lambda>c. False)"
    "resolve ''ImodVtable_primary'' \<noteq> 0" "resolve ''ImodVtable_subobject'' \<noteq> 0"
    "load_ptr (ss_heap st') (r + 0) = Some (unat (resolve ''ImodVtable_primary''))"
    "load_ptr (ss_heap st') (r + 0x18) = Some (unat (resolve ''ImodVtable_subobject''))"
    "\<forall>(off, s) \<in> set (string_fields i). field_at (ss_heap st') r off s"
proof -
  let ?v0 = "unat (resolve ''ImodVtable_primary'')" and ?v1 = "unat (resolve ''ImodVtable_subobject'')"
  show res: "resolve ''ImodVtable_primary'' \<noteq> 0" "resolve ''ImodVtable_subobject'' \<noteq> 0"
    using run r by (auto simp: BuildRecord_def Let_def split: if_splits)
  obtain st1 where al: "alloc (ss_heap st) kRecordSize = Some r"
    and st1: "ss_heap st1 = ss_heap st @ [(r, replicate kRecordSize 0)]"
    and put: "put_strings alloc r (string_fields i) (PutPtr r 0x18 ?v1 (PutPtr r 0 ?v0 st1)) = Some st'"
    by (rule that [of "st\<lparr>ss_heap := ss_heap st @ [(r, replicate kRecordSize 0)],
          ss_records := ss_records st @ [r]\<rparr>"])
      (use run res in \<open>auto simp: BuildRecord_def Let_def split: option.splits\<close>)
  have fresh: "\<forall>i < kRecordSize. load_byte (ss_heap st) (r + i) = None"
    using ok [unfolded allocator_ok_def, rule_format, OF al] by simp
  let ?W = "\<lambda>c. r \<le> c \<and> c < r + kRecordSize"
  let ?h2 = "store_bytes (ss_heap st1) (r + 0) (le_bytes 8 ?v0)"
  let ?h3 = "store_bytes ?h2 (r + 0x18) (le_bytes 8 ?v1)"
  have m1: "mapped (ss_heap st1) r kRecordSize"
    by (auto simp: mapped_def st1 heap_simps split: option.split)
  have k2: "keeps (ss_heap st1) ?h2 (\<lambda>c. r + 0 \<le> c \<and> c < r + 0 + 8)"
    using keeps_store [of "ss_heap st1" "r + 0" "le_bytes 8 ?v0"] by simp
  have k3: "keeps ?h2 ?h3 (\<lambda>c. r + 0x18 \<le> c \<and> c < r + 0x18 + 8)"
    using keeps_store [of ?h2 "r + 0x18" "le_bytes 8 ?v1"] by simp
  note m2 = mapped_keeps [OF k2 m1]
  note m3 = mapped_keeps [OF k3 m2]
  have all: "keeps ?h3 (ss_heap st') (field_bytes r (map fst (string_fields i)))
     \<and> (\<forall>(off, s) \<in> set (string_fields i). field_at (ss_heap st') r off s)"
    using put_strings_spec [OF ok _ offsets_ok_fields put] m3 by simp
  then show "\<forall>(off, s) \<in> set (string_fields i). field_at (ss_heap st') r off s" ..
  have k4: "keeps ?h3 (ss_heap st') (field_bytes r (map fst (string_fields i)))" using all ..
  have p2: "ptr_at ?h2 (r + 0) ?v0" using m1 by (rule ptr_at_stored) (simp add: kRecordSize_def)
  have p3: "ptr_at ?h3 (r + 0x18) ?v1" using m2 by (rule ptr_at_stored) (simp add: kRecordSize_def)
  have "ptr_at ?h3 (r + 0) ?v0" using k3 _ p2 by (rule ptr_at_keeps) auto
  with k4 _ have "ptr_at (ss_heap st') (r + 0) ?v0"
    by (rule ptr_at_keeps) (auto simp: string_fields_def)
  then show "load_ptr (ss_heap st') (r + 0) = Some ?v0"
    by (rule ptr_at_load) (rule u64_less)
  from k4 _ p3 have "ptr_at (ss_heap st') (r + 0x18) ?v1"
    by (rule ptr_at_keeps) (auto simp: string_fields_def)
  then show "load_ptr (ss_heap st') (r + 0x18) = Some ?v1"
    by (rule ptr_at_load) (rule u64_less)
  have "keeps (ss_heap st1) (ss_heap st') ?W"
    by (rule keeps_trans [OF keeps_mono [OF k2] keeps_trans [OF keeps_mono [OF k3] keeps_mono [OF k4]]])
      (auto simp: kRecordSize_def string_fields_def)
  then have "keeps (ss_heap st) (ss_heap st') ?W"
    unfolding st1 by (rule keeps_trans [OF keeps_new_block])
  then show "keeps (ss_heap st) (ss_heap st') (\<lambda>c. False)"
    using fresh unfolding keeps_def by (metis le_add_diff_inverse less_diff_conv2 add.commute option.distinct(1) linorder_not_less nat_add_left_cancel_less)
qed

lemma fields_valid_all:
  assumes "\<forall>(off, s) \<in> set fs. field_at h r off s" "\<forall>(off, s) \<in> set fs. length s < 2 ^ 31"
  shows "fields_valid h r (map fst fs)
    = Some (\<forall>(off, s) \<in> set fs. CHR 0x00 \<notin> set s \<and> length s < kStrlenCap)"
  using assms
proof (induction fs)
  case (Cons f fs)
  obtain off s where f: "f = (off, s)" by (cases f)
  obtain d where "load_ptr h (r + off) = Some d"
    and "field_valid h d \<longleftrightarrow> CHR 0x00 \<notin> set s \<and> length s < kStrlenCap"
    using field_at_valid [of h r off s] Cons.prems by (auto simp: f)
  then show ?case using Cons by (simp add: f)
qed simp

section \<open>Stability: lemmas\<close>

lemma keeps_load_bytes: "keeps h g (\<lambda>c. False) \<Longrightarrow> load_bytes h a n = Some bs \<Longrightarrow> load_bytes g a n = Some bs"
  by (induction h a n arbitrary: bs rule: load_bytes.induct) (auto simp: keeps_def split: option.splits)

lemma keeps_scan: "keeps h g (\<lambda>c. False) \<Longrightarrow> scan_nul h a i k = Some x \<Longrightarrow> scan_nul g a i k = Some x"
  by (induction h a i k rule: scan_nul.induct) (auto simp: keeps_def split: option.splits if_splits)

lemma keeps_load_ptr: "keeps h g (\<lambda>c. False) \<Longrightarrow> load_ptr h a = Some d \<Longrightarrow> load_ptr g a = Some d"
  by (auto simp: load_ptr_def dest: keeps_load_bytes)

lemma keeps_read:
  assumes "keeps h g (\<lambda>c. False)" "ReadCryStringFieldGuarded h d = Some f"
  shows "ReadCryStringFieldGuarded g d = Some f"
proof -
  obtain r l a n ov where "load_bytes h (d - 12) 4 = Some r" "load_bytes h (d - 8) 4 = Some l"
    "load_bytes h (d - 4) 4 = Some a" "scan_nul h d 0 kStrlenCap = Some (n, ov)"
    using assms(2) by (auto simp: ReadCryStringFieldGuarded_def split: if_splits option.splits)
  moreover from this have "load_bytes g (d - 12) 4 = Some r" "load_bytes g (d - 8) 4 = Some l"
    "load_bytes g (d - 4) 4 = Some a" "scan_nul g d 0 kStrlenCap = Some (n, ov)"
    using assms(1) by (blast intro: keeps_load_bytes keeps_scan)+
  ultimately show ?thesis using assms(2)
    unfolding ReadCryStringFieldGuarded_def by (cases "d = 0") simp_all
qed

lemma keeps_fields_valid:
  assumes k: "keeps h g (\<lambda>c. False)"
  shows "fields_valid h r offs = Some True \<Longrightarrow> fields_valid g r offs = Some True"
proof (induction offs)
  case (Cons off offs)
  then obtain d where d: "load_ptr h (r + off) = Some d" "field_valid h d" "fields_valid h r offs = Some True"
    by (auto split: option.splits if_splits)
  obtain f where "ReadCryStringFieldGuarded h d = Some f"
    using d(2) by (cases "ReadCryStringFieldGuarded h d") (auto simp: field_valid_def)
  with keeps_read [OF k this] have "field_valid g d"
    using d(2) by (simp add: field_valid_def)
  then show ?case using d Cons.IH keeps_load_ptr [OF k] by simp
qed simp

lemma keeps_validate:
  assumes k: "keeps h g (\<lambda>c. False)" and v: "ValidateSynthRecord img resolve h r = Some True"
  shows "ValidateSynthRecord img resolve g r = Some True"
proof -
  obtain a b where ab: "load_ptr h (r + 0) = Some a" "load_ptr h (r + 0x18) = Some b"
    using v by (auto simp: ValidateSynthRecord_def split: if_splits option.splits)
  with keeps_load_ptr [OF k] have "load_ptr g (r + 0) = Some a" "load_ptr g (r + 0x18) = Some b" by blast+
  then show ?thesis
    using v ab keeps_fields_valid [OF k] by (auto simp: ValidateSynthRecord_def split: if_splits)
qed

lemma built_record_check:
  assumes "allocator_ok alloc" and "BuildRecord alloc resolve i st = Some (st', r)" and "r \<noteq> 0"
    and "\<forall>(off, s) \<in> set (string_fields i). length s < 2 ^ 31"
    and "\<And>b e. img = Some (b, e) \<Longrightarrow>
      b \<le> unat (resolve ''ImodVtable_primary'') \<and> unat (resolve ''ImodVtable_primary'') < e
      \<and> b \<le> unat (resolve ''ImodVtable_subobject'') \<and> unat (resolve ''ImodVtable_subobject'') < e"
  shows "ValidateSynthRecord img resolve (ss_heap st') r
    = Some (\<forall>(off, s) \<in> set (string_fields i). CHR 0x00 \<notin> set s \<and> length s < kStrlenCap)"
proof -
  note b = BuildRecord_spec [OF assms(1-3)]
  have "vtable_slot_ok img (unat (resolve ''ImodVtable_primary'')) (unat (resolve ''ImodVtable_primary''))"
    "vtable_slot_ok img (unat (resolve ''ImodVtable_subobject'')) (unat (resolve ''ImodVtable_subobject''))"
    using b(2,3) assms(5) by (auto simp: vtable_slot_ok_def Let_def unat_eq_zero split: option.split)
  then show ?thesis
    using fields_valid_all [OF b(6) assms(4)] b(4,5) assms(3)
    by (simp add: ValidateSynthRecord_def kStringFields_eq [of i])
qed

section \<open>Properties\<close>

text \<open>A bump allocator, for the concrete instances.\<close>

definition bump :: allocator where
  "bump h n = (let a = fold (\<lambda>(b, bs) m. max m (b + length bs)) h 16
               in if a + n \<le> 2 ^ 64 then Some a else None)"

lemma bump_ok: "allocator_ok bump"
proof -
  have le: "m \<le> fold (\<lambda>(b, bs) m. max m (b + length bs)) h m" for h :: heap and m
  proof (induction h arbitrary: m)
    case (Cons x h)
    show ?case using Cons.IH [of "max m (fst x + length (snd x))"] by (simp add: case_prod_beta)
  qed simp
  have free: "fold (\<lambda>(b, bs) m. max m (b + length bs)) h m \<le> c \<Longrightarrow> load_byte h c = None" for h :: heap and m c
  proof (induction h arbitrary: m)
    case (Cons x h)
    then show ?case
      using le [of "max m (fst x + length (snd x))" h] by (cases x) auto
  qed simp
  have "0 < fold (\<lambda>(b, bs) m. max m (b + length bs)) h 16" for h :: heap
    using le [of 16 h] by linarith
  moreover have "load_byte h (fold (\<lambda>(b, bs) m. max m (b + length bs)) h 16 + i) = None" for h i
    by (rule free [of h 16]) simp
  ultimately show ?thesis by (auto simp: allocator_ok_def bump_def Let_def split: if_splits)
qed

text \<open>Property C13.  The keystone check is exact: a record BuildRecord returns passes
  ValidateSynthRecord precisely when none of its eight strings contains a NUL byte or is 64 KiB or
  longer.  So kcdx never drops a mod with ordinary strings, and a NUL smuggled in by a manifest
  drops the mod instead of reaching the engine.\<close>

theorem record_valid_iff:
  assumes "allocator_ok alloc" and "BuildRecord alloc resolve i st = Some (st', r)" and "r \<noteq> 0"
    and "\<forall>(off, s) \<in> set (string_fields i). length s < 2 ^ 31"
    and "\<And>b e. img = Some (b, e) \<Longrightarrow>
      b \<le> unat (resolve ''ImodVtable_primary'') \<and> unat (resolve ''ImodVtable_primary'') < e
      \<and> b \<le> unat (resolve ''ImodVtable_subobject'') \<and> unat (resolve ''ImodVtable_subobject'') < e"
  shows "ValidateSynthRecord img resolve (ss_heap st') r
    = Some (\<forall>(off, s) \<in> set (string_fields i). CHR 0x00 \<notin> set s \<and> length s < kStrlenCap)"
  using assms by (rule built_record_check)

definition sample_input :: mod_record_input where
  "sample_input = \<lparr>mi_rootPathSlash = ''m/'', mi_id = ''m'', mi_rootPathNoSlash = ''m'', mi_displayName = [],
     mi_description = [], mi_author = [], mi_version = [], mi_createdDate = []\<rparr>"

definition empty_synth :: synth where
  "empty_synth = \<lparr>ss_heap = [], ss_records = [], ss_cryStrings = []\<rparr>"

definition sample_build :: "synth \<times> nat" where
  "sample_build = the (BuildRecord bump (\<lambda>n. 0x1000) sample_input empty_synth)"

lemma top_store_bytes: "fold (\<lambda>(b, bs) m. max m (b + length bs)) (store_bytes h a vs) m
    = fold (\<lambda>(b, bs) m. max m (b + length bs)) h m" for h :: heap
proof (induction h a vs rule: store_bytes.induct)
  case (2 h a v vs)
  have "fold (\<lambda>(b, bs) m. max m (b + length bs)) (store_byte h a v) m
      = fold (\<lambda>(b, bs) m. max m (b + length bs)) h m" for m
    by (induction h a v arbitrary: m rule: store_byte.induct) auto
  then show ?case using 2 by simp
qed simp

definition heap_top :: "heap \<Rightarrow> nat" where
  "heap_top h = fold (\<lambda>(b, bs) m. max m (b + length bs)) h 16"

lemma bump_Some: "heap_top h + n \<le> 2 ^ 64 \<Longrightarrow> bump h n = Some (heap_top h)"
  by (simp add: bump_def heap_top_def)

lemma heap_top_simps:
  "heap_top (store_bytes h a vs) = heap_top h"
  "heap_top (h @ [(heap_top h, bs)]) = heap_top h + length bs"
  by (simp_all add: heap_top_def top_store_bytes)

lemma bump_put_strings:
  "heap_top (ss_heap st) + (\<Sum>(off, s) \<leftarrow> fs. 17 + length s) \<le> 2 ^ 64 \<Longrightarrow>
     \<exists>st'. put_strings bump r fs st = Some st'
       \<and> heap_top (ss_heap st') = heap_top (ss_heap st) + (\<Sum>(off, s) \<leftarrow> fs. 17 + length s)"
proof (induction fs arbitrary: st)
  case (Cons f fs)
  obtain off s where f: "f = (off, s)" by (cases f)
  have "bump (ss_heap st) (kCryStrHeader + length s + 1) = Some (heap_top (ss_heap st))"
    using Cons.prems by (intro bump_Some) (simp add: f kCryStrHeader_def)
  then show ?case
    using Cons.prems Cons.IH [of "PutPtr r off (heap_top (ss_heap st) + kCryStrHeader)
        (st\<lparr>ss_heap := ss_heap st @ [(heap_top (ss_heap st), cry_buffer s)],
           ss_cryStrings := ss_cryStrings st @ [heap_top (ss_heap st)]\<rparr>)"]
    by (simp add: f InternCryString_def heap_top_simps) (simp add: kCryStrHeader_def ac_simps)
qed simp

lemma bump_BuildRecord:
  assumes "heap_top (ss_heap st) + 248 + (\<Sum>(off, s) \<leftarrow> string_fields i. length s) \<le> 2 ^ 64"
  shows "\<exists>st'. BuildRecord bump (\<lambda>n. 0x1000) i st = Some (st', heap_top (ss_heap st))
    \<and> heap_top (ss_heap st') = heap_top (ss_heap st) + 248 + (\<Sum>(off, s) \<leftarrow> string_fields i. length s)"
proof -
  have al: "bump (ss_heap st) kRecordSize = Some (heap_top (ss_heap st))"
    using assms by (intro bump_Some) (simp add: kRecordSize_def)
  have total: "(\<Sum>(off, s) \<leftarrow> string_fields i. 17 + length s) = 136 + (\<Sum>(off, s) \<leftarrow> string_fields i. length s)"
    by (simp add: string_fields_def)
  show ?thesis
    using bump_put_strings [of "PutPtr (heap_top (ss_heap st)) 0x18 0x1000 (PutPtr (heap_top (ss_heap st)) 0 0x1000
        (st\<lparr>ss_heap := ss_heap st @ [(heap_top (ss_heap st), replicate kRecordSize 0)],
           ss_records := ss_records st @ [heap_top (ss_heap st)]\<rparr>))" "string_fields i" "heap_top (ss_heap st)"] assms
    unfolding total
    by (simp add: BuildRecord_def al heap_top_simps) (simp add: kRecordSize_def ac_simps)
qed

lemma sample_build: "BuildRecord bump (\<lambda>n. 0x1000) sample_input empty_synth = Some (fst sample_build, 16)"
  and sample_top: "heap_top (ss_heap (fst sample_build)) \<le> 1000"
  using bump_BuildRecord [of empty_synth sample_input]
  by (auto simp: sample_build_def empty_synth_def heap_top_def string_fields_def sample_input_def)

theorem record_valid_iff_witness:
  "ValidateSynthRecord (Some (0x800, 0x2000)) (\<lambda>n. 0x1000) (ss_heap (fst sample_build)) 16 = Some True"
  using record_valid_iff [OF bump_ok sample_build, of "Some (0x800, 0x2000)"]
  by (simp add: string_fields_def sample_input_def kStrlenCap_def)

inductive built :: "allocator \<Rightarrow> addr_resolver \<Rightarrow> synth \<Rightarrow> synth \<Rightarrow> bool" for alloc resolve where
  built_refl: "built alloc resolve st st"
| built_step: "built alloc resolve st st1 \<Longrightarrow> BuildRecord alloc resolve i st1 = Some (st2, r)
    \<Longrightarrow> built alloc resolve st st2"

text \<open>Records stay where they are: a record that passed the check still passes it
  after any number of later records and strings were built, so the addresses already handed to the
  engine stay good.\<close>

theorem records_stable:
  assumes "allocator_ok alloc" and "built alloc resolve st st'"
    and "ValidateSynthRecord img resolve (ss_heap st) r = Some True"
  shows "ValidateSynthRecord img resolve (ss_heap st') r = Some True"
  using assms(2,3)
proof (induction rule: built.induct)
  case (built_step st st1 i st2 q)
  have "keeps (ss_heap st1) (ss_heap st2) (\<lambda>c. False)"
  proof (cases "q = 0")
    case False
    then show ?thesis using BuildRecord_spec(1) assms(1) built_step.hyps(2) by blast
  next
    case True
    have "alloc (ss_heap st1) kRecordSize \<noteq> Some 0"
      using assms(1) unfolding allocator_ok_def by blast
    then have "st2 = st1" using True built_step.hyps(2)
      by (auto simp: BuildRecord_def Let_def split: if_splits option.splits)
    then show ?thesis by simp
  qed
  then show ?case using keeps_validate built_step by blast
qed

theorem records_stable_witness:
  "ValidateSynthRecord None (\<lambda>n. 0x1000)
     (ss_heap (fst (the (BuildRecord bump (\<lambda>n. 0x1000) sample_input (fst sample_build))))) 16 = Some True"
proof -
  have fields: "\<forall>(off, s) \<in> set (string_fields sample_input). length s < 2 ^ 31"
    by (simp add: string_fields_def sample_input_def)
  have first: "ValidateSynthRecord None (\<lambda>n. 0x1000) (ss_heap (fst sample_build)) 16 = Some True"
    using BuildRecord_spec(4-6) [OF bump_ok sample_build] fields_valid_all [OF _ fields, of "ss_heap (fst sample_build)" 16]
    by (simp add: ValidateSynthRecord_def vtable_slot_ok_def kStringFields_eq [of sample_input]
        string_fields_def sample_input_def kStrlenCap_def)
  obtain st2 r where "BuildRecord bump (\<lambda>n. 0x1000) sample_input (fst sample_build) = Some (st2, r)"
    using bump_BuildRecord [of "fst sample_build" sample_input] sample_top
    by (auto simp: string_fields_def sample_input_def)
  moreover from this have "built bump (\<lambda>n. 0x1000) (fst sample_build) st2"
    by (rule built_step [OF built_refl])
  ultimately show ?thesis using records_stable [OF bump_ok _ first] by simp
qed

end
