(* ===== verification/Enabled_List.thy ===== *)
theory Enabled_List
  imports Pak_Mods Mod_Record
begin

text \<open>
  src/mod_absorb/enabled_list_builder.cpp: the list of native mod records handed to the engine.
  Enabled pak mods and enabled plugins that ship a pak are collected, sorted by the load-order
  key, and each gets a record that is checked before it is placed.

  The folder a plugin manifest names is a \<open>node\<close>, the tree of Pak_Mods.  std::bad_alloc and an
  access violation end the build and are told apart, so that the absence of the second is a
  theorem and not a convention.
\<close>

section \<open>Candidates\<close>

record mod_candidate =
  mc_loadOrderName :: string
  mc_isPlugin :: bool
  mc_input :: mod_record_input

text \<open>\<open>path::extension\<close> of a file name.\<close>

definition path_extension :: "string \<Rightarrow> string" where
  "path_extension name =
     (let tl = takeWhile (\<lambda>c. c \<noteq> CHR ''.'') (rev name)
      in if name = ''..'' \<or> length name \<le> length tl + 1 then [] else CHR ''.'' # rev tl)"

fun is_pak_file :: "entry \<Rightarrow> bool" where
  "is_pak_file (Entry n (NDir es)) = False"
| "is_pak_file (Entry n (NFile f)) = (f \<noteq> Absent \<and> lower (path_extension n) = ''.pak'')"

definition PluginShipsPak :: "node \<Rightarrow> bool" where
  "PluginShipsPak folder =
     (case lookup_file ''Data'' (entries folder) of
        None \<Rightarrow> False
      | Some dataDir \<Rightarrow> if \<not> is_dir dataDir then False else list_ex is_pak_file (entries dataDir))"

definition is_sep :: "char \<Rightarrow> bool" where
  "is_sep c \<longleftrightarrow> c = CHR 0x5C \<or> c = CHR ''/''"

text \<open>The result is (slashForm, noSlashForm).\<close>

definition NormalizeToNativeRecordForm :: "string \<Rightarrow> string \<times> string" where
  "NormalizeToNativeRecordForm rootPath =
     (let body = map (\<lambda>c. if c = CHR ''/'' then CHR 0x5C else c) rootPath;
          body = rev (dropWhile is_sep (rev body))
      in (body @ ''/'', body))"

definition pak_candidate :: "pak_mod \<Rightarrow> mod_candidate" where
  "pak_candidate p =
     (let (slash, noSlash) = NormalizeToNativeRecordForm (pk_rootPathNoSlash p)
      in \<lparr>mc_loadOrderName = LoadOrderNameFor (pk_modId p), mc_isPlugin = False,
          mc_input = \<lparr>mi_rootPathSlash = slash, mi_id = pk_modId p, mi_rootPathNoSlash = noSlash,
            mi_displayName = mm_name (pk_manifest p), mi_description = mm_description (pk_manifest p),
            mi_author = mm_author (pk_manifest p), mi_version = mm_version (pk_manifest p),
            mi_createdDate = mm_createdOn (pk_manifest p)\<rparr>\<rparr>)"

definition plugin_candidate :: "plugin_manifest \<Rightarrow> mod_candidate" where
  "plugin_candidate m =
     (let (slash, noSlash) = NormalizeToNativeRecordForm (pm_folderPath m)
      in \<lparr>mc_loadOrderName = pm_name m, mc_isPlugin = True,
          mc_input = \<lparr>mi_rootPathSlash = slash, mi_id = pm_name m, mi_rootPathNoSlash = noSlash,
            mi_displayName = (if pm_displayName m \<noteq> [] then pm_displayName m else pm_name m),
            mi_description = pm_description m, mi_author = pm_author m, mi_version = [],
            mi_createdDate = []\<rparr>\<rparr>)"

text \<open>The two collecting loops, each with its gates.\<close>

definition collect_candidates ::
    "lo_state \<Rightarrow> (string \<Rightarrow> node) \<Rightarrow> pak_mod list \<Rightarrow> plugin_manifest list \<Rightarrow> mod_candidate list" where
  "collect_candidates s folder registry manifests =
     map pak_candidate (filter (\<lambda>p. IsPluginEnabled s (LoadOrderNameFor (pk_modId p))) registry)
     @ map plugin_candidate
         (filter (\<lambda>m. pm_name m \<noteq> [] \<and> IsPluginEnabled s (pm_name m)
            \<and> PluginShipsPak (folder (pm_folderPath m))) manifests)"

section \<open>The list\<close>

record enabled_entry =
  en_loadOrderName :: string
  en_id :: string
  en_rootPathSlash :: string
  en_isPlugin :: bool
  en_record :: nat

definition entry_of :: "mod_candidate \<Rightarrow> nat \<Rightarrow> enabled_entry" where
  "entry_of c r =
     \<lparr>en_loadOrderName = mc_loadOrderName c, en_id = mi_id (mc_input c),
      en_rootPathSlash = mi_rootPathSlash (mc_input c), en_isPlugin = mc_isPlugin c, en_record = r\<rparr>"

datatype build_fault = BadAlloc | AccessFault

text \<open>The synthesis loop: a record that is null or malformed is dropped.\<close>

fun place_records :: "allocator \<Rightarrow> addr_resolver \<Rightarrow> (nat \<times> nat) option \<Rightarrow> mod_candidate list \<Rightarrow> synth
    \<Rightarrow> build_fault + synth \<times> enabled_entry list" where
  "place_records alloc resolve img [] st = Inr (st, [])"
| "place_records alloc resolve img (c # cs) st =
     (case BuildRecord alloc resolve (mc_input c) st of
        None \<Rightarrow> Inl BadAlloc
      | Some (st1, r) \<Rightarrow>
          if r = 0 then place_records alloc resolve img cs st1
          else (case ValidateSynthRecord img resolve (ss_heap st1) r of
                  None \<Rightarrow> Inl AccessFault
                | Some ok \<Rightarrow>
                    if \<not> ok then place_records alloc resolve img cs st1
                    else (case place_records alloc resolve img cs st1 of
                            Inl e \<Rightarrow> Inl e
                          | Inr (st2, es) \<Rightarrow> Inr (st2, entry_of c r # es))))"

definition BuildEnabledList :: "allocator \<Rightarrow> addr_resolver \<Rightarrow> (nat \<times> nat) option \<Rightarrow> lo_state
    \<Rightarrow> (string \<Rightarrow> node) \<Rightarrow> pak_mod list \<Rightarrow> plugin_manifest list \<Rightarrow> synth
    \<Rightarrow> build_fault + synth \<times> nat list \<times> enabled_entry list" where
  "BuildEnabledList alloc resolve img s folder registry manifests st =
     (case place_records alloc resolve img
             (sort_key (\<lambda>c. SortKey s (mc_loadOrderName c)) (collect_candidates s folder registry manifests)) st of
        Inl e \<Rightarrow> Inl e
      | Inr (st', es) \<Rightarrow> Inr (st', map en_record es, es))"

section \<open>Lemmas\<close>

text \<open>A path in native form: no trailing separator, no forward slash in the body.\<close>

definition native_body :: "string \<Rightarrow> bool" where
  "native_body b \<longleftrightarrow> CHR ''/'' \<notin> set b \<and> (b = [] \<or> last b \<noteq> CHR 0x5C)"

lemma Normalize_native:
  "native_body (snd (NormalizeToNativeRecordForm p))
   \<and> fst (NormalizeToNativeRecordForm p) = snd (NormalizeToNativeRecordForm p) @ ''/''"
proof -
  define b where "b = map (\<lambda>c. if c = CHR ''/'' then CHR 0x5C else c) p"
  have "CHR ''/'' \<notin> set b" by (auto simp: b_def)
  moreover have "set (dropWhile is_sep (rev b)) \<subseteq> set b" by (auto dest: set_dropWhileD)
  moreover have "\<not> is_sep (last (rev (dropWhile is_sep (rev b))))" if "dropWhile is_sep (rev b) \<noteq> []"
    using that hd_dropWhile [of is_sep "rev b"] by (simp add: last_rev)
  ultimately show ?thesis
    unfolding NormalizeToNativeRecordForm_def Let_def b_def [symmetric] native_body_def is_sep_def by auto
qed

lemma Normalize_native_id: "native_body b \<Longrightarrow> snd (NormalizeToNativeRecordForm b) = b"
proof -
  assume b: "native_body b"
  have "map (\<lambda>c. if c = CHR ''/'' then CHR 0x5C else c) b = b"
    using b by (intro map_idI) (auto simp: native_body_def)
  moreover have "dropWhile is_sep (rev b) = rev b"
    using b by (cases "rev b") (auto simp: native_body_def is_sep_def)
  ultimately show ?thesis by (simp add: NormalizeToNativeRecordForm_def Let_def)
qed

definition record_ok :: "addr_resolver \<Rightarrow> mod_record_input \<Rightarrow> bool" where
  "record_ok resolve i \<longleftrightarrow>
     resolve ''ImodVtable_primary'' \<noteq> 0 \<and> resolve ''ImodVtable_subobject'' \<noteq> 0
     \<and> (\<forall>(off, s) \<in> set (string_fields i). CHR 0x00 \<notin> set s \<and> length s < kStrlenCap)"

definition vtables_in :: "(nat \<times> nat) option \<Rightarrow> addr_resolver \<Rightarrow> bool" where
  "vtables_in img resolve \<longleftrightarrow>
     (\<forall>b e n. img = Some (b, e) \<longrightarrow> n \<in> {''ImodVtable_primary'', ''ImodVtable_subobject''} \<longrightarrow>
        resolve n \<noteq> 0 \<longrightarrow> b \<le> unat (resolve n) \<and> unat (resolve n) < e)"

definition short_fields :: "mod_record_input \<Rightarrow> bool" where
  "short_fields i \<longleftrightarrow> (\<forall>(off, s) \<in> set (string_fields i). length s < 2 ^ 31)"

lemma BuildRecord_fresh:
  assumes "allocator_ok alloc" "BuildRecord alloc resolve i st = Some (st', r)" "r \<noteq> 0"
  shows "load_byte (ss_heap st) r = None"
proof -
  have al: "alloc (ss_heap st) kRecordSize = Some r"
    using assms(2,3) by (auto simp: BuildRecord_def Let_def split: if_splits option.splits)
  have "0 < kRecordSize" by (simp add: kRecordSize_def)
  then have "load_byte (ss_heap st) (r + 0) = None" using al assms(1) unfolding allocator_ok_def by blast
  then show ?thesis by simp
qed

lemma BuildRecord_null:
  assumes "allocator_ok alloc" "BuildRecord alloc resolve i st = Some (st', r)"
  shows "r = 0 \<longleftrightarrow> resolve ''ImodVtable_primary'' = 0 \<or> resolve ''ImodVtable_subobject'' = 0"
    and "r = 0 \<Longrightarrow> st' = st"
proof -
  have "alloc (ss_heap st) kRecordSize \<noteq> Some 0" using assms(1) unfolding allocator_ok_def by blast
  then show "r = 0 \<longleftrightarrow> resolve ''ImodVtable_primary'' = 0 \<or> resolve ''ImodVtable_subobject'' = 0"
    and "r = 0 \<Longrightarrow> st' = st"
    using assms(2) by (auto simp: BuildRecord_def Let_def split: if_splits option.splits)
qed

lemma load_ptr_mapped: "load_ptr h a = Some d \<Longrightarrow> load_byte h a \<noteq> None"
  by (auto simp: load_ptr_def numeral_eq_Suc split: option.splits)


lemma BuildRecord_check:
  assumes "allocator_ok alloc" "vtables_in img resolve" "short_fields i"
    and run: "BuildRecord alloc resolve i st = Some (st', r)" "r \<noteq> 0"
  shows "ValidateSynthRecord img resolve (ss_heap st') r = Some (record_ok resolve i)"
proof -
  have "resolve ''ImodVtable_primary'' \<noteq> 0" "resolve ''ImodVtable_subobject'' \<noteq> 0"
    using BuildRecord_null(1) [OF assms(1) run(1)] run(2) by auto
  with built_record_check [OF assms(1) run, of img] assms(2,3) show ?thesis
    by (auto simp: record_ok_def vtables_in_def short_fields_def)
qed

lemma BuildRecord_keeps:
  assumes "allocator_ok alloc" "BuildRecord alloc resolve i st = Some (st', r)"
  shows "keeps (ss_heap st) (ss_heap st') (\<lambda>c. False)"
  using BuildRecord_spec(1) [OF assms] BuildRecord_null(2) [OF assms] by (cases "r = 0") auto

text \<open>What the synthesis loop leaves: one entry per well-formed candidate, each a fresh, valid record.\<close>

lemma place_records_spec:
  assumes ok: "allocator_ok alloc" and vt: "vtables_in img resolve"
  shows "(\<forall>c \<in> set cs. short_fields (mc_input c)) \<Longrightarrow>
    place_records alloc resolve img cs st = Inr (st', es) \<Longrightarrow>
      map (\<lambda>e. (en_loadOrderName e, en_isPlugin e, en_id e, en_rootPathSlash e)) es
        = map (\<lambda>c. (mc_loadOrderName c, mc_isPlugin c, mi_id (mc_input c), mi_rootPathSlash (mc_input c)))
            (filter (\<lambda>c. record_ok resolve (mc_input c)) cs)
      \<and> keeps (ss_heap st) (ss_heap st') (\<lambda>c. False)
      \<and> distinct (map en_record es)
      \<and> (\<forall>e \<in> set es. en_record e \<noteq> 0 \<and> load_byte (ss_heap st) (en_record e) = None
           \<and> ValidateSynthRecord img resolve (ss_heap st') (en_record e) = Some True)"
proof (induction cs arbitrary: st es)
  case (Cons c cs)
  obtain st1 r where b: "BuildRecord alloc resolve (mc_input c) st = Some (st1, r)"
    using Cons.prems(2) by (auto split: option.splits)
  note keep = BuildRecord_keeps [OF ok b]
  have later: "load_byte (ss_heap st) a = None" if "load_byte (ss_heap st1) a = None" for a
    using keep that unfolding keeps_def by blast
  show ?case
  proof (cases "r \<noteq> 0 \<and> record_ok resolve (mc_input c)")
    case False
    have check: "ValidateSynthRecord img resolve (ss_heap st1) r = Some False" if "r \<noteq> 0"
      using BuildRecord_check [OF ok vt _ b that] Cons.prems(1) False that by simp
    have skip: "place_records alloc resolve img cs st1 = Inr (st', es)"
      using Cons.prems(2) b check by (auto split: if_splits)
    have bad: "\<not> record_ok resolve (mc_input c)"
      using False BuildRecord_null(1) [OF ok b] by (auto simp: record_ok_def)
    show ?thesis
      using Cons.IH [OF _ skip] Cons.prems(1) bad keep later by (auto intro: keeps_trans)
  next
    case True
    then have r: "r \<noteq> 0" and check: "ValidateSynthRecord img resolve (ss_heap st1) r = Some True"
      using BuildRecord_check [OF ok vt _ b] Cons.prems(1) by auto
    obtain es' where rest: "place_records alloc resolve img cs st1 = Inr (st', es')"
      and es: "es = entry_of c r # es'"
      using Cons.prems(2) b r check by (auto split: sum.splits)
    note IH = Cons.IH [OF _ rest]
    have mapped: "load_byte (ss_heap st1) r \<noteq> None"
      using BuildRecord_spec(4) [OF ok b r] load_ptr_mapped by fastforce
    have "r \<notin> en_record ` set es'" using IH Cons.prems(1) mapped by auto
    moreover have "ValidateSynthRecord img resolve (ss_heap st') r = Some True"
      using keeps_validate [OF _ check] IH Cons.prems(1) by simp
    ultimately show ?thesis
      using IH Cons.prems(1) True keep later BuildRecord_fresh [OF ok b r]
      by (auto simp: es entry_of_def intro: keeps_trans)
  qed
qed simp

lemma place_records_fault:
  assumes ok: "allocator_ok alloc" and vt: "vtables_in img resolve"
  shows "(\<forall>c \<in> set cs. short_fields (mc_input c)) \<Longrightarrow>
    place_records alloc resolve img cs st = Inl e \<Longrightarrow> e = BadAlloc"
proof (induction cs arbitrary: st)
  case (Cons c cs)
  show ?case
  proof (cases "BuildRecord alloc resolve (mc_input c) st")
    case (Some p)
    then obtain st1 r where b: "BuildRecord alloc resolve (mc_input c) st = Some (st1, r)"
      by (cases p) auto
    then show ?thesis
      using Cons.IH [of st1] Cons.prems BuildRecord_check [OF ok vt _ b]
      by (cases "r = 0") (auto split: if_splits sum.splits)
  qed (use Cons.prems in auto)
qed simp


section \<open>Properties\<close>

text \<open>What the engine must be given, as a multiset: name, kind and folder of each enabled, mountable,
  well-formed mod.\<close>

definition mountable :: "addr_resolver \<Rightarrow> lo_state \<Rightarrow> (string \<Rightarrow> node) \<Rightarrow> pak_mod list
    \<Rightarrow> plugin_manifest list \<Rightarrow> (string \<times> bool \<times> string) multiset" where
  "mountable resolve s folder registry manifests =
     image_mset (\<lambda>p. (LoadOrderNameFor (pk_modId p), False, fst (NormalizeToNativeRecordForm (pk_rootPathNoSlash p))))
       {#p \<in># mset registry. IsPluginEnabled s (LoadOrderNameFor (pk_modId p))
          \<and> record_ok resolve (mc_input (pak_candidate p))#}
     + image_mset (\<lambda>m. (pm_name m, True, fst (NormalizeToNativeRecordForm (pm_folderPath m))))
       {#m \<in># mset manifests. pm_name m \<noteq> [] \<and> IsPluginEnabled s (pm_name m)
          \<and> PluginShipsPak (folder (pm_folderPath m)) \<and> record_ok resolve (mc_input (plugin_candidate m))#}"

lemma mset_collect:
  "image_mset (\<lambda>c. (mc_loadOrderName c, mc_isPlugin c, mi_rootPathSlash (mc_input c)))
     (filter_mset (\<lambda>c. record_ok resolve (mc_input c)) (mset (collect_candidates s folder registry manifests)))
   = mountable resolve s folder registry manifests"
proof -
  have pak: "(mc_loadOrderName (pak_candidate p), mc_isPlugin (pak_candidate p), mi_rootPathSlash (mc_input (pak_candidate p)))
      = (LoadOrderNameFor (pk_modId p), False, fst (NormalizeToNativeRecordForm (pk_rootPathNoSlash p)))" for p
    by (simp add: pak_candidate_def case_prod_beta)
  have plugin: "(mc_loadOrderName (plugin_candidate m), mc_isPlugin (plugin_candidate m),
        mi_rootPathSlash (mc_input (plugin_candidate m)))
      = (pm_name m, True, fst (NormalizeToNativeRecordForm (pm_folderPath m)))" for m
    by (simp add: plugin_candidate_def case_prod_beta)
  show ?thesis
    by (simp add: mountable_def collect_candidates_def filter_mset_image_mset filter_filter_mset
        multiset.map_comp comp_def pak plugin conj_ac)
qed



definition sample_pak :: pak_mod where
  "sample_pak = \<lparr>pk_modId = ''a'', pk_rootPathSlash = ''m/a/'', pk_rootPathNoSlash = ''m/a'',
     pk_manifest = default_mod_manifest, pk_fromModsDir = True, pk_fromWorkshop = False,
     pk_modOrderIndex = -1\<rparr>"

lemma sample_pak_input:
  "pak_candidate sample_pak = \<lparr>mc_loadOrderName = ''mods.a'', mc_isPlugin = False,
     mc_input = \<lparr>mi_rootPathSlash = [CHR ''m'', CHR 0x5C, CHR ''a'', CHR ''/''], mi_id = ''a'',
       mi_rootPathNoSlash = [CHR ''m'', CHR 0x5C, CHR ''a''], mi_displayName = [],
       mi_description = [], mi_author = [], mi_version = [], mi_createdDate = []\<rparr>\<rparr>"
  by (simp add: pak_candidate_def sample_pak_def NormalizeToNativeRecordForm_def Let_def is_sep_def
      default_mod_manifest_def LoadOrderNameFor_def)


end
