(* ===== verification/Boot_Handoff.thy ===== *)
theory Boot_Handoff
  imports Init_Phase Plugin_Loader Enabled_List
begin

text \<open>
  The hand-over between kcdx's worker thread and the game's main thread during startup: the worker
  sequence of src/dllmain.cpp, the readiness event and the enabled list of
  src/mod_absorb/select_detour.cpp, the constructor replacement of
  src/mod_absorb/ctor_bracket.cpp, and the overlay gate of src/asset_overlay.cpp with the seat of
  src/fs_takeover/seating_hook.cpp that waits on it.

  The two threads interleave freely: a step of the relation is one action of either.  What one
  thread fills while the other may read it is a \<open>shared\<close> cell that passes through \<open>Filling\<close>, so a
  read of a half-written value would be visible.  Whether Windows creates an event, a hook installs
  or an engine entity resolves is a parameter.
\<close>

section \<open>State\<close>

datatype win_event = NoEvent | Unsignaled | Signaled

datatype 'a shared = Untouched | Filling | Filled 'a

datatype worker_op =
    CreateReadyEvent
  | InstallCtorBracket
  | CreateOverlayReadyEvent
  | InstallSeatingHook
  | BeginOverlayMap
  | EndOverlayMap
  | SignalOverlayReady
  | BeginEnabledList
  | EndEnabledList
  | SignalReady
  | Advance InitPhase

datatype game_pc = BeforeSeat | SeatWaiting | BeforeCtor | CtorWaiting | CtorReturned

text \<open>
  How the engine's C_ModManager came to be: natively, not at all, or by kcdx: the bytes of the
  object and the list that was read for it.
\<close>

datatype mod_manager = NativeCtor | NoModManager | KcdxCtor "byte list" "nat list shared"

record boot_env =
  be_readyCreated :: bool
  be_overlayCreated :: bool
  be_bracketHooked :: bool
  be_seatHooked :: bool
  be_swapped :: bool
  be_resolved :: bool
  be_allocated :: bool
  be_overlayMap :: "string list"
  be_enabledList :: "nat list"
  be_listData :: nat
  be_vtable :: nat
  be_sys :: nat
  be_modsDir :: nat
  be_loader :: loader_env
  be_manifests :: "plugin_manifest list"

record boot =
  bt_worker :: "worker_op list"
  bt_game :: game_pc
  bt_ready :: win_event
  bt_overlay :: win_event
  bt_bracket :: bool
  bt_seat :: bool
  bt_overlayMap :: "string list shared"
  bt_enabledList :: "nat list shared"
  bt_phase :: InitPhase
  bt_index :: "string list shared option"
  bt_modManager :: "mod_manager option"

section \<open>The worker\<close>

text \<open>What the loader's trace means for the overlay gate.\<close>

fun overlay_actions :: "loader_event \<Rightarrow> worker_op list" where
  "overlay_actions OverlayBuilt = [BeginOverlayMap, EndOverlayMap]"
| "overlay_actions OverlayReady = [SignalOverlayReady]"
| "overlay_actions _ = []"

definition worker_program :: "boot_env \<Rightarrow> worker_op list" where
  "worker_program env =
     [CreateReadyEvent, InstallCtorBracket, Advance CtorBracketInstalled, CreateOverlayReadyEvent,
      InstallSeatingHook]
     @ concat (map overlay_actions (snd (DiscoverAndLoad (be_loader env) (be_manifests env))))
     @ [Advance PluginsLoaded, BeginEnabledList, EndEnabledList, SignalReady,
        Advance EnabledListBuiltAndReady]"

text \<open>SetEvent on a null handle is skipped with a log line.\<close>

fun SetEvent :: "win_event \<Rightarrow> win_event" where
  "SetEvent NoEvent = NoEvent"
| "SetEvent _ = Signaled"

fun worker_action :: "boot_env \<Rightarrow> worker_op \<Rightarrow> boot \<Rightarrow> boot" where
  "worker_action env CreateReadyEvent s =
     s\<lparr>bt_ready := if be_readyCreated env then Unsignaled else NoEvent\<rparr>"
| "worker_action env InstallCtorBracket s = s\<lparr>bt_bracket := be_bracketHooked env\<rparr>"
| "worker_action env CreateOverlayReadyEvent s =
     s\<lparr>bt_overlay := if be_overlayCreated env then Unsignaled else NoEvent\<rparr>"
| "worker_action env InstallSeatingHook s = s\<lparr>bt_seat := be_seatHooked env\<rparr>"
| "worker_action env BeginOverlayMap s = s\<lparr>bt_overlayMap := Filling\<rparr>"
| "worker_action env EndOverlayMap s = s\<lparr>bt_overlayMap := Filled (be_overlayMap env)\<rparr>"
| "worker_action env SignalOverlayReady s = s\<lparr>bt_overlay := SetEvent (bt_overlay s)\<rparr>"
| "worker_action env BeginEnabledList s = s\<lparr>bt_enabledList := Filling\<rparr>"
| "worker_action env EndEnabledList s = s\<lparr>bt_enabledList := Filled (be_enabledList env)\<rparr>"
| "worker_action env SignalReady s = s\<lparr>bt_ready := SetEvent (bt_ready s)\<rparr>"
| "worker_action env (Advance p) s = s\<lparr>bt_phase := AdvanceTo p (bt_phase s)\<rparr>"

definition worker_step :: "boot_env \<Rightarrow> boot \<Rightarrow> boot option" where
  "worker_step env s =
     (case bt_worker s of
        [] \<Rightarrow> None
      | a # rest \<Rightarrow> Some ((worker_action env a s)\<lparr>bt_worker := rest\<rparr>))"

section \<open>The game thread\<close>

definition WritePtrAt :: "byte list \<Rightarrow> nat \<Rightarrow> nat \<Rightarrow> byte list" where
  "WritePtrAt base off v = take off base @ le_bytes 8 v @ drop (off + 8) base"

definition kObjectSize :: nat where
  "kObjectSize = 0x68"

text \<open>
  The object for a list of \<open>n\<close> records: vtable, sys, the mods-directory string (the engine's
  placement helper writes its pointer), begin, end and capacity of the list, the init flag.
\<close>

definition mod_manager_object :: "boot_env \<Rightarrow> nat \<Rightarrow> byte list" where
  "mod_manager_object env n =
     (let base = replicate kObjectSize 0;
          base = WritePtrAt base 0x00 (be_vtable env);
          base = WritePtrAt base 0x08 (be_sys env);
          base = WritePtrAt base 0x10 (be_modsDir env);
          base = (if n > 0
                  then WritePtrAt (WritePtrAt (WritePtrAt base 0x30 (be_listData env))
                         0x38 (be_listData env + n * 8)) 0x40 (be_listData env + n * 8)
                  else base)
      in base[0x60 := 1])"

fun shared_size :: "'a list shared \<Rightarrow> nat" where
  "shared_size (Filled xs) = length xs"
| "shared_size _ = 0"

definition finish_ctor :: "boot_env \<Rightarrow> boot \<Rightarrow> boot" where
  "finish_ctor env s =
     s\<lparr>bt_game := CtorReturned,
       bt_modManager := Some (if be_allocated env
         then KcdxCtor (mod_manager_object env (shared_size (bt_enabledList s))) (bt_enabledList s)
         else NoModManager)\<rparr>"

text \<open>
  One function per stretch between two points where the thread may wait; a wait on an event that
  is not signaled has no step.  The construct-store site comes first: without the hook the engine
  keeps its own vtable.
\<close>

definition HookedConstructStore :: "boot_env \<Rightarrow> boot \<Rightarrow> boot" where
  "HookedConstructStore env s =
     s\<lparr>bt_game := (if \<not> bt_seat s \<or> \<not> be_swapped env then BeforeCtor else SeatWaiting)\<rparr>"

definition BuildAssetIndexAtSeat :: "boot_env \<Rightarrow> boot \<Rightarrow> boot option" where
  "BuildAssetIndexAtSeat env s =
     (if bt_overlay s = NoEvent then Some (s\<lparr>bt_game := BeforeCtor\<rparr>)
      else if bt_overlay s = Signaled
      then Some (s\<lparr>bt_game := BeforeCtor, bt_index := Some (bt_overlayMap s)\<rparr>)
      else None)"

text \<open>The constructor, up to its wait and after it.\<close>

definition HookedCtor :: "boot_env \<Rightarrow> boot \<Rightarrow> boot" where
  "HookedCtor env s =
     (if \<not> be_resolved env then s\<lparr>bt_game := CtorReturned, bt_modManager := Some NoModManager\<rparr>
      else if bt_ready s = NoEvent then finish_ctor env s
      else s\<lparr>bt_game := CtorWaiting\<rparr>)"

definition ModManager_ctor :: "boot_env \<Rightarrow> boot \<Rightarrow> boot" where
  "ModManager_ctor env s =
     (if bt_bracket s then HookedCtor env s
      else s\<lparr>bt_game := CtorReturned, bt_modManager := Some NativeCtor\<rparr>)"

definition game_step :: "boot_env \<Rightarrow> boot \<Rightarrow> boot option" where
  "game_step env s =
     (case bt_game s of
        BeforeSeat \<Rightarrow> Some (HookedConstructStore env s)
      | SeatWaiting \<Rightarrow> BuildAssetIndexAtSeat env s
      | BeforeCtor \<Rightarrow> Some (ModManager_ctor env s)
      | CtorWaiting \<Rightarrow> if bt_ready s = Signaled then Some (finish_ctor env s) else None
      | CtorReturned \<Rightarrow> None)"

section \<open>Runs\<close>

definition boot_init :: "boot_env \<Rightarrow> boot" where
  "boot_init env =
     \<lparr>bt_worker = worker_program env, bt_game = BeforeSeat, bt_ready = NoEvent, bt_overlay = NoEvent,
      bt_bracket = False, bt_seat = False, bt_overlayMap = Untouched, bt_enabledList = Untouched,
      bt_phase = EngineHooksInstalled, bt_index = None, bt_modManager = None\<rparr>"

inductive boot_step :: "boot_env \<Rightarrow> boot \<Rightarrow> boot \<Rightarrow> bool" for env where
  worker: "worker_step env s = Some t \<Longrightarrow> boot_step env s t"
| game: "game_step env s = Some t \<Longrightarrow> boot_step env s t"

inductive boot_reach :: "boot_env \<Rightarrow> boot \<Rightarrow> bool" for env where
  init: "boot_reach env (boot_init env)"
| step: "boot_reach env s \<Longrightarrow> boot_step env s t \<Longrightarrow> boot_reach env t"

inductive_simps boot_step_iff: "boot_step env s t"

section \<open>Lemmas\<close>

lemmas game_defs = game_step_def HookedConstructStore_def BuildAssetIndexAtSeat_def ModManager_ctor_def
  HookedCtor_def finish_ctor_def

text \<open>The loader's trace asks for the overlay gate once, right after the map, or not at all.\<close>

abbreviation overlay_signalled :: "boot_env \<Rightarrow> bool" where
  "overlay_signalled env \<equiv> OverlayReady \<in> set (snd (DiscoverAndLoad (be_loader env) (be_manifests env)))"

lemma overlay_actions_waves:
  "concat (map overlay_actions (open_streams ps)) = []"
  "concat (map overlay_actions (preload_wave le ps)) = []"
  "concat (map overlay_actions (snd (load_wave le ps))) = []"
  by (auto simp: open_streams_def preload_wave_def load_wave_def load_one_def Let_def split: if_splits)

lemma overlay_not_in_waves:
  "OverlayReady \<notin> set (open_streams ps)" "OverlayReady \<notin> set (preload_wave le ps)"
  "OverlayReady \<notin> set (snd (load_wave le ps))"
  by (auto simp: open_streams_def preload_wave_def load_wave_def load_one_events)

lemma worker_program_eq:
  "worker_program env =
     [CreateReadyEvent, InstallCtorBracket, Advance CtorBracketInstalled, CreateOverlayReadyEvent,
      InstallSeatingHook]
     @ (if overlay_signalled env then [BeginOverlayMap, EndOverlayMap, SignalOverlayReady] else [])
     @ [Advance PluginsLoaded, BeginEnabledList, EndEnabledList, SignalReady,
        Advance EnabledListBuiltAndReady]"
  unfolding worker_program_def snd_DiscoverAndLoad
  by (simp add: Let_def overlay_actions_waves overlay_not_in_waves)

lemma overlay_signalled_iff:
  "overlay_signalled env \<longleftrightarrow>
     le_dirOk (be_loader env) \<and> survivors (le_runtime (be_loader env)) (be_manifests env) \<noteq> []"
  by (auto simp: snd_DiscoverAndLoad Let_def overlay_not_in_waves)

text \<open>The worker's part of the state depends only on how far the worker is.\<close>

definition worker_view where
  "worker_view s = (bt_ready s, bt_overlay s, bt_bracket s, bt_seat s, bt_overlayMap s, bt_enabledList s, bt_phase s)"

lemma worker_action_view:
  "worker_view s = worker_view t \<Longrightarrow> worker_view (worker_action env a s) = worker_view (worker_action env a t)"
  by (cases a) (simp_all add: worker_view_def)

lemma game_step_view:
  "game_step env s = Some t \<Longrightarrow> worker_view t = worker_view s \<and> bt_worker t = bt_worker s"
  by (cases "bt_game s") (auto simp: game_defs worker_view_def split: if_splits)

lemma worker_step_game:
  "worker_step env s = Some t \<Longrightarrow>
     bt_game t = bt_game s \<and> bt_index t = bt_index s \<and> bt_modManager t = bt_modManager s"
  by (cases "hd (bt_worker s)") (auto simp: worker_step_def split: list.splits)

definition worker_at :: "boot_env \<Rightarrow> nat \<Rightarrow> boot" where
  "worker_at env n = fold (worker_action env) (take n (worker_program env)) (boot_init env)"

lemma worker_at_Suc:
  "n < length (worker_program env) \<Longrightarrow>
     worker_at env (Suc n) = worker_action env (worker_program env ! n) (worker_at env n)"
  by (simp add: worker_at_def take_Suc_conv_app_nth)

lemma reach_worker_at:
  "boot_reach env s \<Longrightarrow> \<exists>n \<le> length (worker_program env).
     bt_worker s = drop n (worker_program env) \<and> worker_view s = worker_view (worker_at env n)"
proof (induction rule: boot_reach.induct)
  case init
  show ?case by (rule exI [of _ 0]) (simp add: boot_init_def worker_at_def)
next
  case (step s t)
  then obtain n where n: "n \<le> length (worker_program env)" "bt_worker s = drop n (worker_program env)"
    "worker_view s = worker_view (worker_at env n)" by blast
  from step.hyps(2) show ?case
  proof (cases rule: boot_step.cases)
    case game
    then show ?thesis using game_step_view n by metis
  next
    case worker
    then obtain a rest where a: "bt_worker s = a # rest" and t: "t = (worker_action env a s)\<lparr>bt_worker := rest\<rparr>"
      by (auto simp: worker_step_def split: list.splits)
    have lt: "n < length (worker_program env)" using n(2) a by (cases "n < length (worker_program env)") auto
    then have "a = worker_program env ! n" "rest = drop (Suc n) (worker_program env)"
      using n(2) a by (simp_all add: Cons_nth_drop_Suc [symmetric])
    moreover have "worker_view t = worker_view (worker_action env a s)" by (simp add: t worker_view_def)
    ultimately have "bt_worker t = drop (Suc n) (worker_program env)"
      "worker_view t = worker_view (worker_action env (worker_program env ! n) s)" by (simp_all add: t)
    then show ?thesis
      using worker_action_view [OF n(3)] lt by (intro exI [of _ "Suc n"]) (simp add: worker_at_Suc)
  qed
qed

text \<open>What holds of the worker's part at every point of its program.\<close>

definition worker_inv :: "boot_env \<Rightarrow> boot \<Rightarrow> bool" where
  "worker_inv env s \<longleftrightarrow>
     (bt_ready s = Signaled \<longrightarrow> bt_enabledList s = Filled (be_enabledList env))
     \<and> (bt_overlay s = Signaled \<longrightarrow> bt_overlayMap s = Filled (be_overlayMap env) \<and> overlay_signalled env)
     \<and> (bt_bracket s \<longrightarrow> (bt_ready s \<noteq> NoEvent \<longleftrightarrow> be_readyCreated env))
     \<and> (bt_seat s \<longrightarrow> (bt_overlay s \<noteq> NoEvent \<longleftrightarrow> be_overlayCreated env) \<and> be_seatHooked env)
     \<and> (EnabledListBuiltAndReady \<le> bt_phase s \<longrightarrow> bt_enabledList s = Filled (be_enabledList env))"

lemma worker_inv_view: "worker_view s = worker_view t \<Longrightarrow> worker_inv env s = worker_inv env t"
  by (simp add: worker_view_def worker_inv_def)

lemma worker_at_inv: "n \<le> length (worker_program env) \<Longrightarrow> worker_inv env (worker_at env n)"
proof -
  assume n: "n \<le> length (worker_program env)"
  have all: "\<forall>k \<in> set [0..<14]. worker_inv env (worker_at env k)"
    unfolding worker_at_def worker_program_eq
    by (cases "overlay_signalled env"; cases "be_readyCreated env"; cases "be_overlayCreated env")
      (simp_all add: worker_inv_def boot_init_def AdvanceTo_def less_InitPhase_def less_eq_InitPhase_def
        upt_rec)
  have "length (worker_program env) \<le> 13" by (simp add: worker_program_eq)
  then show ?thesis using n all by simp
qed

lemma reach_worker_inv: "boot_reach env s \<Longrightarrow> worker_inv env s"
  using reach_worker_at worker_at_inv worker_inv_view by metis

lemma worker_done:
  assumes "boot_reach env s" "bt_worker s = []"
  shows "worker_view s = worker_view (worker_at env (length (worker_program env)))"
  using reach_worker_at [OF assms(1)] assms(2) by auto


text \<open>What the game thread took over: complete values only, unless an event could not be created.\<close>

definition game_inv :: "boot_env \<Rightarrow> boot \<Rightarrow> bool" where
  "game_inv env s \<longleftrightarrow>
     (\<forall>obj x. bt_modManager s = Some (KcdxCtor obj x) \<longrightarrow> be_readyCreated env \<longrightarrow>
        x = Filled (be_enabledList env) \<and> obj = mod_manager_object env (length (be_enabledList env)))
     \<and> (\<forall>m. bt_index s = Some m \<longrightarrow> m = Filled (be_overlayMap env))
     \<and> (bt_game s = SeatWaiting \<longrightarrow> be_swapped env \<and> be_seatHooked env)
     \<and> (bt_game s = CtorWaiting \<longrightarrow> be_readyCreated env)
     \<and> (bt_game s = CtorReturned \<longleftrightarrow> bt_modManager s \<noteq> None)"

lemma game_step_inv:
  assumes w: "worker_inv env s" and g: "game_inv env s" and step: "game_step env s = Some t"
  shows "game_inv env t"
proof (cases "bt_game s")
  case BeforeSeat
  then have "t = s\<lparr>bt_game := BeforeCtor\<rparr> \<or> t = s\<lparr>bt_game := SeatWaiting\<rparr> \<and> bt_seat s \<and> be_swapped env"
    using step by (simp add: game_step_def HookedConstructStore_def split: if_splits)
  then show ?thesis using w g BeforeSeat
    by (elim disjE conjE) (simp_all add: game_inv_def worker_inv_def)
next
  case SeatWaiting
  then have "t = s\<lparr>bt_game := BeforeCtor\<rparr>
      \<or> bt_overlay s = Signaled \<and> t = s\<lparr>bt_game := BeforeCtor, bt_index := Some (bt_overlayMap s)\<rparr>"
    using step by (auto simp: game_step_def BuildAssetIndexAtSeat_def split: if_splits)
  then show ?thesis using w g SeatWaiting
    by (elim disjE conjE) (simp_all add: game_inv_def worker_inv_def)
next
  case BeforeCtor
  then have "t = s\<lparr>bt_game := CtorReturned, bt_modManager := Some NativeCtor\<rparr>
      \<or> t = s\<lparr>bt_game := CtorReturned, bt_modManager := Some NoModManager\<rparr>
      \<or> t = finish_ctor env s \<and> bt_bracket s \<and> bt_ready s = NoEvent
      \<or> t = s\<lparr>bt_game := CtorWaiting\<rparr> \<and> bt_bracket s \<and> bt_ready s \<noteq> NoEvent"
    using step by (simp add: game_step_def ModManager_ctor_def HookedCtor_def split: if_splits)
  then show ?thesis using w g BeforeCtor
    by (elim disjE conjE) (simp_all add: game_inv_def worker_inv_def finish_ctor_def)
next
  case CtorWaiting
  then have "bt_ready s = Signaled" "t = finish_ctor env s"
    using step by (simp_all add: game_step_def split: if_splits)
  then show ?thesis using w g CtorWaiting by (simp add: game_inv_def worker_inv_def finish_ctor_def)
next
  case CtorReturned
  then show ?thesis using step by (simp add: game_step_def)
qed

lemma reach_game_inv: "boot_reach env s \<Longrightarrow> game_inv env s"
proof (induction rule: boot_reach.induct)
  case init
  show ?case by (simp add: game_inv_def boot_init_def)
next
  case (step s t)
  from step.hyps(2) show ?case
  proof (cases rule: boot_step.cases)
    case worker
    then show ?thesis using step.IH worker_step_game [OF worker] by (simp add: game_inv_def)
  next
    case game
    then show ?thesis using step reach_worker_inv game_step_inv by blast
  qed
qed

text \<open>Every step uses up one action of the worker or one of at most four of the game thread.\<close>

fun game_left :: "game_pc \<Rightarrow> nat" where
  "game_left BeforeSeat = 4"
| "game_left SeatWaiting = 3"
| "game_left BeforeCtor = 2"
| "game_left CtorWaiting = 1"
| "game_left CtorReturned = 0"

definition steps_left :: "boot \<Rightarrow> nat" where
  "steps_left s = length (bt_worker s) + game_left (bt_game s)"

lemma boot_step_decreases:
  assumes "boot_step env s t"
  shows "steps_left t < steps_left s"
  using assms
proof (cases rule: boot_step.cases)
  case worker
  then have "length (bt_worker t) < length (bt_worker s)" by (auto simp: worker_step_def split: list.splits)
  then show ?thesis using worker_step_game [OF worker] by (simp add: steps_left_def)
next
  case game
  then have "game_left (bt_game t) < game_left (bt_game s)"
    by (cases "bt_game s") (auto simp: game_defs split: if_splits)
  then show ?thesis using game_step_view [OF game] by (simp add: steps_left_def)
qed

definition stuck :: "boot_env \<Rightarrow> boot \<Rightarrow> bool" where
  "stuck env s \<longleftrightarrow> (\<nexists>t. boot_step env s t)"

lemma stuck_iff: "stuck env s \<longleftrightarrow> worker_step env s = None \<and> game_step env s = None"
  unfolding stuck_def boot_step_iff by (metis not_None_eq)

lemma stuck_worker: "stuck env s \<Longrightarrow> bt_worker s = []"
  by (auto simp: stuck_iff worker_step_def split: list.splits)

lemma worker_end_events:
  assumes "boot_reach env s" "bt_worker s = []"
  shows "be_readyCreated env \<Longrightarrow> bt_ready s = Signaled"
    and "be_overlayCreated env \<Longrightarrow> overlay_signalled env \<Longrightarrow> bt_overlay s = Signaled"
    and "\<not> be_overlayCreated env \<Longrightarrow> bt_overlay s = NoEvent"
  using worker_done [OF assms]
  by (auto simp: worker_view_def worker_at_def worker_program_eq boot_init_def)

lemma stuck_game:
  assumes "boot_reach env s" "stuck env s" "bt_game s \<noteq> CtorReturned"
  shows "bt_game s = SeatWaiting \<and> be_overlayCreated env \<and> \<not> overlay_signalled env"
proof -
  note fin = worker_end_events [OF assms(1) stuck_worker [OF assms(2)]]
  note inv = reach_game_inv [OF assms(1)]
  have "game_step env s = None" using assms(2) by (simp add: stuck_iff)
  then show ?thesis
    using fin inv assms(3)
    by (cases "bt_game s") (auto simp: game_defs game_inv_def split: if_splits)
qed


text \<open>The run in which the worker finishes before the game thread moves.\<close>

lemma worker_first:
  "n \<le> length (worker_program env) \<Longrightarrow>
     boot_reach env ((worker_at env n)\<lparr>bt_worker := drop n (worker_program env)\<rparr>)"
proof (induction n)
  case 0
  have "(worker_at env 0)\<lparr>bt_worker := drop 0 (worker_program env)\<rparr> = boot_init env"
    by (simp add: worker_at_def boot_init_def)
  then show ?case by (simp only: boot_reach.init)
next
  case (Suc n)
  then have lt: "n < length (worker_program env)" by simp
  have upd: "(worker_action env a (x\<lparr>bt_worker := w\<rparr>))\<lparr>bt_worker := v\<rparr> = (worker_action env a x)\<lparr>bt_worker := v\<rparr>" for a x v w
    by (cases a) simp_all
  have "worker_step env ((worker_at env n)\<lparr>bt_worker := drop n (worker_program env)\<rparr>)
      = Some ((worker_at env (Suc n))\<lparr>bt_worker := drop (Suc n) (worker_program env)\<rparr>)"
    using lt by (simp add: worker_step_def Cons_nth_drop_Suc [symmetric] worker_at_Suc upd)
  then show ?case using Suc by (meson Suc_leD boot_reach.step boot_step.worker)
qed

lemma worker_action_game [simp]: "bt_game (worker_action env a s) = bt_game s"
  by (cases a) simp_all

lemma worker_at_game [simp]: "bt_game (worker_at env n) = BeforeSeat"
proof -
  have "bt_game (fold (worker_action env) as s) = bt_game s" for as s
    by (induction as arbitrary: s) simp_all
  then show ?thesis by (simp add: worker_at_def boot_init_def)
qed

text \<open>Reading a pointer field of the object back.\<close>

definition read_ptr :: "byte list \<Rightarrow> nat \<Rightarrow> nat" where
  "read_ptr b off = le_val (take 8 (drop off b))"

lemma length_WritePtrAt [simp]: "off + 8 \<le> length b \<Longrightarrow> length (WritePtrAt b off v) = length b"
  by (simp add: WritePtrAt_def)

lemma read_WritePtrAt:
  assumes "off + 8 \<le> length b"
  shows "v < 2 ^ 64 \<Longrightarrow> read_ptr (WritePtrAt b off v) off = v"
    and "off' + 8 \<le> off \<or> off + 8 \<le> off' \<Longrightarrow> read_ptr (WritePtrAt b off v) off' = read_ptr b off'"
proof -
  assume "v < 2 ^ 64"
  then have "le_val (le_bytes 8 v) = v" by (intro le_val_le_bytes) simp
  then show "read_ptr (WritePtrAt b off v) off = v"
    using assms by (simp add: read_ptr_def WritePtrAt_def)
next
  assume off': "off' + 8 \<le> off \<or> off + 8 \<le> off'"
  have "take 8 (drop off' (WritePtrAt b off v)) = take 8 (drop off' b)"
    using off' assms
    by (intro nth_equalityI) (auto simp: WritePtrAt_def nth_append)
  then show "read_ptr (WritePtrAt b off v) off' = read_ptr b off'" by (simp add: read_ptr_def)
qed

lemma read_init_flag: "off + 8 \<le> i \<Longrightarrow> read_ptr (b[i := v]) off = read_ptr b off"
  by (simp add: read_ptr_def drop_update_swap take_update_swap list_update_beyond flip: take_drop)

lemma object_range:
  assumes "be_listData env + 8 * n < 2 ^ 64"
  shows "length (mod_manager_object env n) = kObjectSize
    \<and> read_ptr (mod_manager_object env n) 0x38 = read_ptr (mod_manager_object env n) 0x30 + 8 * n
    \<and> (n \<noteq> 0 \<longrightarrow> read_ptr (mod_manager_object env n) 0x30 = be_listData env)"
proof -
  have zero: "read_ptr (replicate k 0) off = 0" for k off
  proof -
    have "le_val (replicate k 0) = 0" for k by (induction k) simp_all
    then show ?thesis by (simp add: read_ptr_def)
  qed
  show ?thesis
    using assms
    by (simp add: mod_manager_object_def Let_def read_init_flag read_WritePtrAt zero kObjectSize_def mult.commute)
qed

section \<open>Properties\<close>

text \<open>Property C9.  The game never takes over an unfinished value: in every interleaving, the mod list
  kcdx puts into C_ModManager is the complete list BuildEnabledList returned and the asset index is
  built from the complete overlay map, even though the game thread may reach both sites long before
  the worker; the one condition is that Windows created the readiness event.  The object's list
  fields span exactly the records of that list.\<close>

theorem handoff_complete:
  assumes "boot_reach env s" and "be_readyCreated env"
    and "be_listData env + 8 * length (be_enabledList env) < 2 ^ 64"
  shows "(\<forall>obj x. bt_modManager s = Some (KcdxCtor obj x) \<longrightarrow>
        x = Filled (be_enabledList env) \<and> length obj = kObjectSize
        \<and> read_ptr obj 0x38 = read_ptr obj 0x30 + 8 * length (be_enabledList env)
        \<and> (be_enabledList env \<noteq> [] \<longrightarrow> read_ptr obj 0x30 = be_listData env))
    \<and> (\<forall>m. bt_index s = Some m \<longrightarrow> m = Filled (be_overlayMap env))
    \<and> (EnabledListBuiltAndReady \<le> bt_phase s \<longrightarrow> bt_enabledList s = Filled (be_enabledList env))"
proof -
  have "x = Filled (be_enabledList env) \<and> length obj = kObjectSize
        \<and> read_ptr obj 0x38 = read_ptr obj 0x30 + 8 * length (be_enabledList env)
        \<and> (be_enabledList env \<noteq> [] \<longrightarrow> read_ptr obj 0x30 = be_listData env)"
    if built: "bt_modManager s = Some (KcdxCtor obj x)" for obj x
  proof -
    have "x = Filled (be_enabledList env) \<and> obj = mod_manager_object env (length (be_enabledList env))"
      using reach_game_inv [OF assms(1)] assms(2) built unfolding game_inv_def by blast
    then show ?thesis using object_range [OF assms(3)] by simp
  qed
  moreover have "(\<forall>m. bt_index s = Some m \<longrightarrow> m = Filled (be_overlayMap env))
    \<and> (EnabledListBuiltAndReady \<le> bt_phase s \<longrightarrow> bt_enabledList s = Filled (be_enabledList env))"
    using reach_game_inv [OF assms(1)] reach_worker_inv [OF assms(1)]
    unfolding game_inv_def worker_inv_def by blast
  ultimately show ?thesis by blast
qed

text \<open>A boot in which the loader runs the full path and everything Windows is asked for succeeds.\<close>

definition good_boot :: boot_env where
  "good_boot =
     \<lparr>be_readyCreated = True, be_overlayCreated = True, be_bracketHooked = True, be_seatHooked = True,
      be_swapped = True, be_resolved = True, be_allocated = True, be_overlayMap = [''a''],
      be_enabledList = [0x10, 0x80], be_listData = 0x1000, be_vtable = 0x7000, be_sys = 0x8000, be_modsDir = 0x9000,
      be_loader = one_dll_env \<lparr>g_userOverrides = Map.empty, g_effective = Map.empty\<rparr>,
      be_manifests = [bare_manifest ''b'' []]\<rparr>"

lemma good_boot_signalled: "overlay_signalled good_boot"
proof -
  have "survivors ''1.5'' [bare_manifest ''b'' []] \<noteq> []" by code_simp
  then show ?thesis unfolding overlay_signalled_iff by (simp add: good_boot_def one_dll_env_def)
qed

theorem handoff_complete_witness:
  "\<exists>s. boot_reach good_boot s \<and> (\<exists>obj. bt_modManager s = Some (KcdxCtor obj (Filled [0x10, 0x80]))
        \<and> read_ptr obj 0x30 = 0x1000 \<and> read_ptr obj 0x38 = 0x1010)
     \<and> bt_index s = Some (Filled [''a''])"
proof -
  define s where "s = (worker_at good_boot (length (worker_program good_boot)))\<lparr>bt_worker := []\<rparr>"
  have "bt_seat s" "bt_overlay s = Signaled" "bt_game s = BeforeSeat" "bt_bracket s" "bt_ready s = Signaled"
    using good_boot_signalled
    by (simp_all add: s_def worker_at_def worker_program_eq boot_init_def)
      (simp_all add: good_boot_def)
  then have steps:
    "game_step good_boot s = Some (s\<lparr>bt_game := SeatWaiting\<rparr>)"
    "game_step good_boot (s\<lparr>bt_game := SeatWaiting\<rparr>)
       = Some (s\<lparr>bt_game := BeforeCtor, bt_index := Some (bt_overlayMap s)\<rparr>)"
    "game_step good_boot (s\<lparr>bt_game := BeforeCtor, bt_index := Some (bt_overlayMap s)\<rparr>)
       = Some (s\<lparr>bt_game := CtorWaiting, bt_index := Some (bt_overlayMap s)\<rparr>)"
    "game_step good_boot (s\<lparr>bt_game := CtorWaiting, bt_index := Some (bt_overlayMap s)\<rparr>)
       = Some (s\<lparr>bt_game := CtorReturned, bt_index := Some (bt_overlayMap s),
                 bt_modManager := Some (KcdxCtor (mod_manager_object good_boot (shared_size (bt_enabledList s)))
                   (bt_enabledList s))\<rparr>)"
    by (simp_all add: game_defs) (simp_all add: good_boot_def)
  define t where "t = s\<lparr>bt_game := CtorReturned, bt_index := Some (bt_overlayMap s),
    bt_modManager := Some (KcdxCtor (mod_manager_object good_boot (shared_size (bt_enabledList s)))
                   (bt_enabledList s))\<rparr>"
  have "boot_reach good_boot s"
    using worker_first [of "length (worker_program good_boot)" good_boot] by (simp add: s_def)
  then have r: "boot_reach good_boot t"
    unfolding t_def using steps boot_reach.step boot_step.game by meson
  have ok: "be_readyCreated good_boot" "be_listData good_boot + 8 * length (be_enabledList good_boot) < 2 ^ 64"
    and vals: "be_enabledList good_boot = [0x10, 0x80]" "be_listData good_boot = 0x1000"
      "be_overlayMap good_boot = [''a'']"
    by (simp_all add: good_boot_def)
  note all = handoff_complete [OF r ok]
  define ob where "ob = mod_manager_object good_boot (shared_size (bt_enabledList s))"
  have mm: "bt_modManager t = Some (KcdxCtor ob (bt_enabledList s))" and ix: "bt_index t = Some (bt_overlayMap s)"
    by (simp_all add: t_def ob_def)
  from all [THEN conjunct1, rule_format, OF mm] vals
  have "bt_enabledList s = Filled [0x10, 0x80]" "read_ptr ob 0x30 = 0x1000" "read_ptr ob 0x38 = 0x1010"
    by simp_all
  then have "\<exists>obj. bt_modManager t = Some (KcdxCtor obj (Filled [0x10, 0x80]))
      \<and> read_ptr obj 0x30 = 0x1000 \<and> read_ptr obj 0x38 = 0x1010"
    using mm by simp
  moreover have "bt_index t = Some (Filled [''a''])"
    using all [THEN conjunct2, THEN conjunct1, rule_format, OF ix] ix vals(3) by simp
  ultimately show ?thesis using r by blast
qed


end
