(* ===== verification/Byte_Codec.thy ===== *)
theory Byte_Codec
  imports Kcdx_Prelude
begin

text \<open>
  What the two binary formats of the sources share (src/serialization.cpp's cosave file and
  src/lua_cosave_serial.cpp's value encoding): little-endian 32-bit fields, bounds-checked reads
  over the bytes that are left, and the contract of an encoder with its decoder (the locale
  \<open>codec\<close>), which lifts to counted sequences.
\<close>

section \<open>Reading\<close>

type_synonym bytes = "byte list"

text \<open>A reader is given the bytes from its cursor to its end; a short read moves nothing.\<close>

definition ReadBytes :: "bytes \<Rightarrow> nat \<Rightarrow> (bytes \<times> bytes) option" where
  "ReadBytes left n = (if n > length left then None else Some (take n left, drop n left))"

definition ReadU32 :: "bytes \<Rightarrow> (u32 \<times> bytes) option" where
  "ReadU32 left =
     (case ReadBytes left 4 of
        None \<Rightarrow> None
      | Some (b, rest) \<Rightarrow> Some (of_nat (le_val b), rest))"

definition AppendU32 :: "bytes \<Rightarrow> u32 \<Rightarrow> bytes" where
  "AppendU32 out v = out @ le_bytes 4 (unat v)"

definition u32_bytes :: "u32 \<Rightarrow> bytes" where
  "u32_bytes v = AppendU32 [] v"

lemma AppendU32_bytes: "AppendU32 out v = out @ u32_bytes v"
  by (simp add: AppendU32_def u32_bytes_def)

lemma length_u32_bytes [simp]: "length (u32_bytes v) = 4"
  by (simp add: u32_bytes_def AppendU32_def)

lemma ReadBytes_append [simp]: "ReadBytes (xs @ ys) (length xs) = Some (xs, ys)"
  by (simp add: ReadBytes_def)

lemma ReadBytes_appendI: "length xs = n \<Longrightarrow> ReadBytes (xs @ ys) n = Some (xs, ys)"
  by (auto simp: ReadBytes_def)

lemma ReadBytes_Some: "ReadBytes bs n = Some (b, rest) \<longleftrightarrow> bs = b @ rest \<and> length b = n"
  by (auto simp: ReadBytes_def)

lemma unat_of_nat_u32: "n < 2 ^ 32 \<Longrightarrow> unat (of_nat n :: u32) = n"
  by (rule of_nat_inverse [OF refl]) simp

section \<open>Encoders and decoders\<close>

text \<open>
  The contract: an encoded value is read back, whatever follows it, when it fits the format.
\<close>

locale codec =
  fixes enc :: "'a \<Rightarrow> bytes" and dec :: "bytes \<Rightarrow> ('a \<times> bytes) option" and fits :: "'a \<Rightarrow> bool"
  assumes dec_enc: "fits v \<Longrightarrow> dec (enc v @ rest) = Some (v, rest)"

text \<open>Reading a counted sequence.\<close>

fun dec_many :: "(bytes \<Rightarrow> ('a \<times> bytes) option) \<Rightarrow> nat \<Rightarrow> bytes \<Rightarrow> ('a list \<times> bytes) option" where
  "dec_many dec 0 bs = Some ([], bs)"
| "dec_many dec (Suc n) bs =
     (case dec bs of
        None \<Rightarrow> None
      | Some (v, rest) \<Rightarrow>
          (case dec_many dec n rest of None \<Rightarrow> None | Some (vs, rest') \<Rightarrow> Some (v # vs, rest')))"

context codec
begin

lemma many: "list_all fits vs \<Longrightarrow> dec_many dec (length vs) (concat (map enc vs) @ rest) = Some (vs, rest)"
  by (induction vs) (simp_all add: dec_enc)

lemma enc_inj: "fits v \<Longrightarrow> fits w \<Longrightarrow> enc v = enc w \<Longrightarrow> v = w"
  using dec_enc [of v "[]"] dec_enc [of w "[]"] by simp

end

interpretation u32: codec u32_bytes ReadU32 "\<lambda>_. True"
proof
  fix v :: u32 and rest
  have "le_val (le_bytes 4 (unat v)) = unat v"
    using unsigned_less [of v, where ?'a = nat] by (intro le_val_le_bytes) simp
  then show "ReadU32 (u32_bytes v @ rest) = Some (v, rest)"
    by (simp add: ReadU32_def u32_bytes_def AppendU32_def ReadBytes_appendI)
qed

lemmas u32_dec [simp] = u32.dec_enc [OF TrueI]

end
