(* ===== verification/Cosave_Container.thy ===== *)
theory Cosave_Container
  imports Byte_Codec
begin

text \<open>
  src/serialization.cpp: the co-save (.kcdx) file next to each game save.  Plugins register a unique
  id and callbacks; at a save their SaveCallbacks append records, which are written to one file; at
  a load the file is parsed and each plugin's LoadCallback reads its records back.

  A callback is plugin code: a tree of the interface calls it makes, continued with each call's
  result (\<open>CbFault\<close> is a fault caught by the guard).  Setters called from inside a callback are not
  modelled, nor is an allocation failure for an absurd count in a corrupt file.  The user profile
  folder is a parameter, None when Windows does not report it; file contents are byte lists and
  paths the UTF-8 the code converts from.
\<close>

section \<open>Records and plugins\<close>

record chunk =
  ck_tag :: u32
  ck_version :: u32
  ck_tagName :: bytes
  ck_data :: bytes

record plugin_state =
  ps_handle :: u32
  ps_uid :: u32
  ps_saveCb :: "nat option"
  ps_loadCb :: "nat option"
  ps_revertCb :: "nat option"
  ps_pendingChunks :: "chunk list"
  ps_recordOpen :: bool
  ps_loadedChunks :: "chunk list"
  ps_loadCursor :: nat
  ps_loadByteOffset :: nat
  ps_loadHasPending :: bool

record ser_state =
  se_plugins :: "plugin_state list"
  se_currentWriter :: "u32 option"
  se_currentReader :: "u32 option"
  se_lastSaveFullPath :: string
  se_pendingLoadBasename :: string
  se_pendingLoadPlayline :: int

definition kInvalidHandle :: u32 where
  "kInvalidHandle = 0xFFFFFFFF"

definition new_plugin :: "u32 \<Rightarrow> plugin_state" where
  "new_plugin h =
     \<lparr>ps_handle = h, ps_uid = 0, ps_saveCb = None, ps_loadCb = None, ps_revertCb = None,
      ps_pendingChunks = [], ps_recordOpen = False, ps_loadedChunks = [], ps_loadCursor = 0,
      ps_loadByteOffset = 0, ps_loadHasPending = False\<rparr>"

definition FindPluginByHandle :: "ser_state \<Rightarrow> u32 \<Rightarrow> plugin_state option" where
  "FindPluginByHandle st h = find (\<lambda>p. ps_handle p = h) (se_plugins st)"

definition upd_plugin :: "u32 \<Rightarrow> (plugin_state \<Rightarrow> plugin_state) \<Rightarrow> ser_state \<Rightarrow> ser_state" where
  "upd_plugin h f st =
     st\<lparr>se_plugins := map (\<lambda>p. if ps_handle p = h then f p else p) (se_plugins st)\<rparr>"

definition FindOrCreatePluginState :: "u32 \<Rightarrow> ser_state \<Rightarrow> ser_state" where
  "FindOrCreatePluginState h st =
     (if h = kInvalidHandle \<or> FindPluginByHandle st h \<noteq> None then st
      else st\<lparr>se_plugins := se_plugins st @ [new_plugin h]\<rparr>)"

section \<open>The interface\<close>

definition set_plugin :: "u32 \<Rightarrow> (plugin_state \<Rightarrow> plugin_state) \<Rightarrow> ser_state \<Rightarrow> ser_state" where
  "set_plugin h f st =
     (if h = kInvalidHandle then st else upd_plugin h f (FindOrCreatePluginState h st))"

definition SetUniqueID :: "u32 \<Rightarrow> u32 \<Rightarrow> ser_state \<Rightarrow> ser_state" where
  "SetUniqueID h uid = set_plugin h (\<lambda>p. p\<lparr>ps_uid := uid\<rparr>)"

definition SetSaveCallback :: "u32 \<Rightarrow> nat option \<Rightarrow> ser_state \<Rightarrow> ser_state" where
  "SetSaveCallback h cb = set_plugin h (\<lambda>p. p\<lparr>ps_saveCb := cb\<rparr>)"

definition SetLoadCallback :: "u32 \<Rightarrow> nat option \<Rightarrow> ser_state \<Rightarrow> ser_state" where
  "SetLoadCallback h cb = set_plugin h (\<lambda>p. p\<lparr>ps_loadCb := cb\<rparr>)"

definition SetRevertCallback :: "u32 \<Rightarrow> nat option \<Rightarrow> ser_state \<Rightarrow> ser_state" where
  "SetRevertCallback h cb = set_plugin h (\<lambda>p. p\<lparr>ps_revertCb := cb\<rparr>)"

text \<open>FNV-1a over the bytes of the tag.\<close>

definition HashTag :: "bytes \<Rightarrow> u32" where
  "HashTag tag = fold (\<lambda>b h. (h XOR ucast b) * 0x01000193) tag 0x811C9DC5"

definition current :: "u32 option \<Rightarrow> ser_state \<Rightarrow> plugin_state option" where
  "current who st = (case who of None \<Rightarrow> None | Some h \<Rightarrow> FindPluginByHandle st h)"

definition open_chunk :: "chunk \<Rightarrow> plugin_state \<Rightarrow> plugin_state" where
  "open_chunk c p = p\<lparr>ps_pendingChunks := ps_pendingChunks p @ [c], ps_recordOpen := True\<rparr>"

definition OpenRecord :: "u32 \<Rightarrow> u32 \<Rightarrow> ser_state \<Rightarrow> ser_state \<times> bool" where
  "OpenRecord tag version st =
     (case current (se_currentWriter st) st of
        None \<Rightarrow> (st, False)
      | Some p \<Rightarrow>
          if ps_uid p = 0 then (st, False)
          else (upd_plugin (ps_handle p)
                  (open_chunk \<lparr>ck_tag = tag, ck_version = version, ck_tagName = [], ck_data = []\<rparr>) st, True))"

definition OpenRecordNamed :: "bytes \<Rightarrow> u32 \<Rightarrow> ser_state \<Rightarrow> ser_state \<times> bool" where
  "OpenRecordNamed tag version st =
     (case current (se_currentWriter st) st of
        None \<Rightarrow> (st, False)
      | Some p \<Rightarrow>
          if ps_uid p = 0 then (st, False)
          else if tag = [] then (st, False)
          else if list_ex (\<lambda>c. ck_tag c = HashTag tag \<and> ck_tagName c \<noteq> tag) (ps_pendingChunks p)
          then (st, False)
          else (upd_plugin (ps_handle p)
                  (open_chunk \<lparr>ck_tag = HashTag tag, ck_version = version, ck_tagName = tag, ck_data = []\<rparr>) st, True))"

definition append_data :: "bytes \<Rightarrow> plugin_state \<Rightarrow> plugin_state" where
  "append_data buf p =
     p\<lparr>ps_pendingChunks := butlast (ps_pendingChunks p)
          @ [(last (ps_pendingChunks p))\<lparr>ck_data := ck_data (last (ps_pendingChunks p)) @ buf\<rparr>]\<rparr>"

definition WriteRecordData :: "bytes \<Rightarrow> ser_state \<Rightarrow> ser_state \<times> bool" where
  "WriteRecordData buf st =
     (case current (se_currentWriter st) st of
        None \<Rightarrow> (st, False)
      | Some p \<Rightarrow>
          if \<not> ps_recordOpen p then (st, False)
          else if buf = [] then (st, True)
          else (upd_plugin (ps_handle p) (append_data buf) st, True))"

text \<open>The result is (tag, version, length).\<close>

definition GetNextRecordInfo :: "ser_state \<Rightarrow> ser_state \<times> (u32 \<times> u32 \<times> u32) option" where
  "GetNextRecordInfo st =
     (case current (se_currentReader st) st of
        None \<Rightarrow> (st, None)
      | Some p \<Rightarrow>
          (let p = (if ps_loadHasPending p
                    then p\<lparr>ps_loadCursor := ps_loadCursor p + 1, ps_loadByteOffset := 0,
                           ps_loadHasPending := False\<rparr> else p)
           in if ps_loadCursor p \<ge> length (ps_loadedChunks p)
              then (upd_plugin (ps_handle p) (\<lambda>_. p) st, None)
              else (let c = ps_loadedChunks p ! ps_loadCursor p
                    in (upd_plugin (ps_handle p)
                          (\<lambda>_. p\<lparr>ps_loadByteOffset := 0, ps_loadHasPending := True\<rparr>) st,
                        Some (ck_tag c, ck_version c, of_nat (length (ck_data c)))))))"

definition GetRecordTagName :: "ser_state \<Rightarrow> bytes" where
  "GetRecordTagName st =
     (case current (se_currentReader st) st of
        None \<Rightarrow> []
      | Some p \<Rightarrow>
          if \<not> ps_loadHasPending p then []
          else if ps_loadCursor p \<ge> length (ps_loadedChunks p) then []
          else ck_tagName (ps_loadedChunks p ! ps_loadCursor p))"

definition ReadRecordData :: "u32 \<Rightarrow> ser_state \<Rightarrow> ser_state \<times> bytes option" where
  "ReadRecordData len st =
     (case current (se_currentReader st) st of
        None \<Rightarrow> (st, None)
      | Some p \<Rightarrow>
          if \<not> ps_loadHasPending p then (st, None)
          else if len = 0 then (st, Some [])
          else (let c = ps_loadedChunks p ! ps_loadCursor p; off = ps_loadByteOffset p + unat len
                in if off > length (ck_data c) then (st, None)
                   else (upd_plugin (ps_handle p)
                           (\<lambda>_. if off \<ge> length (ck_data c)
                                then p\<lparr>ps_loadCursor := ps_loadCursor p + 1, ps_loadByteOffset := 0,
                                       ps_loadHasPending := False\<rparr>
                                else p\<lparr>ps_loadByteOffset := off\<rparr>) st,
                         Some (take (unat len) (drop (ps_loadByteOffset p) (ck_data c))))))"

section \<open>Plugin callbacks\<close>

datatype api_call =
    CbReturn
  | CbFault
  | CallOpenRecord u32 u32 "bool \<Rightarrow> api_call"
  | CallOpenRecordNamed bytes u32 "bool \<Rightarrow> api_call"
  | CallWriteRecordData bytes "bool \<Rightarrow> api_call"
  | CallGetNextRecordInfo "(u32 \<times> u32 \<times> u32) option \<Rightarrow> api_call"
  | CallGetRecordTagName "bytes \<Rightarrow> api_call"
  | CallReadRecordData u32 "bytes option \<Rightarrow> api_call"

primrec run_callback :: "api_call \<Rightarrow> ser_state \<Rightarrow> ser_state" where
  "run_callback CbReturn st = st"
| "run_callback CbFault st = st"
| "run_callback (CallOpenRecord tag ver k) st = run_callback (k (snd (OpenRecord tag ver st))) (fst (OpenRecord tag ver st))"
| "run_callback (CallOpenRecordNamed tag ver k) st =
     run_callback (k (snd (OpenRecordNamed tag ver st))) (fst (OpenRecordNamed tag ver st))"
| "run_callback (CallWriteRecordData buf k) st =
     run_callback (k (snd (WriteRecordData buf st))) (fst (WriteRecordData buf st))"
| "run_callback (CallGetNextRecordInfo k) st =
     run_callback (k (snd (GetNextRecordInfo st))) (fst (GetNextRecordInfo st))"
| "run_callback (CallGetRecordTagName k) st = run_callback (k (GetRecordTagName st)) st"
| "run_callback (CallReadRecordData len k) st =
     run_callback (k (snd (ReadRecordData len st))) (fst (ReadRecordData len st))"

section \<open>The file\<close>

definition kCosaveMagic :: u32 where
  "kCosaveMagic = 0x58444358"

definition kCosaveFormatVersion :: u32 where
  "kCosaveFormatVersion = 2"

definition kCosaveMinReadableFormatVersion :: u32 where
  "kCosaveMinReadableFormatVersion = 1"

definition kMaxCosaveBytes :: nat where
  "kMaxCosaveBytes = 64 * 1024 * 1024"

type_synonym cosave_section = "u32 \<times> chunk list"

definition cosave_sections :: "ser_state \<Rightarrow> cosave_section list" where
  "cosave_sections st =
     map (\<lambda>p. (ps_uid p, ps_pendingChunks p))
       (filter (\<lambda>p. ps_uid p \<noteq> 0 \<and> ps_pendingChunks p \<noteq> []) (se_plugins st))"

definition chunk_bytes :: "chunk \<Rightarrow> bytes" where
  "chunk_bytes c =
     u32_bytes (ck_tag c) @ u32_bytes (ck_version c) @ u32_bytes (of_nat (length (ck_tagName c))) @ ck_tagName c
     @ u32_bytes (of_nat (length (ck_data c))) @ ck_data c"

text \<open>The byte count of a section, in the 32-bit arithmetic of the source.\<close>

definition section_size :: "chunk list \<Rightarrow> u32" where
  "section_size cs =
     fold (\<lambda>c n. n + (4 + 4 + 4 + of_nat (length (ck_tagName c)) + 4 + of_nat (length (ck_data c)))) cs 0"

definition section_bytes :: "cosave_section \<Rightarrow> bytes" where
  "section_bytes s =
     u32_bytes (fst s) @ u32_bytes (of_nat (length (snd s))) @ u32_bytes (section_size (snd s))
     @ concat (map chunk_bytes (snd s))"

definition cosave_blob :: "cosave_section list \<Rightarrow> bytes" where
  "cosave_blob ss =
     u32_bytes kCosaveMagic @ u32_bytes kCosaveFormatVersion @ u32_bytes (of_nat (length ss))
     @ concat (map section_bytes ss)"

text \<open>
  CREATE_ALWAYS truncates; the write may stop early, and its length is passed as 32 bits.
\<close>

definition BuildAndWriteCosave ::
    "ser_state \<Rightarrow> write_outcome \<Rightarrow> bytes option \<Rightarrow> bytes option \<times> bool" where
  "BuildAndWriteCosave st w f =
     (let sections = cosave_sections st
      in if sections = [] then (f, True)
         else (let blob = cosave_blob sections; n = length blob mod 2 ^ 32
               in case w of
                    OpenFails \<Rightarrow> (f, False)
                  | StopsAfter k \<Rightarrow> (Some (take (min k n) blob), False)
                  | Completes \<Rightarrow> (Some (take n blob), n = length blob)))"

definition read_chunk :: "bool \<Rightarrow> bytes \<Rightarrow> (chunk \<times> bytes) option" where
  "read_chunk hasTagName bs =
     (case ReadU32 bs of None \<Rightarrow> None | Some (tag, bs) \<Rightarrow>
      (case ReadU32 bs of None \<Rightarrow> None | Some (version, bs) \<Rightarrow>
       (case (if hasTagName
              then (case ReadU32 bs of
                      None \<Rightarrow> None
                    | Some (nameLen, bs) \<Rightarrow> if 0 < nameLen then ReadBytes bs (unat nameLen) else Some ([], bs))
              else Some ([], bs)) of
          None \<Rightarrow> None
        | Some (tagName, bs) \<Rightarrow>
            (case ReadU32 bs of None \<Rightarrow> None | Some (chunkBytes, bs) \<Rightarrow>
             (case ReadBytes bs (unat chunkBytes) of None \<Rightarrow> None | Some (d, bs) \<Rightarrow>
                Some (\<lparr>ck_tag = tag, ck_version = version, ck_tagName = tagName, ck_data = d\<rparr>, bs))))))"

definition read_section :: "bool \<Rightarrow> bytes \<Rightarrow> (cosave_section \<times> bytes) option" where
  "read_section hasTagName bs =
     (case ReadU32 bs of None \<Rightarrow> None | Some (uid, bs) \<Rightarrow>
      (case ReadU32 bs of None \<Rightarrow> None | Some (chunkCount, bs) \<Rightarrow>
       (case ReadU32 bs of None \<Rightarrow> None | Some (sectionBytes, bs) \<Rightarrow>
        (case ReadBytes bs (unat sectionBytes) of None \<Rightarrow> None | Some (body, rest) \<Rightarrow>
         (case dec_many (read_chunk hasTagName) (unat chunkCount) body of
            None \<Rightarrow> None
          | Some (cs, _) \<Rightarrow> Some ((uid, cs), rest))))))"

text \<open>The parse of a whole file; \<open>None\<close> is a refused file.\<close>

definition parse_cosave :: "bytes \<Rightarrow> cosave_section list option" where
  "parse_cosave bs =
     (case ReadU32 bs of None \<Rightarrow> None | Some (magic, bs) \<Rightarrow>
        if magic \<noteq> kCosaveMagic then None
        else (case ReadU32 bs of None \<Rightarrow> None | Some (fmtVer, bs) \<Rightarrow>
          if fmtVer < kCosaveMinReadableFormatVersion \<or> fmtVer > kCosaveFormatVersion then None
          else (case ReadU32 bs of None \<Rightarrow> None | Some (pluginCount, bs) \<Rightarrow>
            map_option fst (dec_many (read_section (2 \<le> fmtVer)) (unat pluginCount) bs))))"

definition loaded_plugin_chunks :: "chunk list \<Rightarrow> plugin_state \<Rightarrow> plugin_state" where
  "loaded_plugin_chunks cs p =
     p\<lparr>ps_loadedChunks := cs, ps_loadCursor := 0, ps_loadByteOffset := 0, ps_loadHasPending := False\<rparr>"

text \<open>Handing the parsed chunks out; a list moved to one plugin is empty for the next of the same id.\<close>

fun assign_loaded :: "plugin_state list \<Rightarrow> (u32 \<rightharpoonup> chunk list) \<Rightarrow> plugin_state list" where
  "assign_loaded [] m = []"
| "assign_loaded (p # ps) m =
     (if ps_uid p = 0 then p # assign_loaded ps m
      else (case m (ps_uid p) of
              Some cs \<Rightarrow> loaded_plugin_chunks cs p # assign_loaded ps (m(ps_uid p \<mapsto> []))
            | None \<Rightarrow> loaded_plugin_chunks [] p # assign_loaded ps m))"

definition ReadAndParseCosave :: "bytes option \<Rightarrow> ser_state \<Rightarrow> ser_state \<times> bool" where
  "ReadAndParseCosave f st =
     (case f of
        None \<Rightarrow> (st, False)
      | Some blob \<Rightarrow>
          if blob = [] \<or> length blob > kMaxCosaveBytes then (st, False)
          else (case parse_cosave blob of
                  None \<Rightarrow> (st, False)
                | Some ss \<Rightarrow>
                    (st\<lparr>se_plugins := assign_loaded (se_plugins st) (fold (\<lambda>(u, cs) m. m(u \<mapsto> cs)) ss Map.empty)\<rparr>,
                     True)))"

section \<open>Dispatch\<close>

datatype cosave_event =
    SaveCalled u32
  | LoadCalled u32 "chunk list"
  | RevertCalled u32

type_synonym callbacks = "nat \<Rightarrow> u32 \<Rightarrow> api_call"

definition save_one :: "callbacks \<Rightarrow> u32 \<Rightarrow> ser_state \<times> cosave_event list \<Rightarrow> ser_state \<times> cosave_event list" where
  "save_one code h se =
     (case FindPluginByHandle (fst se) h of
        None \<Rightarrow> se
      | Some p \<Rightarrow>
          (case ps_saveCb p of
             None \<Rightarrow> se
           | Some cb \<Rightarrow>
               if ps_uid p = 0 then se
               else (let st1 = upd_plugin h (\<lambda>p. p\<lparr>ps_pendingChunks := [], ps_recordOpen := False\<rparr>) (fst se);
                         st2 = run_callback (code cb h) (st1\<lparr>se_currentWriter := Some h\<rparr>)
                     in (st2\<lparr>se_currentWriter := None\<rparr>, snd se @ [SaveCalled h]))))"

definition RunSaveCallbacks :: "callbacks \<Rightarrow> ser_state \<Rightarrow> ser_state \<times> cosave_event list" where
  "RunSaveCallbacks code st = fold (save_one code) (map ps_handle (se_plugins st)) (st, [])"

definition load_callback_one :: "callbacks \<Rightarrow> u32 \<Rightarrow> ser_state \<times> cosave_event list \<Rightarrow> ser_state \<times> cosave_event list" where
  "load_callback_one code h se =
     (case FindPluginByHandle (fst se) h of
        None \<Rightarrow> se
      | Some p \<Rightarrow>
          (case ps_loadCb p of
             None \<Rightarrow> se
           | Some cb \<Rightarrow>
               if ps_uid p = 0 \<or> ps_loadedChunks p = [] then se
               else (let st1 = upd_plugin h (loaded_plugin_chunks (ps_loadedChunks p)) (fst se);
                         st2 = run_callback (code cb h) (st1\<lparr>se_currentReader := Some h\<rparr>)
                     in (upd_plugin h (\<lambda>p. p\<lparr>ps_loadedChunks := []\<rparr>) (st2\<lparr>se_currentReader := None\<rparr>),
                         snd se @ [LoadCalled h (ps_loadedChunks p)]))))"

definition RunLoadCallbacks :: "callbacks \<Rightarrow> ser_state \<Rightarrow> ser_state \<times> cosave_event list" where
  "RunLoadCallbacks code st = fold (load_callback_one code) (map ps_handle (se_plugins st)) (st, [])"

text \<open>The two revert loops: after a refused file, and the pass over plugins without chunks.\<close>

definition revert_one :: "(plugin_state \<Rightarrow> bool) \<Rightarrow> callbacks \<Rightarrow> u32
    \<Rightarrow> ser_state \<times> cosave_event list \<Rightarrow> ser_state \<times> cosave_event list" where
  "revert_one due code h se =
     (case FindPluginByHandle (fst se) h of
        None \<Rightarrow> se
      | Some p \<Rightarrow>
          (case ps_revertCb p of
             None \<Rightarrow> se
           | Some cb \<Rightarrow>
               if \<not> due p then se
               else (run_callback (code cb h) (fst se), snd se @ [RevertCalled h])))"

definition RunRevertCallbacks :: "callbacks \<Rightarrow> ser_state \<Rightarrow> ser_state \<times> cosave_event list" where
  "RunRevertCallbacks code st = fold (revert_one (\<lambda>_. True) code) (map ps_handle (se_plugins st)) (st, [])"

definition revert_without_chunks :: "callbacks \<Rightarrow> ser_state \<Rightarrow> ser_state \<times> cosave_event list" where
  "revert_without_chunks code st =
     fold (revert_one (\<lambda>p. ps_uid p \<noteq> 0 \<and> ps_loadedChunks p = []) code) (map ps_handle (se_plugins st)) (st, [])"

section \<open>Paths and engine messages\<close>

abbreviation bslash :: char where
  "bslash \<equiv> CHR 0x5C"

definition strip_whs :: "string \<Rightarrow> string" where
  "strip_whs s =
     (if 4 \<le> length s \<and> drop (length s - 4) s = ''.whs'' then take (length s - 4) s else s)"

definition MakeCosaveBasename :: "string \<Rightarrow> string" where
  "MakeCosaveBasename whsBasename = strip_whs whsBasename @ ''.kcdx''"

definition game_saves_dir :: "string \<Rightarrow> string" where
  "game_saves_dir profile = profile @ [bslash] @ ''Saved Games'' @ [bslash] @ ''kingdomcome2'' @ [bslash]"

definition SavesDirForPlayline :: "string option \<Rightarrow> int \<Rightarrow> string" where
  "SavesDirForPlayline profile playline =
     (let playline = (if playline < 0 then 0 else playline)
      in case profile of
           None \<Rightarrow> []
         | Some u \<Rightarrow> game_saves_dir u @ ''saves'' @ [bslash] @ ''playline'' @ to_string playline @ [bslash])"

definition MakeCosavePath :: "string option \<Rightarrow> int \<Rightarrow> string \<Rightarrow> string" where
  "MakeCosavePath profile playline basename =
     (let dir = SavesDirForPlayline profile playline in if dir = [] then [] else dir @ basename)"

definition CosavePathFromSaveFullPath :: "string option \<Rightarrow> string \<Rightarrow> string" where
  "CosavePathFromSaveFullPath profile rawFullPath =
     (if rawFullPath = [] then []
      else (let s = strip_whs rawFullPath @ ''.kcdx'';
                kUserPrefix = ''%USER%/'';
                expanded = (if starts_with kUserPrefix s
                            then map_option (\<lambda>u. game_saves_dir u @ drop (length kUserPrefix) s) profile
                            else Some s)
            in case expanded of
                 None \<Rightarrow> []
               | Some e \<Rightarrow> map (\<lambda>c. if c = CHR ''/'' then bslash else c) e))"

type_synonym files = "string \<Rightarrow> bytes option"

text \<open>OnSaveGame: the callbacks, the file, then the write-side state is cleared.\<close>

definition OnSaveGame :: "callbacks \<Rightarrow> string option \<Rightarrow> write_outcome \<Rightarrow> string \<Rightarrow> files \<Rightarrow> ser_state
    \<Rightarrow> files \<times> ser_state \<times> cosave_event list" where
  "OnSaveGame code profile w basename files st =
     (let path = CosavePathFromSaveFullPath profile (se_lastSaveFullPath st)
      in if basename = [] then (files, st, [])
         else if path = [] then (files, st, [])
         else (let (st1, evs) = RunSaveCallbacks code st;
                   f = fst (BuildAndWriteCosave st1 w (files path))
               in (files(path := f),
                   st1\<lparr>se_plugins := map (\<lambda>p. p\<lparr>ps_pendingChunks := [], ps_recordOpen := False\<rparr>) (se_plugins st1)\<rparr>,
                   evs)))"

definition OnLoadGameSelected :: "string \<Rightarrow> ser_state \<Rightarrow> ser_state" where
  "OnLoadGameSelected basename st =
     (if basename = [] then st else st\<lparr>se_pendingLoadBasename := basename\<rparr>)"

definition OnPostLoadGame :: "callbacks \<Rightarrow> string option \<Rightarrow> files \<Rightarrow> ser_state
    \<Rightarrow> ser_state \<times> cosave_event list" where
  "OnPostLoadGame code profile files st =
     (let basename = se_pendingLoadBasename st; playline = se_pendingLoadPlayline st;
          st1 = st\<lparr>se_pendingLoadBasename := [], se_pendingLoadPlayline := -1\<rparr>;
          path = MakeCosavePath profile playline (MakeCosaveBasename basename)
      in if basename = [] then RunRevertCallbacks code st1
         else if path = [] then RunRevertCallbacks code st1
         else (let (st2, parsed) = ReadAndParseCosave (files path) st1
               in if parsed
                  then (let (st3, loads) = RunLoadCallbacks code st2;
                            (st4, reverts) = revert_without_chunks code st3
                        in (st4, loads @ reverts))
                  else RunRevertCallbacks code st2))"

section \<open>The file: lemmas\<close>

definition chunk_fits :: "chunk \<Rightarrow> bool" where
  "chunk_fits c \<longleftrightarrow> length (ck_tagName c) < 2 ^ 32 \<and> length (ck_data c) < 2 ^ 32"

interpretation chunk: codec chunk_bytes "read_chunk True" chunk_fits
proof
  fix c rest assume "chunk_fits c"
  then show "read_chunk True (chunk_bytes c @ rest) = Some (c, rest)"
    by (cases "ck_tagName c = []")
      (simp_all add: read_chunk_def chunk_bytes_def chunk_fits_def unat_of_nat_u32 word_less_nat_alt)
qed

lemma length_chunk_bytes: "length (chunk_bytes c) = 16 + length (ck_tagName c) + length (ck_data c)"
  by (simp add: chunk_bytes_def)

lemma section_size_eq: "section_size cs = of_nat (length (concat (map chunk_bytes cs)))"
proof -
  have "fold (\<lambda>c n. n + (4 + 4 + 4 + of_nat (length (ck_tagName c)) + 4 + of_nat (length (ck_data c)))) cs m
      = m + (of_nat (length (concat (map chunk_bytes cs))) :: u32)" for m
    by (induction cs arbitrary: m) (simp_all add: length_chunk_bytes ac_simps)
  then show ?thesis by (simp add: section_size_def)
qed

lemma length_concat_ge: "x \<in> set xs \<Longrightarrow> length (f x) \<le> length (concat (map f xs))"
  by (induction xs) auto

lemma length_concat_items: "(\<And>x. k \<le> length (f x)) \<Longrightarrow> k * length xs \<le> length (concat (map f xs))"
proof (induction xs)
  case (Cons x xs)
  then have "k * length xs \<le> length (concat (map f xs))" by blast
  with Cons.prems [of x] show ?case by simp
qed simp

lemma chunk_list_bound: "length cs \<le> length (concat (map chunk_bytes cs))"
  using length_concat_items [of 1 chunk_bytes cs] by (simp add: length_chunk_bytes)

definition section_fits :: "cosave_section \<Rightarrow> bool" where
  "section_fits s \<longleftrightarrow> length (section_bytes s) < 2 ^ 32"

lemma section_fits_chunks: "section_fits (u, cs) \<Longrightarrow> list_all chunk_fits cs"
proof -
  assume fits: "section_fits (u, cs)"
  have "chunk_fits c" if "c \<in> set cs" for c
    using length_concat_ge [OF that, of chunk_bytes] fits
    by (simp add: section_fits_def section_bytes_def length_chunk_bytes chunk_fits_def)
  then show ?thesis by (simp add: list_all_iff)
qed

interpretation sect: codec section_bytes "read_section True" section_fits
proof
  fix s :: cosave_section and rest assume fits: "section_fits s"
  obtain u cs where s: "s = (u, cs)" by (cases s)
  have "length (concat (map chunk_bytes cs)) < 2 ^ 32"
    using fits by (simp add: s section_fits_def section_bytes_def)
  then have size: "unat (section_size cs) = length (concat (map chunk_bytes cs))"
    and count: "unat (of_nat (length cs) :: u32) = length cs"
    unfolding section_size_eq using chunk_list_bound [of cs]
    by (auto intro!: unat_of_nat_u32 simp del: of_nat_sum)
  have "dec_many (read_chunk True) (length cs) (concat (map chunk_bytes cs) @ []) = Some (cs, [])"
    by (rule chunk.many) (rule section_fits_chunks [OF fits [unfolded s]])
  then show "read_section True (section_bytes s @ rest) = Some (s, rest)"
    by (simp add: read_section_def section_bytes_def s size count)
qed

text \<open>Every file below 4 GiB the writer produces parses back to the sections written.\<close>

lemma parse_cosave_blob:
  assumes len: "length (cosave_blob ss) < 2 ^ 32"
  shows "parse_cosave (cosave_blob ss) = Some ss"
proof -
  have body: "length (concat (map section_bytes ss)) < 2 ^ 32" using len by (simp add: cosave_blob_def)
  have "length ss \<le> length (concat (map section_bytes ss))"
    using length_concat_items [of 1 section_bytes ss] by (simp add: section_bytes_def)
  then have count: "unat (of_nat (length ss) :: u32) = length ss"
    using body by (intro unat_of_nat_u32) simp
  have "list_all section_fits ss"
    unfolding list_all_iff section_fits_def using length_concat_ge [of _ ss section_bytes] body
    by (meson order_le_less_trans)
  then have "dec_many (read_section True) (length ss) (concat (map section_bytes ss) @ []) = Some (ss, [])"
    by (rule sect.many)
  then show ?thesis
    by (simp add: parse_cosave_def cosave_blob_def count kCosaveFormatVersion_def
        kCosaveMinReadableFormatVersion_def)
qed

lemma fold_sections: "fold (\<lambda>(u, cs) m. m(u \<mapsto> cs)) ss m = m ++ map_of (rev ss)"
  by (induction ss arbitrary: m) (auto simp: map_add_def fun_eq_iff split: option.splits)

definition chunks_for :: "cosave_section list \<Rightarrow> u32 \<Rightarrow> chunk list" where
  "chunks_for ss u = (case map_of (rev ss) u of None \<Rightarrow> [] | Some cs \<Rightarrow> cs)"

definition receive :: "(u32 \<rightharpoonup> chunk list) \<Rightarrow> plugin_state \<Rightarrow> plugin_state" where
  "receive m p = (if ps_uid p = 0 then p
     else loaded_plugin_chunks (case m (ps_uid p) of None \<Rightarrow> [] | Some cs \<Rightarrow> cs) p)"

definition ids_distinct :: "plugin_state list \<Rightarrow> bool" where
  "ids_distinct ps \<longleftrightarrow> distinct (map ps_uid (filter (\<lambda>p. ps_uid p \<noteq> 0) ps))"

lemma assign_loaded_distinct: "ids_distinct ps \<Longrightarrow> assign_loaded ps m = map (receive m) ps"
proof (induction ps arbitrary: m)
  case (Cons p ps)
  show ?case
  proof (cases "ps_uid p = 0")
    case False
    have "receive (m(ps_uid p \<mapsto> [])) q = receive m q" if "q \<in> set ps" for q
    proof -
      have "ps_uid p \<notin> ps_uid ` {x \<in> set ps. ps_uid x \<noteq> 0}"
        using Cons.prems False by (simp add: ids_distinct_def)
      then have "ps_uid q \<noteq> ps_uid p" using that False by (metis (mono_tags, lifting) image_eqI mem_Collect_eq)
      then show ?thesis by (simp add: receive_def)
    qed
    moreover have "ids_distinct ps" using Cons.prems False by (simp add: ids_distinct_def)
    ultimately show ?thesis
      using False Cons.IH by (auto simp: receive_def split: option.split)
  qed (use Cons in \<open>auto simp: ids_distinct_def receive_def\<close>)
qed simp

section \<open>Dispatch: lemmas\<close>

text \<open>What no callback changes: a plugin's identity, its callbacks and the chunks it was given.\<close>

definition core :: "plugin_state \<Rightarrow> plugin_state" where
  "core p = p\<lparr>ps_pendingChunks := [], ps_recordOpen := False, ps_loadCursor := 0,
     ps_loadByteOffset := 0, ps_loadHasPending := False\<rparr>"

definition view :: "ser_state \<Rightarrow> plugin_state list" where
  "view st = map core (se_plugins st)"

lemma core_simps [simp]:
  "ps_handle (core p) = ps_handle p" "ps_uid (core p) = ps_uid p" "ps_saveCb (core p) = ps_saveCb p"
  "ps_loadCb (core p) = ps_loadCb p" "ps_revertCb (core p) = ps_revertCb p"
  "ps_loadedChunks (core p) = ps_loadedChunks p"
  "core (core p) = core p"
  by (simp_all add: core_def)

abbreviation handles :: "ser_state \<Rightarrow> u32 list" where
  "handles st \<equiv> map ps_handle (se_plugins st)"

lemma handles_view: "map ps_handle (view st) = handles st"
  by (simp add: view_def comp_def)

lemma upd_plugin_view:
  "(\<And>p. ps_handle p = h \<Longrightarrow> p \<in> set (se_plugins st) \<Longrightarrow> core (f p) = g (core p)) \<Longrightarrow>
     view (upd_plugin h f st) = map (\<lambda>q. if ps_handle q = h then g q else q) (view st)"
  by (simp add: view_def upd_plugin_def)

lemma upd_plugin_same:
  assumes "\<And>p. ps_handle p = h \<Longrightarrow> p \<in> set (se_plugins st) \<Longrightarrow> core (f p) = core p"
  shows "view (upd_plugin h f st) = view st"
  using assms by (simp add: view_def upd_plugin_def)

lemma Find_handle: "FindPluginByHandle st h = Some p \<Longrightarrow> ps_handle p = h \<and> p \<in> set (se_plugins st)"
  unfolding FindPluginByHandle_def by (metis (mono_tags, lifting) find_Some_iff nth_mem)

lemma Find_unique:
  "distinct (handles st) \<Longrightarrow> FindPluginByHandle st h = Some p \<Longrightarrow> q \<in> set (se_plugins st) \<Longrightarrow>
     ps_handle q = h \<Longrightarrow> q = p"
  using Find_handle [of st h p] by (simp add: distinct_map inj_on_def)

lemma Find_view:
  assumes "distinct (handles st)" "q \<in> set (view st)"
  obtains p where "FindPluginByHandle st (ps_handle q) = Some p" "core p = q"
proof -
  obtain p where p: "p \<in> set (se_plugins st)" "core p = q" using assms(2) by (auto simp: view_def)
  then have "FindPluginByHandle st (ps_handle p) \<noteq> None"
    unfolding FindPluginByHandle_def by (auto simp: find_None_iff)
  then show ?thesis using that p Find_unique [OF assms(1) _ p(1)] by force
qed

text \<open>A call of the interface changes no core.\<close>

definition quiet :: "ser_state \<Rightarrow> ser_state \<Rightarrow> bool" where
  "quiet st st' \<longleftrightarrow> view st' = view st \<and> se_currentWriter st' = se_currentWriter st
     \<and> se_currentReader st' = se_currentReader st"

lemma quiet_refl [simp]: "quiet st st"
  by (simp add: quiet_def)

lemma quiet_handles: "quiet st st' \<Longrightarrow> handles st' = handles st"
  using handles_view by (metis quiet_def)

lemma quiet_trans: "quiet a b \<Longrightarrow> quiet b c \<Longrightarrow> quiet a c"
  by (simp add: quiet_def)

lemma quiet_upd:
  "(\<And>p. ps_handle p = h \<Longrightarrow> p \<in> set (se_plugins st) \<Longrightarrow> core (f p) = core p) \<Longrightarrow> quiet st (upd_plugin h f st)"
  using upd_plugin_same by (simp add: quiet_def) (simp add: upd_plugin_def)

lemma core_pending: "core (open_chunk c p) = core p" "core (append_data buf p) = core p"
  by (simp_all add: core_def open_chunk_def append_data_def)

lemma quiet_writes:
  "quiet st (fst (OpenRecord tag ver st))" "quiet st (fst (OpenRecordNamed nm ver st))"
  "quiet st (fst (WriteRecordData buf st))"
  by (auto simp: OpenRecord_def OpenRecordNamed_def WriteRecordData_def core_pending intro: quiet_upd split: option.split)

lemma quiet_reads:
  assumes "distinct (handles st)"
  shows "quiet st (fst (GetNextRecordInfo st))" "quiet st (fst (ReadRecordData len st))"
proof -
  have upd: "quiet st (upd_plugin (ps_handle p) (\<lambda>_. p') st)"
    if cur: "current (se_currentReader st) st = Some p" and same: "core p' = core p" for p p'
  proof (rule quiet_upd)
    fix q assume "ps_handle q = ps_handle p" "q \<in> set (se_plugins st)"
    moreover obtain h where h: "FindPluginByHandle st h = Some p"
      using cur by (auto simp: current_def split: option.splits)
    ultimately have "q = p" using Find_unique [OF assms h] Find_handle [OF h] by simp
    then show "core p' = core q" using same by simp
  qed
  have c: "core (p\<lparr>ps_loadCursor := a\<rparr>) = core p" "core (p\<lparr>ps_loadByteOffset := b\<rparr>) = core p"
    "core (p\<lparr>ps_loadHasPending := x\<rparr>) = core p" for p a b x
    by (simp_all add: core_def)
  show "quiet st (fst (GetNextRecordInfo st))" "quiet st (fst (ReadRecordData len st))"
    by (auto simp: GetNextRecordInfo_def ReadRecordData_def Let_def c intro!: upd split: option.split)
qed

lemma quiet_callback: "distinct (handles st) \<Longrightarrow> quiet st (run_callback cb st)"
proof (induction cb arbitrary: st)
  case (CallGetNextRecordInfo k)
  note q = quiet_reads(1) [OF CallGetNextRecordInfo.prems]
  then show ?case
    using CallGetNextRecordInfo by (simp add: quiet_trans [OF q] quiet_handles [OF q])
next
  case (CallReadRecordData len k)
  note q = quiet_reads(2) [OF CallReadRecordData.prems, of len]
  then show ?case using CallReadRecordData by (simp add: quiet_trans [OF q] quiet_handles [OF q])
next
  case (CallOpenRecord tag ver k)
  note q = quiet_writes(1) [of st tag ver]
  then show ?case using CallOpenRecord by (simp add: quiet_trans [OF q] quiet_handles [OF q])
next
  case (CallOpenRecordNamed nm ver k)
  note q = quiet_writes(2) [of st nm ver]
  then show ?case using CallOpenRecordNamed by (simp add: quiet_trans [OF q] quiet_handles [OF q])
next
  case (CallWriteRecordData buf k)
  note q = quiet_writes(3) [of st buf]
  then show ?case using CallWriteRecordData by (simp add: quiet_trans [OF q] quiet_handles [OF q])
qed simp_all

text \<open>What the dispatch loops do to the cores, and the events they leave.\<close>

definition loads :: "plugin_state \<Rightarrow> bool" where
  "loads q \<longleftrightarrow> ps_loadCb q \<noteq> None \<and> ps_uid q \<noteq> 0 \<and> ps_loadedChunks q \<noteq> []"

definition after_load :: "plugin_state \<Rightarrow> plugin_state" where
  "after_load q = (if loads q then q\<lparr>ps_loadedChunks := []\<rparr> else q)"

definition load_events :: "plugin_state \<Rightarrow> cosave_event list" where
  "load_events q = (if loads q then [LoadCalled (ps_handle q) (ps_loadedChunks q)] else [])"

definition idle :: "ser_state \<Rightarrow> bool" where
  "idle st \<longleftrightarrow> se_currentWriter st = None \<and> se_currentReader st = None"

lemma load_callback_one_spec:
  assumes d: "distinct (handles (fst se))" and q: "q \<in> set (view (fst se))" and i: "idle (fst se)"
  shows "view (fst (load_callback_one code (ps_handle q) se))
      = map (\<lambda>r. if ps_handle r = ps_handle q then after_load r else r) (view (fst se))
    \<and> snd (load_callback_one code (ps_handle q) se) = snd se @ load_events q \<and> idle (fst (load_callback_one code (ps_handle q) se))"
proof -
  obtain p where p: "FindPluginByHandle (fst se) (ps_handle q) = Some p" "core p = q"
    by (rule Find_view [OF d q])
  have only: "r = q" if "r \<in> set (view (fst se))" "ps_handle r = ps_handle q" for r
    using that q d unfolding handles_view [symmetric] by (auto simp: distinct_map inj_on_def)
  show ?thesis
  proof (cases "loads q")
    case False
    then have "load_callback_one code (ps_handle q) se = se"
      using p by (auto simp: load_callback_one_def loads_def split: option.split)
    moreover have "map (\<lambda>r. if ps_handle r = ps_handle q then after_load r else r) (view (fst se)) = view (fst se)"
      using only False by (intro map_idI) (auto simp: after_load_def)
    ultimately show ?thesis using False i by (simp add: load_events_def)
  next
    case True
    then obtain cb where cb: "ps_loadCb p = Some cb" "ps_uid p \<noteq> 0" "ps_loadedChunks p \<noteq> []"
      using p by (auto simp: loads_def)
    define st1 where "st1 = upd_plugin (ps_handle q) (loaded_plugin_chunks (ps_loadedChunks p)) (fst se)"
    define st2 where "st2 = run_callback (code cb (ps_handle q)) (st1\<lparr>se_currentReader := Some (ps_handle q)\<rparr>)"
    have step: "load_callback_one code (ps_handle q) se =
        (upd_plugin (ps_handle q) (\<lambda>p. p\<lparr>ps_loadedChunks := []\<rparr>) (st2\<lparr>se_currentReader := None\<rparr>),
         snd se @ [LoadCalled (ps_handle q) (ps_loadedChunks p)])"
      using p cb by (simp add: load_callback_one_def st1_def st2_def)
    have same: "core (loaded_plugin_chunks (ps_loadedChunks p) r) = core r"
      if "ps_handle r = ps_handle q" "r \<in> set (se_plugins (fst se))" for r
      using Find_unique [OF d p(1) that(2,1)] by (simp add: core_def loaded_plugin_chunks_def)
    have v1: "view st1 = view (fst se)" unfolding st1_def by (rule upd_plugin_same) (rule same)
    have d1: "distinct (handles (st1\<lparr>se_currentReader := Some (ps_handle q)\<rparr>))"
      using d v1 handles_view [of st1] handles_view [of "fst se"] by simp
    have w1: "se_currentWriter st1 = None" using i by (simp add: st1_def upd_plugin_def idle_def)
    have "quiet (st1\<lparr>se_currentReader := Some (ps_handle q)\<rparr>) st2"
      unfolding st2_def by (rule quiet_callback [OF d1])
    then have v2: "view st2 = view (fst se)" "se_currentWriter st2 = None"
      using v1 w1 by (simp_all add: quiet_def view_def)
    have "view (upd_plugin (ps_handle q) (\<lambda>p. p\<lparr>ps_loadedChunks := []\<rparr>) (st2\<lparr>se_currentReader := None\<rparr>))
      = map (\<lambda>r. if ps_handle r = ps_handle q then r\<lparr>ps_loadedChunks := []\<rparr> else r) (view (fst se))"
      by (subst upd_plugin_view [where g = "\<lambda>r. r\<lparr>ps_loadedChunks := []\<rparr>"])
        (simp_all add: core_def v2(1) [unfolded view_def] view_def)
    also have "\<dots> = map (\<lambda>r. if ps_handle r = ps_handle q then after_load r else r) (view (fst se))"
      using only True by (intro map_cong) (auto simp: after_load_def)
    finally show ?thesis
      using True p v2(2) by (auto simp: step load_events_def upd_plugin_def idle_def)
  qed
qed


lemma distinct_split_other:
  "distinct (map f (xs @ q # ys)) \<Longrightarrow> r \<in> set xs \<union> set ys \<Longrightarrow> f r \<noteq> f q"
  by (auto simp: image_iff)

lemma fold_load:
  "distinct (map ps_handle (ds @ qs)) \<Longrightarrow> view (fst se) = map after_load ds @ qs \<Longrightarrow> idle (fst se) \<Longrightarrow>
     view (fst (fold (load_callback_one code) (map ps_handle qs) se)) = map after_load (ds @ qs)
     \<and> snd (fold (load_callback_one code) (map ps_handle qs) se) = snd se @ concat (map load_events qs)
     \<and> idle (fst (fold (load_callback_one code) (map ps_handle qs) se))"
proof (induction qs arbitrary: ds se)
  case (Cons q qs)
  have al: "ps_handle (after_load r) = ps_handle r" for r by (simp add: after_load_def)
  have d: "distinct (handles (fst se))"
    using Cons.prems(1,2) by (simp add: handles_view [symmetric] comp_def al)
  note s = load_callback_one_spec [OF d _ Cons.prems(3), of q code]
  have "map (\<lambda>r. if ps_handle r = ps_handle q then after_load r else r) (map after_load ds @ q # qs)
      = map after_load (ds @ [q]) @ qs"
    using distinct_split_other [OF Cons.prems(1)] by (simp add: al comp_def) (auto simp: map_idI al)
  then have v: "view (fst (load_callback_one code (ps_handle q) se)) = map after_load (ds @ [q]) @ qs"
    and e: "snd (load_callback_one code (ps_handle q) se) = snd se @ load_events q"
    and i: "idle (fst (load_callback_one code (ps_handle q) se))"
    using s Cons.prems(2) by simp_all
  show ?case using Cons.IH [OF _ v i] Cons.prems(1) e by simp
qed simp

lemma RunLoadCallbacks_spec:
  assumes "distinct (handles st)" "idle st"
  shows "view (fst (RunLoadCallbacks code st)) = map after_load (view st)"
    and "snd (RunLoadCallbacks code st) = concat (map load_events (view st))"
    and "idle (fst (RunLoadCallbacks code st))"
  using fold_load [of "[]" "view st" "(st, [])" code] assms
  by (simp_all add: RunLoadCallbacks_def handles_view)

definition revert_events :: "(plugin_state \<Rightarrow> bool) \<Rightarrow> plugin_state \<Rightarrow> cosave_event list" where
  "revert_events due q = (if ps_revertCb q \<noteq> None \<and> due q then [RevertCalled (ps_handle q)] else [])"

lemma revert_one_spec:
  assumes d: "distinct (handles (fst se))" and q: "q \<in> set (view (fst se))"
    and due: "\<And>p. due (core p) = due p"
  shows "view (fst (revert_one due code (ps_handle q) se)) = view (fst se)
    \<and> snd (revert_one due code (ps_handle q) se) = snd se @ revert_events due q"
proof -
  obtain p where p: "FindPluginByHandle (fst se) (ps_handle q) = Some p" "core p = q"
    by (rule Find_view [OF d q])
  then have "ps_revertCb q = ps_revertCb p" "due q = due p" using due [of p] by auto
  then show ?thesis
    using p quiet_callback [OF d]
    by (auto simp: revert_one_def revert_events_def quiet_def split: option.split)
qed

lemma fold_revert:
  assumes due: "\<And>p. due (core p) = due p"
  shows "distinct (handles (fst se)) \<Longrightarrow> set qs \<subseteq> set (view (fst se)) \<Longrightarrow>
     view (fst (fold (revert_one due code) (map ps_handle qs) se)) = view (fst se)
     \<and> snd (fold (revert_one due code) (map ps_handle qs) se) = snd se @ concat (map (revert_events due) qs)"
proof (induction qs arbitrary: se)
  case (Cons q qs)
  have s: "view (fst (revert_one due code (ps_handle q) se)) = view (fst se)
    \<and> snd (revert_one due code (ps_handle q) se) = snd se @ revert_events due q"
    using revert_one_spec [of se q due code] Cons.prems due by simp
  moreover have "distinct (handles (fst (revert_one due code (ps_handle q) se)))"
    using Cons.prems(1) s by (metis handles_view)
  ultimately show ?case using Cons.IH Cons.prems(2) by simp
qed simp

lemma revert_pass_events:
  "distinct (handles st) \<Longrightarrow> (\<And>p. due (core p) = due p) \<Longrightarrow>
     snd (fold (revert_one due code) (handles st) (st, [])) = concat (map (revert_events due) (view st))"
  using fold_revert [of due "(st, [])" "view st" code] by (simp add: handles_view)

section \<open>Paths: lemmas\<close>

lemma strip_whs_append [simp]: "strip_whs (b @ ''.whs'') = b"
  by (simp add: strip_whs_def)

lemma to_string_nonneg_char: "0 \<le> n \<Longrightarrow> c \<in> set (to_string n) \<Longrightarrow> c \<noteq> CHR ''/''"
proof -
  have "c \<noteq> CHR ''/''" if "c \<in> set (digits_rev k)" for k
    using that
  proof (induction k rule: digits_rev.induct)
    case (1 n)
    have "n mod 10 < 10" by simp
    then have "48 + n mod 10 < 256" by simp
    then have "48 + n mod 10 < 2 ^ 8" by simp
    then have "take_bit 8 (48 + n mod 10) = 48 + n mod 10" by (rule take_bit_nat_eq_self)
    then have "char_of (48 + n mod 10) \<noteq> CHR ''/''" by (simp add: char_of_eq_iff)
    moreover have "c \<in> insert (char_of (48 + n mod 10)) (if n < 10 then {} else set (digits_rev (n div 10)))"
      using "1.prems" by (subst (asm) digits_rev.simps) (simp split: if_splits)
    ultimately show ?case using "1.IH" by (metis empty_iff insert_iff)
  qed
  then show "0 \<le> n \<Longrightarrow> c \<in> set (to_string n) \<Longrightarrow> c \<noteq> CHR ''/''" by (simp add: to_string_def)
qed

text \<open>The engine's full path of a save and the reconstructed path of its load name one file.\<close>

lemma paths_agree:
  assumes "0 \<le> n" "CHR ''/'' \<notin> set u" "CHR ''/'' \<notin> set b"
  shows "CosavePathFromSaveFullPath (Some u) (''%USER%/saves/playline'' @ to_string n @ ''/'' @ b @ ''.whs'')
    = MakeCosavePath (Some u) n (MakeCosaveBasename (b @ ''.whs''))"
proof -
  have raw: "strip_whs (''%USER%/saves/playline'' @ to_string n @ ''/'' @ b @ ''.whs'')
      = ''%USER%/saves/playline'' @ to_string n @ ''/'' @ b"
    using strip_whs_append [of "''%USER%/saves/playline'' @ to_string n @ ''/'' @ b"] by simp
  have same: "map (\<lambda>c. if c = CHR ''/'' then bslash else c) xs = xs" if "CHR ''/'' \<notin> set xs" for xs
    using that by (intro map_idI) auto
  have "CHR ''/'' \<notin> set (to_string n)" using to_string_nonneg_char [OF assms(1)] by blast
  then show ?thesis
    unfolding CosavePathFromSaveFullPath_def raw Let_def
    using assms
    by (simp add: MakeCosavePath_def SavesDirForPlayline_def MakeCosaveBasename_def game_saves_dir_def Let_def same)
qed

section \<open>Properties\<close>

text \<open>What plugin \<open>q\<close> is handed from a file with the sections \<open>ss\<close>.\<close>

abbreviation given :: "cosave_section list \<Rightarrow> plugin_state \<Rightarrow> chunk list" where
  "given ss q \<equiv> chunks_for ss (ps_uid q)"

lemma ReadAndParse_view:
  assumes "file = Some blob" "blob \<noteq> []" "length blob \<le> kMaxCosaveBytes" "parse_cosave blob = Some ss"
    "ids_distinct (se_plugins st)"
  shows "ReadAndParseCosave file st = (st\<lparr>se_plugins := map (receive (map_of (rev ss))) (se_plugins st)\<rparr>, True)"
  using assms fold_sections [of ss Map.empty] by (simp add: ReadAndParseCosave_def assign_loaded_distinct)

lemma receive_core:
  "core (receive (map_of (rev ss)) q) = (if ps_uid q = 0 then core q else (core q)\<lparr>ps_loadedChunks := given ss q\<rparr>)"
  by (simp add: receive_def loaded_plugin_chunks_def core_def chunks_for_def)

definition dispatch_loads :: "cosave_section list \<Rightarrow> plugin_state \<Rightarrow> cosave_event list" where
  "dispatch_loads ss q =
     (if ps_uid q \<noteq> 0 \<and> ps_loadCb q \<noteq> None \<and> given ss q \<noteq> []
      then [LoadCalled (ps_handle q) (given ss q)] else [])"

definition dispatch_reverts :: "cosave_section list \<Rightarrow> plugin_state \<Rightarrow> cosave_event list" where
  "dispatch_reverts ss q =
     (if ps_uid q \<noteq> 0 \<and> ps_revertCb q \<noteq> None \<and> (ps_loadCb q = None \<longrightarrow> given ss q = [])
      then [RevertCalled (ps_handle q)] else [])"

lemma OnPostLoadGame_events:
  assumes bn: "se_pendingLoadBasename st \<noteq> []"
    and pth: "path = MakeCosavePath profile (se_pendingLoadPlayline st) (MakeCosaveBasename (se_pendingLoadBasename st))"
      "path \<noteq> []"
    and fl: "files path = Some blob" "blob \<noteq> []" "length blob \<le> kMaxCosaveBytes" "parse_cosave blob = Some ss"
    and st: "distinct (handles st)" "ids_distinct (se_plugins st)" "idle st"
  shows "snd (OnPostLoadGame code profile files st) =
    concat (map (dispatch_loads ss) (se_plugins st)) @ concat (map (dispatch_reverts ss) (se_plugins st))"
proof -
  define st1 where "st1 = st\<lparr>se_pendingLoadBasename := [], se_pendingLoadPlayline := -1\<rparr>"
  define st2 where "st2 = st1\<lparr>se_plugins := map (receive (map_of (rev ss))) (se_plugins st)\<rparr>"
  have parsed: "ReadAndParseCosave (files path) st1 = (st2, True)"
    using ReadAndParse_view [OF fl, of st1] st(2) by (simp add: st1_def st2_def)
  have ev: "snd (OnPostLoadGame code profile files st) =
      snd (RunLoadCallbacks code st2) @ snd (revert_without_chunks code (fst (RunLoadCallbacks code st2)))"
    using bn pth parsed
    by (simp add: OnPostLoadGame_def Let_def st1_def [symmetric] pth(1) [symmetric] split_beta)
  have h2: "ps_handle (receive m q) = ps_handle q" for m q by (simp add: receive_def loaded_plugin_chunks_def)
  have d2: "distinct (handles st2)" and i2: "idle st2"
    using st by (simp_all add: st2_def st1_def idle_def comp_def h2)
  note load = RunLoadCallbacks_spec [OF d2 i2, of code]
  have v2: "view st2 = map (\<lambda>q. core (receive (map_of (rev ss)) q)) (se_plugins st)"
    by (simp add: view_def st2_def comp_def)
  have "snd (RunLoadCallbacks code st2) = concat (map (dispatch_loads ss) (se_plugins st))"
    unfolding load(2) v2 map_map comp_def
    by (intro arg_cong [of _ _ concat] map_cong) (auto simp: load_events_def loads_def receive_core dispatch_loads_def)
  moreover have "snd (revert_without_chunks code (fst (RunLoadCallbacks code st2)))
      = concat (map (dispatch_reverts ss) (se_plugins st))"
  proof -
    have d3: "distinct (handles (fst (RunLoadCallbacks code st2)))"
      using d2 load(1) by (simp add: handles_view [symmetric] comp_def after_load_def if_distrib cong: if_cong)
    show ?thesis
      unfolding revert_without_chunks_def
      by (subst revert_pass_events [OF d3], simp, unfold load(1) v2 map_map comp_def,
          intro arg_cong [of _ _ concat] map_cong)
        (auto simp: revert_events_def after_load_def loads_def receive_core dispatch_reverts_def)
  qed
  ultimately show ?thesis unfolding ev by simp
qed

lemma chunks_for_section:
  "distinct (map fst ss) \<Longrightarrow> (u, cs) \<in> set ss \<Longrightarrow> chunks_for ss u = cs"
proof -
  assume "distinct (map fst ss)" "(u, cs) \<in> set ss"
  then have "map_of (rev ss) u = Some cs" by (intro map_of_is_SomeI) (simp_all add: rev_map [symmetric])
  then show ?thesis by (simp add: chunks_for_def)
qed

lemma cosave_sections_distinct: "ids_distinct (se_plugins st) \<Longrightarrow> distinct (map fst (cosave_sections st))"
proof -
  assume "ids_distinct (se_plugins st)"
  moreover have "map fst (cosave_sections st)
      = map ps_uid (filter (\<lambda>p. ps_pendingChunks p \<noteq> []) (filter (\<lambda>p. ps_uid p \<noteq> 0) (se_plugins st)))"
    by (simp add: cosave_sections_def comp_def conj_commute)
  ultimately show ?thesis unfolding ids_distinct_def by (metis distinct_map_filter)
qed

text \<open>The effect of a save on the disk.\<close>

lemma OnSaveGame_file:
  "fst (OnSaveGame code profile Completes basename files st) =
     (let path = CosavePathFromSaveFullPath profile (se_lastSaveFullPath st);
          ss = cosave_sections (fst (RunSaveCallbacks code st)); blob = cosave_blob ss
      in if basename = [] \<or> path = [] \<or> ss = [] then files
         else files(path := Some (take (length blob mod 2 ^ 32) blob)))"
  by (auto simp: OnSaveGame_def BuildAndWriteCosave_def Let_def split_beta)

text \<open>Property C11.  Saved data survives: whatever records a plugin wrote in its SaveCallback, loading
  that save later hands exactly these records (tags, versions, names, bytes, order) to the
  LoadCallback of the plugin with the same id, through the file and through the two different
  ways the save path and the load path are computed, for files up to 64 MiB and distinct ids.\<close>

theorem cosave_survives:
  assumes save: "se_lastSaveFullPath s = ''%USER%/saves/playline'' @ to_string n @ ''/'' @ b @ ''.whs''" "0 \<le> n"
      "CHR ''/'' \<notin> set u" "CHR ''/'' \<notin> set b"
      "files' = fst (OnSaveGame code (Some u) Completes (b @ ''.whs'') files s)"
    and wrote: "p \<in> set (se_plugins (fst (RunSaveCallbacks code s)))" "ps_uid p \<noteq> 0" "ps_pendingChunks p \<noteq> []"
      "ids_distinct (se_plugins (fst (RunSaveCallbacks code s)))"
      "length (cosave_blob (cosave_sections (fst (RunSaveCallbacks code s)))) \<le> kMaxCosaveBytes"
    and load: "se_pendingLoadBasename t = b @ ''.whs''" "se_pendingLoadPlayline t = n"
      "distinct (handles t)" "ids_distinct (se_plugins t)" "idle t"
    and q: "q \<in> set (se_plugins t)" "ps_uid q = ps_uid p" "ps_loadCb q \<noteq> None"
  shows "LoadCalled (ps_handle q) (ps_pendingChunks p) \<in> set (snd (OnPostLoadGame code' (Some u) files' t))"
proof -
  let ?ss = "cosave_sections (fst (RunSaveCallbacks code s))"
  define path where "path = MakeCosavePath (Some u) n (MakeCosaveBasename (b @ ''.whs''))"
  have sec: "(ps_uid p, ps_pendingChunks p) \<in> set ?ss" using wrote(1-3) by (auto simp: cosave_sections_def)
  have "0 < length (cosave_blob ?ss)" by (simp add: cosave_blob_def)
  then have ne: "path \<noteq> []" "?ss \<noteq> []" "cosave_blob ?ss \<noteq> []"
    using sec by (auto simp: path_def MakeCosavePath_def SavesDirForPlayline_def Let_def game_saves_dir_def)
  have len: "length (cosave_blob ?ss) < 2 ^ 32" using wrote(5) by (simp add: kMaxCosaveBytes_def)
  then have fl: "files' path = Some (cosave_blob ?ss)"
    using save(5) ne paths_agree [OF save(2-4)] by (simp add: OnSaveGame_file Let_def save(1) path_def)
  have bn: "se_pendingLoadBasename t \<noteq> []" using load(1) by simp
  have "LoadCalled (ps_handle q) (chunks_for ?ss (ps_uid q)) \<in> set (dispatch_loads ?ss q)"
    using chunks_for_section [OF cosave_sections_distinct [OF wrote(4)] sec] q wrote(2,3)
    by (simp add: dispatch_loads_def)
  then show ?thesis
    using OnPostLoadGame_events [where files = files' and path = path, OF bn _ ne(1) fl ne(3) wrote(5) parse_cosave_blob [OF len] load(3-5)] q
      chunks_for_section [OF cosave_sections_distinct [OF wrote(4)] sec] load(1,2)
    by (auto simp: path_def)
qed

text \<open>One plugin that saves one record, for the concrete instances.\<close>

definition demo_callbacks :: callbacks where
  "demo_callbacks cb h =
     (if cb = 0 then CallOpenRecord 5 1 (\<lambda>ok. CallWriteRecordData [1, 2] (\<lambda>ok. CbReturn)) else CbReturn)"

definition demo_state :: ser_state where
  "demo_state =
     \<lparr>se_plugins = [(new_plugin 1)\<lparr>ps_uid := 7, ps_saveCb := Some 0, ps_loadCb := Some 1, ps_revertCb := Some 1\<rparr>],
      se_currentWriter = None, se_currentReader = None,
      se_lastSaveFullPath = ''%USER%/saves/playline'' @ to_string 0 @ ''/'' @ ''quick'' @ ''.whs'',
      se_pendingLoadBasename = ''quick'' @ ''.whs'', se_pendingLoadPlayline = 0\<rparr>"

definition demo_chunk :: chunk where
  "demo_chunk = \<lparr>ck_tag = 5, ck_version = 1, ck_tagName = [], ck_data = [1, 2]\<rparr>"

lemma demo_save:
  "se_plugins (fst (RunSaveCallbacks demo_callbacks demo_state)) =
     [(new_plugin 1)\<lparr>ps_uid := 7, ps_saveCb := Some 0, ps_loadCb := Some 1, ps_revertCb := Some 1,
        ps_pendingChunks := [demo_chunk], ps_recordOpen := True\<rparr>]"
  by (simp add: RunSaveCallbacks_def demo_state_def save_one_def FindPluginByHandle_def new_plugin_def
      upd_plugin_def demo_callbacks_def OpenRecord_def current_def open_chunk_def WriteRecordData_def
      append_data_def demo_chunk_def)

lemma demo_sections: "cosave_sections (fst (RunSaveCallbacks demo_callbacks demo_state)) = [(7, [demo_chunk])]"
  by (simp add: cosave_sections_def demo_save new_plugin_def)

lemma demo_fields:
  "se_lastSaveFullPath demo_state = ''%USER%/saves/playline'' @ to_string 0 @ ''/'' @ ''quick'' @ ''.whs''"
  "se_pendingLoadBasename demo_state = ''quick'' @ ''.whs''" "se_pendingLoadPlayline demo_state = 0"
  "se_plugins demo_state = [(new_plugin 1)\<lparr>ps_uid := 7, ps_saveCb := Some 0, ps_loadCb := Some 1, ps_revertCb := Some 1\<rparr>]"
  "distinct (handles demo_state)" "ids_distinct (se_plugins demo_state)" "idle demo_state"
  "ids_distinct (se_plugins (fst (RunSaveCallbacks demo_callbacks demo_state)))"
  "length (cosave_blob [(7, [demo_chunk])]) = 42"
proof -
  show "ids_distinct (se_plugins (fst (RunSaveCallbacks demo_callbacks demo_state)))"
    unfolding demo_save by (simp add: ids_distinct_def)
qed (simp_all add: demo_state_def ids_distinct_def idle_def cosave_blob_def section_bytes_def
      length_chunk_bytes demo_chunk_def)

theorem cosave_survives_witness:
  "LoadCalled 1 [demo_chunk] \<in> set (snd (OnPostLoadGame demo_callbacks (Some ''C:'')
     (fst (OnSaveGame demo_callbacks (Some ''C:'') Completes (''quick'' @ ''.whs'') (\<lambda>_. None) demo_state)) demo_state))"
proof -
  let ?p = "(new_plugin 1)\<lparr>ps_uid := 7, ps_saveCb := Some 0, ps_loadCb := Some 1, ps_revertCb := Some 1,
        ps_pendingChunks := [demo_chunk], ps_recordOpen := True\<rparr>"
  let ?q = "(new_plugin 1)\<lparr>ps_uid := 7, ps_saveCb := Some 0, ps_loadCb := Some 1, ps_revertCb := Some 1\<rparr>"
  have "LoadCalled (ps_handle ?q) (ps_pendingChunks ?p) \<in> set (snd (OnPostLoadGame demo_callbacks (Some ''C:'')
     (fst (OnSaveGame demo_callbacks (Some ''C:'') Completes (''quick'' @ ''.whs'') (\<lambda>_. None) demo_state)) demo_state))"
    by (rule cosave_survives [OF demo_fields(1) _ _ _ refl _ _ _ demo_fields(8) _ demo_fields(2,3,5,6,7)])
      (simp_all add: demo_save demo_sections demo_fields kMaxCosaveBytes_def)
  then show ?thesis by (simp add: new_plugin_def)
qed

text \<open>Property C12.  Who is called when a game is loaded and its co-save was read: first every plugin with
  data gets its LoadCallback, then the RevertCallbacks run - not only for the plugins without
  data, as intended, but for every plugin that has a LoadCallback as well, because handing the
  data out empties the list the second pass tests.  So a plugin with both callbacks is reset right
  after it restored its state.\<close>

theorem post_load_dispatch:
  assumes "se_pendingLoadBasename st \<noteq> []"
    and "path = MakeCosavePath profile (se_pendingLoadPlayline st) (MakeCosaveBasename (se_pendingLoadBasename st))"
      "path \<noteq> []"
    and "files path = Some blob" "blob \<noteq> []" "length blob \<le> kMaxCosaveBytes" "parse_cosave blob = Some ss"
    and "distinct (handles st)" "ids_distinct (se_plugins st)" "idle st"
  shows "snd (OnPostLoadGame code profile files st) =
    concat (map (\<lambda>q. if ps_uid q \<noteq> 0 \<and> ps_loadCb q \<noteq> None \<and> given ss q \<noteq> []
                     then [LoadCalled (ps_handle q) (given ss q)] else []) (se_plugins st))
    @ concat (map (\<lambda>q. if ps_uid q \<noteq> 0 \<and> ps_revertCb q \<noteq> None \<and> (ps_loadCb q = None \<longrightarrow> given ss q = [])
                     then [RevertCalled (ps_handle q)] else []) (se_plugins st))"
  using OnPostLoadGame_events [where files = files, OF assms]
  unfolding dispatch_loads_def [abs_def] dispatch_reverts_def [abs_def] .

theorem post_load_dispatch_witness:
  "snd (OnPostLoadGame demo_callbacks (Some ''C:'') (\<lambda>_. Some (cosave_blob [(7, [demo_chunk])])) demo_state)
     = [LoadCalled 1 [demo_chunk], RevertCalled 1]"
proof -
  have len: "length (cosave_blob [(7, [demo_chunk])]) < 2 ^ 32" unfolding demo_fields by simp
  have "snd (OnPostLoadGame demo_callbacks (Some ''C:'') (\<lambda>_. Some (cosave_blob [(7, [demo_chunk])])) demo_state) =
    concat (map (\<lambda>q. if ps_uid q \<noteq> 0 \<and> ps_loadCb q \<noteq> None \<and> given [(7, [demo_chunk])] q \<noteq> []
                     then [LoadCalled (ps_handle q) (given [(7, [demo_chunk])] q)] else []) (se_plugins demo_state))
    @ concat (map (\<lambda>q. if ps_uid q \<noteq> 0 \<and> ps_revertCb q \<noteq> None \<and> (ps_loadCb q = None \<longrightarrow> given [(7, [demo_chunk])] q = [])
                     then [RevertCalled (ps_handle q)] else []) (se_plugins demo_state))"
    by (rule post_load_dispatch [OF _ refl _ refl _ _ parse_cosave_blob [OF len] demo_fields(5,6,7)])
      (use demo_fields(9) in \<open>auto simp: demo_fields(2,3) MakeCosavePath_def SavesDirForPlayline_def game_saves_dir_def
        kMaxCosaveBytes_def\<close>)
  then show ?thesis by (simp add: demo_fields(4) chunks_for_def new_plugin_def)
qed


text \<open>The loop a LoadCallback is documented to run: info, name, then all the bytes, until no record is left.\<close>

fun read_records :: "nat \<Rightarrow> ser_state \<Rightarrow> (u32 \<times> u32 \<times> bytes \<times> bytes option) list" where
  "read_records 0 st = []"
| "read_records (Suc k) st =
     (case GetNextRecordInfo st of
        (st1, None) \<Rightarrow> []
      | (st1, Some (tag, version, len)) \<Rightarrow>
          (case ReadRecordData len st1 of
             (st2, d) \<Rightarrow> (tag, version, GetRecordTagName st1, d) # read_records k st2))"

lemma Find_upd:
  "FindPluginByHandle st h = Some p \<Longrightarrow> ps_handle p' = h \<Longrightarrow>
     FindPluginByHandle (upd_plugin h (\<lambda>_. p') st) h = Some p'"
proof -
  have "find (\<lambda>p. ps_handle p = h) ps = Some p \<Longrightarrow> ps_handle p' = h \<Longrightarrow>
      find (\<lambda>p. ps_handle p = h) (map (\<lambda>p. if ps_handle p = h then p' else p) ps) = Some p'" for ps
    by (induction ps) auto
  then show "FindPluginByHandle st h = Some p \<Longrightarrow> ps_handle p' = h \<Longrightarrow>
     FindPluginByHandle (upd_plugin h (\<lambda>_. p') st) h = Some p'"
    by (simp add: FindPluginByHandle_def upd_plugin_def)
qed

definition next_index :: "plugin_state \<Rightarrow> nat" where
  "next_index p = ps_loadCursor p + (if ps_loadHasPending p then 1 else 0)"

text \<open>One round of the loop: the next chunk comes back whole and the index moves on by one.\<close>

lemma read_round:
  assumes r: "se_currentReader st = Some h" and p: "FindPluginByHandle st h = Some p"
    and i: "next_index p < length (ps_loadedChunks p)"
    and len: "length (ck_data (ps_loadedChunks p ! next_index p)) < 2 ^ 32"
  obtains st1 st2 p2 where
    "GetNextRecordInfo st = (st1, Some (ck_tag (ps_loadedChunks p ! next_index p),
        ck_version (ps_loadedChunks p ! next_index p), of_nat (length (ck_data (ps_loadedChunks p ! next_index p)))))"
    "GetRecordTagName st1 = ck_tagName (ps_loadedChunks p ! next_index p)"
    "ReadRecordData (of_nat (length (ck_data (ps_loadedChunks p ! next_index p)))) st1
       = (st2, Some (ck_data (ps_loadedChunks p ! next_index p)))"
    "se_currentReader st2 = Some h" "FindPluginByHandle st2 h = Some p2"
    "next_index p2 = Suc (next_index p)" "ps_loadedChunks p2 = ps_loadedChunks p"
proof -
  have h: "ps_handle p = h" using Find_handle [OF p] by simp
  define c where "c = ps_loadedChunks p ! next_index p"
  define p1 where "p1 = p\<lparr>ps_loadCursor := next_index p, ps_loadByteOffset := 0, ps_loadHasPending := True\<rparr>"
  define st1 where "st1 = upd_plugin h (\<lambda>_. p1) st"
  have 1: "GetNextRecordInfo st = (st1, Some (ck_tag c, ck_version c, of_nat (length (ck_data c))))"
    using r p i h by (auto simp: GetNextRecordInfo_def current_def next_index_def c_def st1_def p1_def Let_def)
  have f1: "FindPluginByHandle st1 h = Some p1" and r1: "se_currentReader st1 = Some h"
    using Find_upd [OF p, of p1] h r by (simp_all add: st1_def p1_def upd_plugin_def)
  have 2: "GetRecordTagName st1 = ck_tagName c"
    using f1 r1 i by (simp add: GetRecordTagName_def current_def p1_def c_def)
  have n: "unat (of_nat (length (ck_data c)) :: u32) = length (ck_data c)"
    using len by (intro unat_of_nat_u32) (simp add: c_def)
  show ?thesis
  proof (cases "ck_data c = []")
    case True
    then have "ReadRecordData (of_nat (length (ck_data c))) st1 = (st1, Some (ck_data c))"
      using f1 r1 by (simp add: ReadRecordData_def current_def p1_def)
    with 1 2 r1 f1 show ?thesis
      by (intro that [of st1 st1 p1]) (simp_all add: c_def p1_def next_index_def)
  next
    case False
    then have nz: "(of_nat (length (ck_data c)) :: u32) \<noteq> 0" using n by auto
    define p2 where "p2 = p1\<lparr>ps_loadCursor := next_index p + 1, ps_loadByteOffset := 0, ps_loadHasPending := False\<rparr>"
    define st2 where "st2 = upd_plugin h (\<lambda>_. p2) st1"
    have 3: "ReadRecordData (of_nat (length (ck_data c))) st1 = (st2, Some (ck_data c))"
      using f1 r1 nz h
      by (simp add: ReadRecordData_def current_def n Let_def)
        (simp add: p1_def p2_def st2_def c_def)
    have "FindPluginByHandle st2 h = Some p2" "se_currentReader st2 = Some h"
      using Find_upd [OF f1, of p2] h r1 by (simp_all add: st2_def p2_def p1_def upd_plugin_def)
    with 1 2 3 show ?thesis
      by (intro that [of st1 st2 p2]) (simp_all add: c_def p1_def p2_def next_index_def)
  qed
qed

lemma read_records_from:
  "se_currentReader st = Some h \<Longrightarrow> FindPluginByHandle st h = Some p \<Longrightarrow>
     list_all (\<lambda>c. length (ck_data c) < 2 ^ 32) (ps_loadedChunks p) \<Longrightarrow>
     length (ps_loadedChunks p) - next_index p < k \<Longrightarrow>
     read_records k st = map (\<lambda>c. (ck_tag c, ck_version c, ck_tagName c, Some (ck_data c)))
       (drop (next_index p) (ps_loadedChunks p))"
proof (induction k arbitrary: st p)
  case (Suc k)
  show ?case
  proof (cases "next_index p < length (ps_loadedChunks p)")
    case True
    have len: "length (ck_data (ps_loadedChunks p ! next_index p)) < 2 ^ 32"
      using Suc.prems(3) True by (simp add: list_all_length)
    obtain st1 st2 p2 where round: "GetNextRecordInfo st = (st1, Some (ck_tag (ps_loadedChunks p ! next_index p),
          ck_version (ps_loadedChunks p ! next_index p), of_nat (length (ck_data (ps_loadedChunks p ! next_index p)))))"
        "GetRecordTagName st1 = ck_tagName (ps_loadedChunks p ! next_index p)"
        "ReadRecordData (of_nat (length (ck_data (ps_loadedChunks p ! next_index p)))) st1
           = (st2, Some (ck_data (ps_loadedChunks p ! next_index p)))"
        and st2: "se_currentReader st2 = Some h" "FindPluginByHandle st2 h = Some p2"
        "next_index p2 = Suc (next_index p)" "ps_loadedChunks p2 = ps_loadedChunks p"
      by (rule read_round [OF Suc.prems(1,2) True len])
    have "read_records k st2 = map (\<lambda>c. (ck_tag c, ck_version c, ck_tagName c, Some (ck_data c)))
       (drop (Suc (next_index p)) (ps_loadedChunks p))"
      using Suc.IH [OF st2(1,2)] Suc.prems(3,4) st2(3,4) True by simp
    then show ?thesis
      using True by (simp add: round Cons_nth_drop_Suc [symmetric])
  next
    case False
    then have "snd (GetNextRecordInfo st) = None"
      using Suc.prems(1,2) by (auto simp: GetNextRecordInfo_def current_def next_index_def Let_def)
    then show ?thesis using False by (simp split: prod.split option.split) (metis snd_conv option.distinct(1))
  qed
qed simp

text \<open>Inside a LoadCallback the documented loop gives back exactly the chunks the plugin was
  handed, each with its tag, version, name and all its bytes, and then stops; empty records
  included, although reading nothing does not move the cursor.\<close>

theorem records_read_back:
  assumes "se_currentReader st = Some h" "FindPluginByHandle st h = Some (loaded_plugin_chunks cs p)"
    and "list_all (\<lambda>c. length (ck_data c) < 2 ^ 32) cs" and "length cs < k"
  shows "read_records k st = map (\<lambda>c. (ck_tag c, ck_version c, ck_tagName c, Some (ck_data c))) cs"
  using read_records_from [OF assms(1,2)] assms(3,4)
  by (simp add: loaded_plugin_chunks_def next_index_def)

theorem records_read_back_witness:
  "read_records 3 (demo_state\<lparr>se_currentReader := Some 1,
      se_plugins := [loaded_plugin_chunks [demo_chunk\<lparr>ck_data := []\<rparr>, demo_chunk] (new_plugin 1)]\<rparr>)
     = [(5, 1, [], Some []), (5, 1, [], Some [1, 2])]"
  by (subst records_read_back [of _ 1 "[demo_chunk\<lparr>ck_data := []\<rparr>, demo_chunk]" "new_plugin 1"])
    (simp_all add: FindPluginByHandle_def loaded_plugin_chunks_def new_plugin_def demo_chunk_def)

end
