(* ===== verification/Lua_Cosave.thy ===== *)
theory Lua_Cosave
  imports Byte_Codec
begin

text \<open>
  src/lua_cosave_serial.cpp: the byte encoding of Lua values kept in a co-save.

  The writer walks the Lua heap: a table is an identity whose entries (in the order lua_next
  yields them) a heap function gives, so cycles and shared tables are representable.  The reader
  builds fresh tables: a tree, whose tables are association lists in insertion order as lua_rawset
  leaves them.  A number is the four bytes of this build's lua_Number (a 32-bit float); what Lua
  decides about numbers as keys (equality, NaN) is the IEEE meaning of these bits.  \<open>depth\<close> counts
  down here: the argument is the number of levels left of kMaxDepth.
\<close>

section \<open>Values\<close>

datatype lua_kind = KNil | KFunction | KUserdata | KLightUserdata | KThread

datatype lua_val =
    LNumber u32
  | LBool bool
  | LString bytes
  | LTable nat
  | LOther lua_kind

type_synonym lua_heap = "nat \<Rightarrow> (lua_val \<times> lua_val) list"

datatype codec_error =
    KeyTooLong
  | KeyNotSupported
  | StringTooLong
  | NestingTooDeep
  | CyclicReference
  | TooManyEntries
  | NotSerializable lua_kind
  | Truncated
  | BadMagic
  | OtherVersion
  | OtherNumberFormat
  | TrailingBytes
  | LuaRaised

section \<open>Wire format\<close>

definition kMagic0 :: byte where "kMagic0 = 0x4B"
definition kMagic1 :: byte where "kMagic1 = 0x53"
definition kSerialFormatVersion :: byte where "kSerialFormatVersion = 1"
definition kTagNumber :: byte where "kTagNumber = 0x01"
definition kTagString :: byte where "kTagString = 0x02"
definition kTagBool :: byte where "kTagBool = 0x03"
definition kTagTable :: byte where "kTagTable = 0x04"
definition kNumberWidth :: byte where "kNumberWidth = 4"
definition kMaxDepth :: nat where "kMaxDepth = 256"

definition kHeader :: bytes where
  "kHeader = [kMagic0, kMagic1, kSerialFormatVersion, kNumberWidth]"

lemmas wire_defs = kTagNumber_def kTagString_def kTagBool_def kTagTable_def

section \<open>Writing\<close>

definition string_bytes :: "bytes \<Rightarrow> bytes" where
  "string_bytes s = kTagString # u32_bytes (of_nat (length s)) @ s"

fun SerializeKey :: "lua_val \<Rightarrow> codec_error + bytes" where
  "SerializeKey (LNumber n) = Inr (kTagNumber # u32_bytes n)"
| "SerializeKey (LString s) =
     (if length s > 0xFFFFFFFF then Inl KeyTooLong else Inr (string_bytes s))"
| "SerializeKey _ = Inl KeyNotSupported"

text \<open>The bytes a value appends; the entry loop also gives the final count.\<close>

fun SerializeValue :: "lua_heap \<Rightarrow> nat \<Rightarrow> nat list \<Rightarrow> lua_val \<Rightarrow> codec_error + bytes"
  and SerializeEntries :: "lua_heap \<Rightarrow> nat \<Rightarrow> nat list \<Rightarrow> (lua_val \<times> lua_val) list \<Rightarrow> u32
    \<Rightarrow> codec_error + bytes \<times> u32" where
  "SerializeValue h lv ancestry (LNumber n) = Inr (kTagNumber # u32_bytes n)"
| "SerializeValue h lv ancestry (LBool b) = Inr [kTagBool, if b then 1 else 0]"
| "SerializeValue h lv ancestry (LString s) =
     (if length s > 0xFFFFFFFF then Inl StringTooLong else Inr (string_bytes s))"
| "SerializeValue h lv ancestry (LOther k) = Inl (NotSerializable k)"
| "SerializeValue h 0 ancestry (LTable t) = Inl NestingTooDeep"
| "SerializeValue h (Suc lv) ancestry (LTable t) =
     (if t \<in> set ancestry then Inl CyclicReference
      else (case SerializeEntries h lv (ancestry @ [t]) (h t) 0 of
              Inl e \<Rightarrow> Inl e
            | Inr (bs, cnt) \<Rightarrow> Inr (kTagTable # u32_bytes cnt @ bs)))"
| "SerializeEntries h lv ancestry [] cnt = Inr ([], cnt)"
| "SerializeEntries h lv ancestry ((k, v) # es) cnt =
     (case SerializeKey k of
        Inl e \<Rightarrow> Inl e
      | Inr kb \<Rightarrow>
          (case SerializeValue h lv ancestry v of
             Inl e \<Rightarrow> Inl e
           | Inr vb \<Rightarrow>
               if cnt = 0xFFFFFFFF then Inl TooManyEntries
               else (case SerializeEntries h lv ancestry es (cnt + 1) of
                       Inl e \<Rightarrow> Inl e
                     | Inr (bs, n) \<Rightarrow> Inr (kb @ vb @ bs, n))))"

definition Serialize :: "lua_heap \<Rightarrow> lua_val \<Rightarrow> codec_error + bytes" where
  "Serialize h v =
     (case SerializeValue h kMaxDepth [] v of Inl e \<Rightarrow> Inl e | Inr bs \<Rightarrow> Inr (kHeader @ bs))"

section \<open>Reading\<close>

datatype lua_tree =
    TNumber u32
  | TBoolean bool
  | TBytes bytes
  | TFresh "(lua_tree \<times> lua_tree) list"

text \<open>Number bits: exponent all ones with a fraction is NaN; the two zeros are equal.\<close>

definition is_nan :: "u32 \<Rightarrow> bool" where
  "is_nan w \<longleftrightarrow> (w AND 0x7F800000) = 0x7F800000 \<and> (w AND 0x007FFFFF) \<noteq> 0"

definition number_eq :: "u32 \<Rightarrow> u32 \<Rightarrow> bool" where
  "number_eq a b \<longleftrightarrow> \<not> is_nan a \<and> \<not> is_nan b \<and> (a = b \<or> (a AND 0x7FFFFFFF) = 0 \<and> (b AND 0x7FFFFFFF) = 0)"

fun key_eq :: "lua_tree \<Rightarrow> lua_tree \<Rightarrow> bool" where
  "key_eq (TNumber a) (TNumber b) = number_eq a b"
| "key_eq (TBoolean a) (TBoolean b) = (a = b)"
| "key_eq (TBytes a) (TBytes b) = (a = b)"
| "key_eq _ _ = False"

text \<open>Two tables the reader built are never the same table.  A NaN key makes lua_rawset raise.\<close>

fun rawset_assoc :: "lua_tree \<Rightarrow> lua_tree \<Rightarrow> (lua_tree \<times> lua_tree) list \<Rightarrow> (lua_tree \<times> lua_tree) list" where
  "rawset_assoc k v [] = [(k, v)]"
| "rawset_assoc k v ((j, w) # m) = (if key_eq j k then (j, v) # m else (j, w) # rawset_assoc k v m)"

fun nan_key :: "lua_tree \<Rightarrow> bool" where
  "nan_key (TNumber n) = is_nan n"
| "nan_key _ = False"

definition lua_rawset :: "lua_tree \<Rightarrow> lua_tree \<Rightarrow> (lua_tree \<times> lua_tree) list
    \<Rightarrow> codec_error + (lua_tree \<times> lua_tree) list" where
  "lua_rawset k v m = (if nan_key k then Inl LuaRaised else Inr (rawset_assoc k v m))"

fun DeserializeValue :: "nat \<Rightarrow> bytes \<Rightarrow> codec_error + lua_tree \<times> bytes"
  and DeserializeEntries :: "nat \<Rightarrow> nat \<Rightarrow> bytes \<Rightarrow> (lua_tree \<times> lua_tree) list
    \<Rightarrow> codec_error + lua_tree \<times> bytes" where
  "DeserializeValue 0 r = Inl Truncated"
| "DeserializeValue (Suc lv) r =
     (case ReadBytes r 1 of
        None \<Rightarrow> Inl Truncated
      | Some (tagp, r) \<Rightarrow>
          if hd tagp = kTagNumber
          then (case ReadU32 r of None \<Rightarrow> Inl Truncated | Some (n, r) \<Rightarrow> Inr (TNumber n, r))
          else if hd tagp = kTagBool
          then (case ReadBytes r 1 of
                  None \<Rightarrow> Inl Truncated
                | Some (p, r) \<Rightarrow> Inr (TBoolean (hd p \<noteq> 0), r))
          else if hd tagp = kTagString
          then (case ReadU32 r of
                  None \<Rightarrow> Inl Truncated
                | Some (slen, r) \<Rightarrow>
                    (case ReadBytes r (unat slen) of
                       None \<Rightarrow> Inl Truncated
                     | Some (s, r) \<Rightarrow> Inr (TBytes s, r)))
          else if hd tagp = kTagTable
          then (case ReadU32 r of
                  None \<Rightarrow> Inl Truncated
                | Some (n, r) \<Rightarrow> DeserializeEntries lv (unat n) r [])
          else Inl Truncated)"
| "DeserializeEntries lv 0 r m = Inr (TFresh m, r)"
| "DeserializeEntries lv (Suc n) r m =
     (case DeserializeValue lv r of
        Inl e \<Rightarrow> Inl e
      | Inr (k, r) \<Rightarrow>
          (case DeserializeValue lv r of
             Inl e \<Rightarrow> Inl e
           | Inr (v, r) \<Rightarrow>
               (case lua_rawset k v m of
                  Inl e \<Rightarrow> Inl e
                | Inr m' \<Rightarrow> DeserializeEntries lv n r m')))"

definition Deserialize :: "bytes \<Rightarrow> codec_error + lua_tree" where
  "Deserialize buf =
     (case ReadBytes buf 4 of
        None \<Rightarrow> Inl Truncated
      | Some (h, r) \<Rightarrow>
          if h ! 0 \<noteq> kMagic0 \<or> h ! 1 \<noteq> kMagic1 then Inl BadMagic
          else if h ! 2 \<noteq> kSerialFormatVersion then Inl OtherVersion
          else if h ! 3 \<noteq> kNumberWidth then Inl OtherNumberFormat
          else (case DeserializeValue kMaxDepth r of
                  Inl e \<Rightarrow> Inl e
                | Inr (v, r) \<Rightarrow> if r \<noteq> [] then Inl TrailingBytes else Inr v))"

section \<open>Lemmas\<close>

text \<open>The tree a value unfolds to within the levels left.\<close>

fun tree_of_key :: "lua_val \<Rightarrow> lua_tree option" where
  "tree_of_key (LNumber n) = Some (TNumber n)"
| "tree_of_key (LString s) = Some (TBytes s)"
| "tree_of_key _ = None"

fun tree_of :: "lua_heap \<Rightarrow> nat \<Rightarrow> lua_val \<Rightarrow> lua_tree option"
  and trees_of :: "lua_heap \<Rightarrow> nat \<Rightarrow> (lua_val \<times> lua_val) list \<Rightarrow> (lua_tree \<times> lua_tree) list option" where
  "tree_of h lv (LNumber n) = Some (TNumber n)"
| "tree_of h lv (LBool b) = Some (TBoolean b)"
| "tree_of h lv (LString s) = Some (TBytes s)"
| "tree_of h lv (LOther k) = None"
| "tree_of h 0 (LTable t) = None"
| "tree_of h (Suc lv) (LTable t) = map_option TFresh (trees_of h lv (h t))"
| "trees_of h lv [] = Some []"
| "trees_of h lv ((k, v) # es) =
     (case (tree_of_key k, tree_of h lv v, trees_of h lv es) of
        (Some a, Some b, Some ts) \<Rightarrow> Some ((a, b) # ts)
      | _ \<Rightarrow> None)"

text \<open>Nesting, scalars included.\<close>

fun max_pairs :: "(nat \<times> nat) list \<Rightarrow> nat" where
  "max_pairs [] = 0"
| "max_pairs ((a, b) # m) = max (max a b) (max_pairs m)"

primrec height :: "lua_tree \<Rightarrow> nat" where
  "height (TNumber n) = 1"
| "height (TBoolean b) = 1"
| "height (TBytes s) = 1"
| "height (TFresh m) = Suc (max_pairs (map (map_prod height height) m))"

abbreviation heights :: "(lua_tree \<times> lua_tree) list \<Rightarrow> nat" where
  "heights m \<equiv> max_pairs (map (map_prod height height) m)"

lemma height_pos [simp]: "0 < height t"
  by (cases t) simp_all

text \<open>What Lua guarantees of every table: no NaN key and no key twice.\<close>

fun val_key_eq :: "lua_val \<Rightarrow> lua_val \<Rightarrow> bool" where
  "val_key_eq (LNumber a) (LNumber b) = number_eq a b"
| "val_key_eq a b = (a = b)"

definition entries_ok :: "(lua_val \<times> lua_val) list \<Rightarrow> bool" where
  "entries_ok es \<longleftrightarrow> sorted_wrt (\<lambda>a b. \<not> val_key_eq (fst a) (fst b)) es
     \<and> (\<forall>(k, v) \<in> set es. \<forall>n. k = LNumber n \<longrightarrow> \<not> is_nan n)"

lemma tree_of_key_eq:
  "tree_of_key a = Some s \<Longrightarrow> tree_of_key b = Some t \<Longrightarrow> key_eq s t = val_key_eq a b"
  by (cases a; cases b) auto

lemma tree_of_key_nan: "tree_of_key a = Some s \<Longrightarrow> nan_key s \<longleftrightarrow> (\<exists>n. a = LNumber n \<and> is_nan n)"
  by (cases a) auto

lemma rawset_new: "\<forall>(j, w) \<in> set m. \<not> key_eq j k \<Longrightarrow> rawset_assoc k v m = m @ [(k, v)]"
  by (induction m) auto

lemma read_tag [simp]: "ReadBytes (t # bs) (Suc 0) = Some ([t], bs)" "ReadBytes (t # bs) 1 = Some ([t], bs)"
  by (simp_all add: ReadBytes_def)

lemma read_scalars:
  "DeserializeValue (Suc k) (kTagNumber # u32_bytes n @ rest) = Inr (TNumber n, rest)"
  "DeserializeValue (Suc k) (kTagBool # (if b then 1 else 0) # rest) = Inr (TBoolean b, rest)"
  "length s \<le> 0xFFFFFFFF \<Longrightarrow> DeserializeValue (Suc k) (string_bytes s @ rest) = Inr (TBytes s, rest)"
  by (simp_all add: wire_defs string_bytes_def unat_of_nat_u32)

declare DeserializeValue.simps [simp del]

lemma read_key:
  assumes "SerializeKey a = Inr kb"
  obtains t where "tree_of_key a = Some t" "height t = 1"
    "\<And>k rest. DeserializeValue (Suc k) (kb @ rest) = Inr (t, rest)"
  using assms by (cases a) (auto simp: read_scalars split: if_splits)

lemma u32_Suc: "c \<noteq> 0xFFFFFFFF \<Longrightarrow> unat (c + 1 :: u32) = Suc (unat c)"
proof -
  assume "c \<noteq> 0xFFFFFFFF"
  then have "unat c \<noteq> unat (0xFFFFFFFF :: u32)" by (simp only: word_unat_eq_iff not_False_eq_True)
  moreover have "unat c < 2 ^ LENGTH(32)" by (rule unsigned_less)
  ultimately have "unat c < 2 ^ 32 - 1" by simp
  then show ?thesis by (simp add: unat_word_ariths(1))
qed

definition reads_back :: "lua_tree \<Rightarrow> bytes \<Rightarrow> bool" where
  "reads_back t bs \<longleftrightarrow>
     (\<forall>k rest. DeserializeValue k (bs @ rest) = (if height t \<le> k then Inr (t, rest) else Inl Truncated))"

lemma reads_back_scalar:
  "height t = 1 \<Longrightarrow> (\<And>k rest. DeserializeValue (Suc k) (bs @ rest) = Inr (t, rest)) \<Longrightarrow> reads_back t bs"
proof -
  assume h: "height t = 1" and r: "\<And>k rest. DeserializeValue (Suc k) (bs @ rest) = Inr (t, rest)"
  have "DeserializeValue k (bs @ rest) = (if height t \<le> k then Inr (t, rest) else Inl Truncated)" for k rest
    using r h by (cases k) (simp_all add: DeserializeValue.simps(1))
  then show ?thesis by (simp add: reads_back_def)
qed

definition entries_read_back :: "(lua_tree \<times> lua_tree) list \<Rightarrow> bytes \<Rightarrow> bool" where
  "entries_read_back ts bs \<longleftrightarrow>
     (\<forall>k rest m. (\<forall>(j, w) \<in> set m. \<forall>(a, b) \<in> set ts. \<not> key_eq j a) \<longrightarrow>
        DeserializeEntries k (length ts) (bs @ rest) m
          = (if heights ts \<le> k then Inr (TFresh (m @ ts), rest) else Inl Truncated))"

lemma trees_of_Cons:
  "trees_of h lv ((k, v) # es) = Some ts \<longleftrightarrow>
     (\<exists>a b us. tree_of_key k = Some a \<and> tree_of h lv v = Some b \<and> trees_of h lv es = Some us \<and> ts = (a, b) # us)"
  by (auto split: option.splits)

lemma trees_keys: "trees_of h lv es = Some ts \<Longrightarrow> list_all2 (\<lambda>e t. tree_of_key (fst e) = Some (fst t)) es ts"
proof (induction es arbitrary: ts)
  case (Cons e es)
  obtain k v where "e = (k, v)" by (cases e)
  then show ?case using Cons.prems Cons.IH by (auto simp: trees_of_Cons simp del: trees_of.simps(2))
qed simp

lemma trees_length: "trees_of h lv es = Some ts \<Longrightarrow> length ts = length es"
  by (metis list_all2_lengthD trees_keys)

text \<open>A new key differs from the keys of the entries after it.\<close>

lemma trees_key_new:
  assumes "trees_of h lv es = Some ts" "tree_of_key k = Some a" "\<forall>e \<in> set es. \<not> val_key_eq k (fst e)"
  shows "\<forall>(c, d) \<in> set ts. \<not> key_eq a c"
proof -
  note all = trees_keys [OF assms(1)]
  have "\<not> key_eq a c" if cd: "(c, d) \<in> set ts" for c d
  proof -
    obtain i where i: "i < length ts" "ts ! i = (c, d)" using cd by (auto simp: in_set_conv_nth)
    then have "tree_of_key (fst (es ! i)) = Some c" "i < length es"
      using list_all2_nthD2 [OF all i(1)] list_all2_lengthD [OF all] by simp_all
    then show ?thesis using assms(3) tree_of_key_eq [OF assms(2)] by simp
  qed
  then show ?thesis by blast
qed

lemma reads_back_table:
  assumes e: "entries_read_back ts bs" and n: "unat n = length ts"
  shows "reads_back (TFresh ts) (kTagTable # u32_bytes n @ bs)"
  unfolding reads_back_def
proof (intro allI)
  fix k rest
  show "DeserializeValue k ((kTagTable # u32_bytes n @ bs) @ rest) =
      (if height (TFresh ts) \<le> k then Inr (TFresh ts, rest) else Inl Truncated)"
  proof (cases k)
    case (Suc j)
    have "DeserializeEntries j (length ts) (bs @ rest) [] =
        (if heights ts \<le> j then Inr (TFresh ts, rest) else Inl Truncated)"
      using e unfolding entries_read_back_def by simp
    then show ?thesis by (simp add: Suc DeserializeValue.simps(2) n wire_defs)
  qed (simp add: DeserializeValue.simps(1))
qed

lemma entries_read_back_Cons:
  assumes key: "\<And>k rest. DeserializeValue (Suc k) (kb @ rest) = Inr (a, rest)" "height a = 1" "\<not> nan_key a"
    and val: "reads_back b vb" and rest: "entries_read_back us bs"
    and new: "\<forall>(c, d) \<in> set us. \<not> key_eq a c"
  shows "entries_read_back ((a, b) # us) (kb @ vb @ bs)"
  unfolding entries_read_back_def
proof (intro allI impI)
  fix k r and m :: "(lua_tree \<times> lua_tree) list"
  assume m: "\<forall>(j, w) \<in> set m. \<forall>(c, d) \<in> set ((a, b) # us). \<not> key_eq j c"
  show "DeserializeEntries k (length ((a, b) # us)) ((kb @ vb @ bs) @ r) m =
      (if heights ((a, b) # us) \<le> k then Inr (TFresh (m @ (a, b) # us), r) else Inl Truncated)"
  proof (cases k)
    case 0
    then show ?thesis by (simp add: DeserializeValue.simps(1) key(2) max_def)
  next
    case (Suc j)
    have set: "lua_rawset a b m = Inr (m @ [(a, b)])"
      using m key(3) by (auto simp: lua_rawset_def intro!: rawset_new)
    have v: "DeserializeValue k (vb @ bs @ r) = (if height b \<le> k then Inr (b, bs @ r) else Inl Truncated)"
      using val unfolding reads_back_def by simp
    have "\<forall>(i, w) \<in> set (m @ [(a, b)]). \<forall>(c, d) \<in> set us. \<not> key_eq i c" using m new by auto
    then have es: "DeserializeEntries k (length us) (bs @ r) (m @ [(a, b)]) =
        (if heights us \<le> k then Inr (TFresh ((m @ [(a, b)]) @ us), r) else Inl Truncated)"
      using rest unfolding entries_read_back_def by blast
    show ?thesis
      using key(1) [of j "vb @ bs @ r"] v es set by (simp add: Suc key(2))
  qed
qed

text \<open>
  The heart of the round trip, for values and for entry loops together: what was written reads
  back as the tree of the value wherever enough levels are left, and is refused elsewhere.
\<close>

lemma serialize_reads_back:
  shows "SerializeValue h lv anc v = Inr bs \<Longrightarrow> \<forall>t. entries_ok (h t) \<Longrightarrow>
      \<exists>t. tree_of h lv v = Some t \<and> reads_back t bs"
    and "SerializeEntries h lv anc es c = Inr (bs', n) \<Longrightarrow> \<forall>t. entries_ok (h t) \<Longrightarrow> entries_ok es \<Longrightarrow>
      \<exists>ts. trees_of h lv es = Some ts \<and> unat n = unat c + length es \<and> entries_read_back ts bs'"
proof (induction h lv anc v and h lv anc es c arbitrary: bs and bs' n
    rule: SerializeValue_SerializeEntries.induct)
  case (1 h lv anc n)
  then show ?case by (auto intro!: reads_back_scalar simp: read_scalars)
next
  case (2 h lv anc b)
  then show ?case by (auto intro!: reads_back_scalar simp: read_scalars(2) [where b = b, simplified])
next
  case (3 h lv anc s)
  then show ?case by (auto intro!: reads_back_scalar simp: read_scalars split: if_splits)
next
  case (6 h lv anc t)
  from "6.prems"(1) obtain cb n where e: "t \<notin> set anc" "SerializeEntries h lv (anc @ [t]) (h t) 0 = Inr (cb, n)"
    "bs = kTagTable # u32_bytes n @ cb"
    by (auto split: if_splits sum.splits)
  have "\<exists>ts. trees_of h lv (h t) = Some ts \<and> unat n = unat (0 :: 32 word) + length (h t) \<and> entries_read_back ts cb"
    by (rule "6.IH") (use e(1,2) "6.prems"(2) in simp_all)
  then obtain ts where ts: "trees_of h lv (h t) = Some ts" "unat n = length (h t)" "entries_read_back ts cb"
    by auto
  then show ?case using reads_back_table [OF ts(3)] trees_length [OF ts(1)] e(3) by simp
next
  case (7 h lv anc c)
  then show ?case by (simp add: entries_read_back_def)
next
  case (8 h lv anc k v es c)
  obtain kb vb cb where b: "SerializeKey k = Inr kb" "SerializeValue h lv anc v = Inr vb" "c \<noteq> 0xFFFFFFFF"
    "SerializeEntries h lv anc es (c + 1) = Inr (cb, n)" "bs' = kb @ vb @ cb"
    using "8.prems"(1) by (auto split: sum.splits if_splits)
  have es: "entries_ok es" "\<forall>e \<in> set es. \<not> val_key_eq k (fst e)" "\<And>m. k = LNumber m \<Longrightarrow> \<not> is_nan m"
    using "8.prems"(3) by (auto simp: entries_ok_def)
  obtain a where a: "tree_of_key k = Some a" "height a = 1" "\<And>k rest. DeserializeValue (Suc k) (kb @ rest) = Inr (a, rest)"
    by (rule read_key [OF b(1)]) blast
  obtain t where t: "tree_of h lv v = Some t" "reads_back t vb"
    using "8.IH"(1) [OF b(1,2) "8.prems"(2)] by blast
  obtain us where us: "trees_of h lv es = Some us" "unat n = unat (c + 1) + length es" "entries_read_back us cb"
    using "8.IH"(2) [OF b(1,2,3,4) "8.prems"(2) es(1)] by blast
  have "unat (c + 1) = Suc (unat c)" using b(3) by (rule u32_Suc)
  moreover have "\<not> nan_key a" using tree_of_key_nan [OF a(1)] es(3) by blast
  ultimately show ?case
    using a t us entries_read_back_Cons [OF a(3,2) _ t(2) us(3) trees_key_new [OF us(1) a(1) es(2)]]
    by (simp add: trees_of_Cons b(5) del: trees_of.simps(2))
qed simp_all

text \<open>A chain of \<open>n\<close> tables, each the only value of the one before; the last holds a boolean.\<close>

definition chain :: "nat \<Rightarrow> lua_heap" where
  "chain n t = [(LNumber 0, if Suc t < n then LTable (Suc t) else LBool True)]"

lemma chain_ok: "entries_ok (chain n t)"
  by (simp add: entries_ok_def chain_def is_nan_def)

lemma chain_written:
  assumes "t < n" "\<forall>a \<in> set anc. a < t"
  shows "case SerializeValue (chain n) lv anc (LTable t) of
      Inl e \<Rightarrow> lv < n - t \<and> e = NestingTooDeep
    | Inr bs \<Rightarrow> n - t \<le> lv"
  using assms
proof (induction lv arbitrary: t anc)
  case (Suc lv)
  have fresh: "t \<notin> set anc" using Suc.prems(2) by auto
  show ?case
  proof (cases "Suc t < n")
    case True
    have "case SerializeValue (chain n) lv (anc @ [t]) (LTable (Suc t)) of
        Inl e \<Rightarrow> lv < n - Suc t \<and> e = NestingTooDeep | Inr bs \<Rightarrow> n - Suc t \<le> lv"
      using Suc.IH [OF True, of "anc @ [t]"] Suc.prems(2) by (simp add: less_Suc_eq)
    moreover have "chain n t = [(LNumber 0, LTable (Suc t))]" using True by (simp add: chain_def)
    ultimately show ?thesis using fresh True by (auto split: sum.splits)
  next
    case False
    then have "chain n t = [(LNumber 0, LBool True)]" "n = Suc t" using Suc.prems(1) by (auto simp: chain_def)
    then show ?thesis using fresh by simp
  qed
qed simp

lemma chain_height:
  "t < n \<Longrightarrow> tree_of (chain n) lv (LTable t) = Some d \<Longrightarrow> height d = Suc (n - t)"
proof (induction lv arbitrary: t d)
  case (Suc lv)
  show ?case
  proof (cases "Suc t < n")
    case True
    moreover have "chain n t = [(LNumber 0, LTable (Suc t))]" using True by (simp add: chain_def)
    moreover obtain b where "tree_of (chain n) lv (LTable (Suc t)) = Some b" "d = TFresh [(TNumber 0, b)]"
      using Suc.prems(2) calculation(2) by (auto split: option.splits)
    ultimately show ?thesis using Suc.IH [OF True] by simp
  next
    case False
    then have "chain n t = [(LNumber 0, LBool True)]" "n = Suc t" using Suc.prems(1) by (auto simp: chain_def)
    then show ?thesis using Suc.prems(2) by auto
  qed
qed simp

section \<open>Properties\<close>

lemma header_read [simp]: "ReadBytes (kHeader @ bs) 4 = Some (kHeader, bs)"
  by (simp add: ReadBytes_def kHeader_def)

lemma Deserialize_header:
  "Deserialize (kHeader @ bs) =
     (case DeserializeValue kMaxDepth bs of
        Inl e \<Rightarrow> Inl e
      | Inr (v, r) \<Rightarrow> if r \<noteq> [] then Inl TrailingBytes else Inr v)"
  unfolding Deserialize_def by (simp add: kHeader_def [symmetric]) (simp add: kHeader_def)

lemma lua_reads_back:
  assumes "\<And>t. entries_ok (h t)" and "Serialize h v = Inr bs"
  shows "\<exists>t. tree_of h kMaxDepth v = Some t
    \<and> Deserialize bs = (if height t \<le> kMaxDepth then Inr t else Inl Truncated)"
proof -
  obtain body where b: "SerializeValue h kMaxDepth [] v = Inr body" "bs = kHeader @ body"
    using assms(2) by (auto simp: Serialize_def split: sum.splits)
  obtain t where t: "tree_of h kMaxDepth v = Some t" "reads_back t body"
    using serialize_reads_back(1) [OF b(1)] assms(1) by blast
  have "DeserializeValue kMaxDepth (body @ []) = (if height t \<le> kMaxDepth then Inr (t, []) else Inl Truncated)"
    using t(2) unfolding reads_back_def by blast
  then show ?thesis using t(1) by (simp add: b(2) Deserialize_header)
qed

text \<open>Property C24.  Whatever value Serialize accepts, Deserialize of the bytes gives back exactly the
  tree the value unfolds to (same keys, same values, same order of insertion, a table reached by
  two paths being copied), provided the value, its scalars counted, nests at most kMaxDepth deep;
  and where a scalar sits one level below 256 nested tables the bytes Serialize produced are
  refused by Deserialize.\<close>

theorem lua_value_roundtrip:
  assumes "\<And>t. entries_ok (h t)" and "Serialize h v = Inr bs"
  shows "\<exists>t. tree_of h kMaxDepth v = Some t
    \<and> Deserialize bs = (if height t \<le> kMaxDepth then Inr t else Inl Truncated)"
  by (rule lua_reads_back [OF assms])

theorem lua_value_roundtrip_witness:
  "\<exists>t. tree_of (chain 1) kMaxDepth (LTable 0) = Some t
    \<and> Deserialize [0x4B, 0x53, 1, 4, 4, 1, 0, 0, 0, 1, 0, 0, 0, 0, 3, 1]
        = (if height t \<le> kMaxDepth then Inr t else Inl Truncated)"
proof (rule lua_value_roundtrip [OF chain_ok])
  have "u32_bytes 1 = [1, 0, 0, 0] \<and> u32_bytes 0 = [0, 0, 0, 0]" by code_simp
  then have "SerializeValue (chain 1) (Suc lv) [] (LTable 0) =
      Inr [4, 1, 0, 0, 0, 1, 0, 0, 0, 0, 3, 1]" for lv
    by (simp add: chain_def wire_defs)
  from this [of 255] show "Serialize (chain 1) (LTable 0) = Inr [0x4B, 0x53, 1, 4, 4, 1, 0, 0, 0, 1, 0, 0, 0, 0, 3, 1]"
    by (simp add: Serialize_def kMaxDepth_def kHeader_def kMagic0_def kMagic1_def
      kSerialFormatVersion_def kNumberWidth_def)
qed

text \<open>Property C25.  The two depth limits differ by one.  A chain of nested tables ending in a scalar is
  written exactly when it has at most 256 tables (a longer one is refused as too deeply nested),
  but is read back exactly when it has at most 255: the chain of 256 is saved without an error and
  cannot be loaded again.\<close>

theorem chain_depth_limits:
  assumes "0 < n"
  shows "case Serialize (chain n) (LTable 0) of
      Inl e \<Rightarrow> 256 < n \<and> e = NestingTooDeep
    | Inr bs \<Rightarrow> n \<le> 256 \<and> ((\<exists>t. Deserialize bs = Inr t) \<longleftrightarrow> n \<le> 255)"
proof (cases "Serialize (chain n) (LTable 0)")
  case (Inl e)
  then show ?thesis using chain_written [OF assms, of "[]" kMaxDepth]
    by (auto simp: Serialize_def kMaxDepth_def split: sum.splits)
next
  case (Inr bs)
  obtain t where "tree_of (chain n) kMaxDepth (LTable 0) = Some t"
    "Deserialize bs = (if height t \<le> kMaxDepth then Inr t else Inl Truncated)"
    using lua_reads_back [OF chain_ok Inr] by blast
  then have "(\<exists>t. Deserialize bs = Inr t) \<longleftrightarrow> n \<le> 255"
    using chain_height [OF assms] by (auto simp: kMaxDepth_def)
  moreover have "n \<le> 256"
    using chain_written [OF assms, of "[]" kMaxDepth] Inr
    by (auto simp: Serialize_def kMaxDepth_def split: sum.splits)
  ultimately show ?thesis by (simp add: Inr)
qed

theorem chain_depth_limits_witness:
  "case Serialize (chain 256) (LTable 0) of
      Inl e \<Rightarrow> (256 :: nat) < 256 \<and> e = NestingTooDeep
    | Inr bs \<Rightarrow> (256 :: nat) \<le> 256 \<and> ((\<exists>t. Deserialize bs = Inr t) \<longleftrightarrow> (256 :: nat) \<le> 255)"
  by (rule chain_depth_limits [where n = 256]) simp

end
