(* ===== verification/Fs_Path.thy ===== *)
theory Fs_Path
  imports Pak_Mods
begin

text \<open>
  The lexical part of std::filesystem::path on Windows that the asset components use: parsing a
  string, operator/, lexically_normal, lexically_relative, generic_string.  A path is its
  decomposition: the root name (a drive or a server), whether a root directory follows, and the
  file names; a trailing separator is an empty last name.  How often and with which slash the
  names were separated is not kept (Windows reads both alike); \<open>path_string\<close> writes backslashes.
\<close>

section \<open>Decomposition\<close>

definition path_sep :: "char \<Rightarrow> bool" where
  "path_sep c \<longleftrightarrow> c = CHR 0x5C \<or> c = CHR ''/''"

record fs_path =
  fp_root :: string
  fp_rooted :: bool
  fp_names :: "string list"

text \<open>The names between separators; runs of separators count once, a final one adds an empty name.\<close>

fun split_names :: "string \<Rightarrow> string \<Rightarrow> string list" where
  "split_names cur [] = (if cur = [] then [] else [rev cur])"
| "split_names cur (c # cs) =
     (if path_sep c
      then (if cur = [] then [] else [rev cur])
        @ (if list_all path_sep cs then (if cur = [] then [] else [[]]) else split_names [] cs)
      else split_names (c # cur) cs)"

definition is_drive :: "string \<Rightarrow> bool" where
  "is_drive s \<longleftrightarrow> length s \<ge> 2 \<and> s ! 1 = CHR '':''
     \<and> (CHR ''A'' \<le> s ! 0 \<and> s ! 0 \<le> CHR ''Z'' \<or> CHR ''a'' \<le> s ! 0 \<and> s ! 0 \<le> CHR ''z'')"

definition is_unc :: "string \<Rightarrow> bool" where
  "is_unc s \<longleftrightarrow> length s \<ge> 3 \<and> path_sep (s ! 0) \<and> path_sep (s ! 1) \<and> \<not> path_sep (s ! 2)"

definition root_length :: "string \<Rightarrow> nat" where
  "root_length s =
     (if is_drive s then 2
      else if is_unc s then 2 + length (takeWhile (\<lambda>c. \<not> path_sep c) (drop 2 s))
      else 0)"

definition parse_path :: "string \<Rightarrow> fs_path" where
  "parse_path s =
     (let n = root_length s; rest = drop n s
      in \<lparr>fp_root = take n s, fp_rooted = (rest \<noteq> [] \<and> path_sep (hd rest)), fp_names = split_names [] rest\<rparr>)"

fun join_with :: "char \<Rightarrow> string list \<Rightarrow> string" where
  "join_with c [] = []"
| "join_with c [n] = n"
| "join_with c (n # m # ns) = n @ c # join_with c (m # ns)"

definition path_string :: "fs_path \<Rightarrow> string" where
  "path_string p =
     fp_root p @ (if fp_rooted p then [CHR 0x5C] else [])
       @ join_with (CHR 0x5C) (fp_names p)"

text \<open>The names joined by slashes, behind the root.\<close>

definition generic_string :: "fs_path \<Rightarrow> string" where
  "generic_string p =
     fp_root p @ (if fp_rooted p then ''/'' else []) @ join_with (CHR ''/'') (fp_names p)"

section \<open>Operations\<close>

definition has_root :: "fs_path \<Rightarrow> bool" where
  "has_root p \<longleftrightarrow> fp_root p \<noteq> [] \<or> fp_rooted p"

definition append_names :: "string list \<Rightarrow> string list \<Rightarrow> string list" where
  "append_names a b = (if a \<noteq> [] \<and> last a = [] then butlast a @ b else a @ (if b = [] \<and> a \<noteq> [] then [[]] else b))"

text \<open>operator/: an absolute right side, or one on another drive, replaces the left side.\<close>

definition path_append :: "fs_path \<Rightarrow> fs_path \<Rightarrow> fs_path" where
  "path_append p q =
     (if fp_root q \<noteq> [] \<and> (fp_rooted q \<or> fp_root q \<noteq> fp_root p) then q
      else if fp_rooted q then p\<lparr>fp_rooted := True, fp_names := fp_names q\<rparr>
      else p\<lparr>fp_names := append_names (fp_names p) (fp_names q)\<rparr>)"

definition path_child :: "fs_path \<Rightarrow> string \<Rightarrow> fs_path" where
  "path_child p n = p\<lparr>fp_names := append_names (fp_names p) [n]\<rparr>"

text \<open>The loop over the names keeps the normal form so far, last name first.\<close>

fun normal_names :: "bool \<Rightarrow> string list \<Rightarrow> string list \<Rightarrow> string list" where
  "normal_names rooted acc [] = rev acc"
| "normal_names rooted acc (n # ns) =
     (if n = ''.'' \<or> n = [] then normal_names rooted acc ns
      else if n = ''..''
      then (case acc of
              [] \<Rightarrow> normal_names rooted (if rooted then [] else [''..'']) ns
            | a # as \<Rightarrow> normal_names rooted (if a = ''..'' then ''..'' # acc else as) ns)
      else normal_names rooted (n # acc) ns)"

definition lexically_normal :: "fs_path \<Rightarrow> fs_path" where
  "lexically_normal p =
     (let ns = normal_names (fp_rooted p) [] (fp_names p)
      in p\<lparr>fp_names :=
           (if ns = [] then (if fp_names p = [] \<or> has_root p then [] else [''.''])
            else if last (fp_names p) \<in> {''.'', [], ''..''} \<and> last ns \<noteq> ''..'' then ns @ [[]]
            else ns)\<rparr>)"

fun strip_common :: "string list \<Rightarrow> string list \<Rightarrow> string list \<times> string list" where
  "strip_common (a # as) (b # bs) = (if a = b then strip_common as bs else (a # as, b # bs))"
| "strip_common as bs = (as, bs)"

definition empty_path :: fs_path where
  "empty_path = \<lparr>fp_root = [], fp_rooted = False, fp_names = []\<rparr>"

definition lexically_relative :: "fs_path \<Rightarrow> fs_path \<Rightarrow> fs_path" where
  "lexically_relative p base =
     (if fp_root p \<noteq> fp_root base \<or> fp_rooted p \<noteq> fp_rooted base then empty_path
      else (let (a, b) = strip_common (fp_names p) (fp_names base);
                ups = int (length (filter (\<lambda>n. n \<notin> {''.'', ''..'', []}) b))
                  - int (length (filter (\<lambda>n. n = ''..'') b))
            in if ups < 0 then empty_path
               else if ups = 0 \<and> (a = [] \<or> hd a = []) then empty_path\<lparr>fp_names := [''.'']\<rparr>
               else empty_path\<lparr>fp_names := replicate (nat ups) ''..'' @ a\<rparr>))"

section \<open>Lemmas\<close>

lemma append_names_below:
  "a \<noteq> [] \<Longrightarrow> last a \<noteq> [] \<Longrightarrow> b \<noteq> [] \<Longrightarrow> append_names a b = a @ b"
  by (simp add: append_names_def)

lemma strip_common_append [simp]: "strip_common (a @ b) a = (b, [])"
  by (induction a) (cases b; simp)+

end
