(* ===== verification/Asset_Sidecar.thy ===== *)
theory Asset_Sidecar
  imports Fs_Path Plugin_Loader
begin

text \<open>
  src/asset_sidecar.cpp: the replaces.toml files below a plugin's assets folder, each a list of
  [[asset]] rows that say which file replaces which asset.

  The disk is a function from paths to the tree found there (\<open>node\<close> of Pak_Mods); the toml++
  parser is a parameter that refuses a text or gives its table.  A row that is refused becomes the
  reason; the log lines that carry it are left out.
\<close>

section \<open>Data\<close>

datatype target_kind = VanillaPath | PublishedName | PluginPathPair

record asset_decl =
  d_owningPlugin :: string
  d_owningAuthor :: string
  d_diskPath :: fs_path
  d_sidecarPath :: fs_path
  d_kind :: target_kind
  d_target :: string
  d_replacesPlugin :: string
  d_replacesPath :: string
  d_publishName :: string
  d_routesToOverlay :: bool
  d_overlayKey :: string

datatype row_reject =
    UnknownAssetKey string
  | WrongAssetType string
  | BothForms
  | NoTarget
  | IncompletePair
  | EscapesDir
  | NamedFileMissing fs_path
  | NoSibling
  | ManySiblings nat
  | NoSuchVanilla string

record asset_env =
  ae_disk :: "fs_path \<Rightarrow> node option"
  ae_toml :: "string \<Rightarrow> toml_table option"

definition is_regular_file :: "asset_env \<Rightarrow> fs_path \<Rightarrow> bool" where
  "is_regular_file env p = (case ae_disk env p of Some (NFile f) \<Rightarrow> f \<noteq> Absent | _ \<Rightarrow> False)"

section \<open>The key fold\<close>

text \<open>asset_overlay.cpp NormalizeVPath, the fold every asset table shares.\<close>

definition fold_step :: "string \<Rightarrow> char \<Rightarrow> string" where
  "fold_step out c =
     (if c = CHR 0x5C \<or> c = CHR ''/''
      then (if out \<noteq> [] \<and> last out = CHR ''/'' then out else out @ ''/'')
      else out @ [lower_char c])"

definition NormalizeVPath :: "string \<Rightarrow> string" where
  "NormalizeVPath vpath = foldl fold_step [] vpath"

section \<open>Rows\<close>

definition OptString :: "toml_table \<Rightarrow> string \<Rightarrow> string" where
  "OptString t k = (case map_of t k of Some (TString s) \<Rightarrow> s | _ \<Rightarrow> [])"

definition kAssetKeys :: "string list" where
  "kAssetKeys = [''replaces'', ''replaces_plugin'', ''replaces_path'', ''file'', ''name'']"

fun is_string_node :: "toml \<Rightarrow> bool" where
  "is_string_node (TString s) = True"
| "is_string_node _ = False"

fun ValidateAssetRowKeys :: "toml_table \<Rightarrow> row_reject option" where
  "ValidateAssetRowKeys [] = None"
| "ValidateAssetRowKeys ((k, v) # t) =
     (if k \<notin> set kAssetKeys then Some (UnknownAssetKey k)
      else if \<not> is_string_node v then Some (WrongAssetType k)
      else ValidateAssetRowKeys t)"

definition LooksLikePublishedName :: "string \<Rightarrow> bool" where
  "LooksLikePublishedName s \<longleftrightarrow>
     CHR ''/'' \<notin> set s \<and> CHR 0x5C \<notin> set s \<and> length (filter (\<lambda>c. c = CHR ''.'') s) \<ge> 2"

definition kSidecarName :: string where
  "kSidecarName = ''replaces.toml''"

fun sibling_file :: "entry \<Rightarrow> string option" where
  "sibling_file (Entry n (NFile f)) = (if f = Absent \<or> n = kSidecarName then None else Some n)"
| "sibling_file (Entry n (NDir es)) = None"

definition ResolveDeclaringFile :: "asset_env \<Rightarrow> fs_path \<Rightarrow> entry list \<Rightarrow> toml_table
    \<Rightarrow> row_reject + fs_path" where
  "ResolveDeclaringFile env sidecarDir siblings row =
     (let fileRel = OptString row ''file''
      in if fileRel \<noteq> []
         then (let relP = lexically_normal (parse_path fileRel); disk = path_append sidecarDir relP
               in if ''..'' \<in> set (fp_names relP) then Inl EscapesDir
                  else if \<not> is_regular_file env disk then Inl (NamedFileMissing disk)
                  else Inr disk)
         else (case List.map_filter sibling_file siblings of
                 [] \<Rightarrow> Inl NoSibling
               | [n] \<Rightarrow> Inr (path_child sidecarDir n)
               | ns \<Rightarrow> Inl (ManySiblings (length ns))))"

definition ResolveOneRow :: "asset_env \<Rightarrow> (string \<Rightarrow> bool) option \<Rightarrow> plugin_manifest \<Rightarrow> fs_path
    \<Rightarrow> entry list \<Rightarrow> toml_table \<Rightarrow> row_reject + asset_decl" where
  "ResolveOneRow env vanillaExists m sidecarDir siblings row =
     (case ValidateAssetRowKeys row of
        Some e \<Rightarrow> Inl e
      | None \<Rightarrow>
          (let replaces = OptString row ''replaces'';
               replacesPlugin = OptString row ''replaces_plugin'';
               replacesPath = OptString row ''replaces_path'';
               publishName = OptString row ''name'';
               hasReplaces = (replaces \<noteq> []);
               hasPair = (replacesPlugin \<noteq> [] \<or> replacesPath \<noteq> [])
           in if hasReplaces \<and> hasPair then Inl BothForms
              else if \<not> hasReplaces \<and> \<not> hasPair then Inl NoTarget
              else if hasPair \<and> (replacesPlugin = [] \<or> replacesPath = []) then Inl IncompletePair
              else (case ResolveDeclaringFile env sidecarDir siblings row of
                      Inl e \<Rightarrow> Inl e
                    | Inr diskPath \<Rightarrow>
                        (let d = \<lparr>d_owningPlugin = pm_name m, d_owningAuthor = pm_author m,
                                  d_diskPath = diskPath, d_sidecarPath = path_child sidecarDir kSidecarName,
                                  d_kind = PluginPathPair, d_target = [], d_replacesPlugin = [],
                                  d_replacesPath = [], d_publishName = publishName,
                                  d_routesToOverlay = False, d_overlayKey = []\<rparr>
                         in if hasPair
                            then Inr (d\<lparr>d_replacesPlugin := replacesPlugin, d_replacesPath := replacesPath\<rparr>)
                            else if LooksLikePublishedName replaces
                            then Inr (d\<lparr>d_kind := PublishedName, d_target := replaces\<rparr>)
                            else (let key = NormalizeVPath replaces
                                  in if (case vanillaExists of None \<Rightarrow> False | Some f \<Rightarrow> \<not> f key)
                                     then Inl (NoSuchVanilla key)
                                     else Inr (d\<lparr>d_kind := VanillaPath, d_target := replaces,
                                                 d_routesToOverlay := True, d_overlayKey := key\<rparr>))))))"

section \<open>Files\<close>

fun row_result :: "(toml_table \<Rightarrow> row_reject + asset_decl) \<Rightarrow> toml \<Rightarrow> asset_decl list" where
  "row_result f (TTable t) = (case f t of Inl e \<Rightarrow> [] | Inr d \<Rightarrow> [d])"
| "row_result f _ = []"

definition LoadOneSidecar :: "asset_env \<Rightarrow> (string \<Rightarrow> bool) option \<Rightarrow> plugin_manifest \<Rightarrow> fs_path
    \<Rightarrow> entry list \<Rightarrow> disk_file \<Rightarrow> asset_decl list" where
  "LoadOneSidecar env vanillaExists m sidecarDir siblings f =
     (case open_text (NFile f) of
        None \<Rightarrow> []
      | Some txt \<Rightarrow>
          (case ae_toml env txt of
             None \<Rightarrow> []
           | Some doc \<Rightarrow>
               (case map_of doc ''asset'' of
                  Some (TArray rows) \<Rightarrow>
                    concat (map (row_result (ResolveOneRow env vanillaExists m sidecarDir siblings)) rows)
                | _ \<Rightarrow> [])))"

text \<open>The walk: every file named replaces.toml at any depth, with its folder and its siblings.\<close>

fun sidecars_below :: "fs_path \<Rightarrow> node \<Rightarrow> (fs_path \<times> entry list \<times> disk_file) list"
  and sidecars_in :: "fs_path \<Rightarrow> entry list \<Rightarrow> entry list \<Rightarrow> (fs_path \<times> entry list \<times> disk_file) list"
  and sidecars_at :: "fs_path \<Rightarrow> entry list \<Rightarrow> entry \<Rightarrow> (fs_path \<times> entry list \<times> disk_file) list" where
  "sidecars_below d (NFile f) = []"
| "sidecars_below d (NDir es) = sidecars_in d es es"
| "sidecars_in d siblings [] = []"
| "sidecars_in d siblings (e # es) = sidecars_at d siblings e @ sidecars_in d siblings es"
| "sidecars_at d siblings (Entry n x) =
     (case x of
        NFile f \<Rightarrow> if f \<noteq> Absent \<and> n = kSidecarName then [(d, siblings, f)] else []
      | NDir es \<Rightarrow> sidecars_below (path_child d n) x)"

definition assets_root :: "plugin_manifest \<Rightarrow> fs_path" where
  "assets_root m = path_append (parse_path (pm_folderPath m)) (parse_path (pm_assetsEntrypointRel m))"

definition LoadDeclarationsFor :: "asset_env \<Rightarrow> (string \<Rightarrow> bool) option \<Rightarrow> plugin_manifest
    \<Rightarrow> asset_decl list" where
  "LoadDeclarationsFor env vanillaExists m =
     (if pm_assetsEntrypointRel m = [] then []
      else (case ae_disk env (assets_root m) of
              Some (NDir es) \<Rightarrow>
                concat (map (\<lambda>(d, siblings, f). LoadOneSidecar env vanillaExists m d siblings f)
                         (sidecars_below (assets_root m) (NDir es)))
            | _ \<Rightarrow> []))"

section \<open>The key fold: lemmas\<close>

lemma lower_char_of: "lower_char c = (if 65 \<le> (of_char c :: nat) \<and> (of_char c :: nat) \<le> 90 then char_of ((of_char c :: nat) + 32) else c)"
  by (simp add: lower_char_def less_eq_char_def)

lemma lower_char_cases: "lower_char c = c \<or> (97 \<le> (of_char (lower_char c) :: nat) \<and> (of_char (lower_char c) :: nat) \<le> 122)"
proof (cases "65 \<le> (of_char c :: nat) \<and> (of_char c :: nat) \<le> 90")
  case True
  then have "lower_char c = char_of ((of_char c :: nat) + 32)" by (simp add: lower_char_of)
  moreover have "(of_char (char_of ((of_char c :: nat) + 32)) :: nat) = of_char c + 32"
    using True by simp
  ultimately show ?thesis using True by simp
qed (auto simp: lower_char_of)

lemma lower_char_idem [simp]: "lower_char (lower_char c) = lower_char c"
proof (cases "lower_char c = c")
  case False
  then have "90 < (of_char (lower_char c) :: nat)" using lower_char_cases [of c] by simp
  then show ?thesis by (simp add: lower_char_of [of "lower_char c"])
qed simp

lemma lower_char_sep: "lower_char c = CHR ''/'' \<longleftrightarrow> c = CHR ''/''" "lower_char c = CHR 0x5C \<longleftrightarrow> c = CHR 0x5C"
  using lower_char_cases [of c] by (auto simp: lower_char_of)

text \<open>Folded keys have no capitals, no backslash and no two slashes in a row.\<close>

definition folded :: "string \<Rightarrow> bool" where
  "folded s \<longleftrightarrow> (\<forall>c \<in> set s. lower_char c = c \<and> c \<noteq> CHR 0x5C)
     \<and> successively (\<lambda>a b. \<not> (a = CHR ''/'' \<and> b = CHR ''/'')) s"

lemma fold_step_folded: "folded out \<Longrightarrow> folded (fold_step out c)"
  by (auto simp: folded_def fold_step_def successively_append_iff lower_char_sep)

lemma foldl_folded: "folded out \<Longrightarrow> folded (foldl fold_step out s)"
  by (induction s arbitrary: out) (auto intro: fold_step_folded)

lemma NormalizeVPath_folded [simp]: "folded (NormalizeVPath s)"
  unfolding NormalizeVPath_def by (rule foldl_folded) (simp add: folded_def)

lemma foldl_folded_id: "folded (out @ s) \<Longrightarrow> foldl fold_step out s = out @ s"
proof (induction s arbitrary: out)
  case (Cons c s)
  have "fold_step out c = out @ [c]"
    using Cons.prems by (auto simp: folded_def fold_step_def successively_append_iff)
  then show ?case using Cons.IH [of "out @ [c]"] Cons.prems by simp
qed simp

lemma NormalizeVPath_id: "folded s \<Longrightarrow> NormalizeVPath s = s"
  unfolding NormalizeVPath_def using foldl_folded_id [of "[]" s] by simp

lemma NormalizeVPath_idem [simp]: "NormalizeVPath (NormalizeVPath s) = NormalizeVPath s"
  by (simp add: NormalizeVPath_id)

text \<open>Characters the engine may exchange: the case of a letter, the kind of a slash.\<close>

definition same_vchar :: "char \<Rightarrow> char \<Rightarrow> bool" where
  "same_vchar a b \<longleftrightarrow> lower_char a = lower_char b \<or> path_sep a \<and> path_sep b"

lemma fold_step_same: "same_vchar a b \<Longrightarrow> fold_step out a = fold_step out b"
  using lower_char_sep [of a] lower_char_sep [of b]
  by (auto simp: same_vchar_def fold_step_def path_sep_def)

lemma NormalizeVPath_same: "list_all2 same_vchar s t \<Longrightarrow> NormalizeVPath s = NormalizeVPath t"
proof -
  have "list_all2 same_vchar s t \<Longrightarrow> foldl fold_step out s = foldl fold_step out t" for out
    by (induction s t arbitrary: out rule: list_all2_induct) (simp_all add: fold_step_same)
  then show "list_all2 same_vchar s t \<Longrightarrow> NormalizeVPath s = NormalizeVPath t"
    unfolding NormalizeVPath_def by simp
qed
section \<open>Declarations: lemmas\<close>

lemma LoadDeclarationsFor_row:
  assumes "d \<in> set (LoadDeclarationsFor env ve m)"
  obtains dir siblings row where "ResolveOneRow env ve m dir siblings row = Inr d"
proof -
  have "\<exists>dir siblings row. ResolveOneRow env ve m dir siblings row = Inr d"
    if "d \<in> set (row_result (ResolveOneRow env ve m dir siblings) t)" for t dir siblings
    using that by (cases t) (auto split: sum.splits)
  then show thesis
    using assms that
    by (fastforce simp: LoadDeclarationsFor_def LoadOneSidecar_def
        split: if_splits option.splits node.splits toml.splits)
qed

lemma accepted_row:
  assumes "ResolveOneRow env ve m dir siblings row = Inr d"
  shows "d_routesToOverlay d \<longleftrightarrow> d_kind d = VanillaPath"
    "d_kind d = VanillaPath \<Longrightarrow> d_overlayKey d = NormalizeVPath (d_target d)"
    "d_owningPlugin d = pm_name m" "d_owningAuthor d = pm_author m"
    "ResolveDeclaringFile env dir siblings row = Inr (d_diskPath d)"
  using assms by (auto simp: ResolveOneRow_def Let_def split: option.splits if_splits sum.splits)

lemma declared:
  assumes "d \<in> set (LoadDeclarationsFor env ve m)"
  shows "d_routesToOverlay d \<longleftrightarrow> d_kind d = VanillaPath"
    "d_kind d = VanillaPath \<Longrightarrow> d_overlayKey d = NormalizeVPath (d_target d)"
    "d_owningPlugin d = pm_name m" "d_owningAuthor d = pm_author m"
  using LoadDeclarationsFor_row [OF assms] accepted_row by metis+

text \<open>What folder listings never contain.\<close>

definition plain_names :: "entry list \<Rightarrow> bool" where
  "plain_names es \<longleftrightarrow> (\<forall>n x. Entry n x \<in> set es \<longrightarrow> n \<noteq> [] \<and> n \<noteq> ''..'')"

lemma sibling_named:
  "n \<in> set (List.map_filter sibling_file es) \<Longrightarrow> plain_names es \<Longrightarrow> n \<noteq> [] \<and> n \<noteq> ''..''"
proof -
  assume n: "n \<in> set (List.map_filter sibling_file es)" and p: "plain_names es"
  obtain e where "e \<in> set es" "sibling_file e = Some n" using n by (auto simp: List.map_filter_def)
  moreover obtain m x where "e = Entry m x" by (cases e)
  ultimately show ?thesis using p by (cases x) (auto simp: plain_names_def split: if_splits)
qed

lemma declaring_file_below:
  assumes ok: "ResolveDeclaringFile env dir siblings row = Inr p"
    and dir: "fp_names dir \<noteq> []" "last (fp_names dir) \<noteq> []" and sib: "plain_names siblings"
    and rel: "\<not> has_root (parse_path (OptString row ''file''))" "fp_names (lexically_normal (parse_path (OptString row ''file''))) \<noteq> []"
  shows "\<exists>ns. p = dir\<lparr>fp_names := fp_names dir @ ns\<rparr> \<and> ''..'' \<notin> set ns"
proof (cases "OptString row ''file'' = []")
  case True
  then obtain n where n: "List.map_filter sibling_file siblings = [n]" "p = path_child dir n"
    using ok by (auto simp: ResolveDeclaringFile_def Let_def split: list.splits)
  then show ?thesis
    using sibling_named [of n siblings] sib dir by (auto simp: path_child_def append_names_below intro!: exI [of _ "[n]"])
next
  case False
  let ?q = "lexically_normal (parse_path (OptString row ''file''))"
  have "p = path_append dir ?q" "''..'' \<notin> set (fp_names ?q)"
    using ok False by (auto simp: ResolveDeclaringFile_def Let_def split: if_splits)
  moreover have "fp_root ?q = []" "\<not> fp_rooted ?q"
    using rel(1) by (simp_all add: lexically_normal_def has_root_def Let_def)
  ultimately show ?thesis using dir rel(2) by (auto simp: path_append_def append_names_below)
qed

lemma split_names_ne: "cur \<noteq> [] \<or> s \<noteq> [] \<and> \<not> path_sep (hd s) \<Longrightarrow> split_names cur s \<noteq> []"
  by (induction cur s rule: split_names.induct) auto

lemma rootless_names:
  assumes "s \<noteq> []" "\<not> has_root (parse_path s)"
  shows "fp_names (lexically_normal (parse_path s)) \<noteq> []"
proof -
  have "root_length s = 0"
    using assms by (auto simp: has_root_def parse_path_def root_length_def is_drive_def is_unc_def Let_def split: if_splits)
  then have "\<not> path_sep (hd s)" using assms by (simp add: has_root_def parse_path_def Let_def)
  then have "fp_names (parse_path s) \<noteq> []"
    using \<open>root_length s = 0\<close> split_names_ne assms(1) by (simp add: parse_path_def Let_def)
  then show ?thesis using assms(2) by (auto simp: lexically_normal_def Let_def)
qed

section \<open>Properties\<close>

text \<open>Property C29.  Which file a row of replaces.toml can bind.  A row whose file key is relative (or
  missing) binds a file below the folder of the sidecar, whatever dots the key contains.  The
  check covers only double dots: a key with a drive and a root directory is not refused, and the
  row then binds that absolute path.\<close>

theorem declaring_file_contained:
  assumes "ResolveDeclaringFile env dir siblings row = Inr p"
    and "fp_names dir \<noteq> []" "last (fp_names dir) \<noteq> []" "plain_names siblings"
  shows "let rel = parse_path (OptString row ''file'')
    in if \<not> has_root rel then \<exists>ns. p = dir\<lparr>fp_names := fp_names dir @ ns\<rparr> \<and> ''..'' \<notin> set ns
       else if fp_root rel \<noteq> [] \<and> fp_rooted rel then p = lexically_normal rel
       else p = path_append dir (lexically_normal rel)"
proof -
  let ?rel = "parse_path (OptString row ''file'')"
  have ne: "OptString row ''file'' \<noteq> []" if "has_root ?rel"
    using that by (auto simp: has_root_def parse_path_def root_length_def is_drive_def is_unc_def Let_def)
  have "p = path_append dir (lexically_normal ?rel)" if "has_root ?rel"
    using assms(1) ne [OF that] by (auto simp: ResolveDeclaringFile_def Let_def split: if_splits)
  moreover have "path_append dir (lexically_normal ?rel) = lexically_normal ?rel"
    if "fp_root ?rel \<noteq> []" "fp_rooted ?rel"
    using that by (simp add: path_append_def lexically_normal_def Let_def)
  moreover have "\<exists>ns. p = dir\<lparr>fp_names := fp_names dir @ ns\<rparr> \<and> ''..'' \<notin> set ns" if "\<not> has_root ?rel"
  proof (cases "OptString row ''file'' = []")
    case True
    then obtain n where n: "List.map_filter sibling_file siblings = [n]" "p = path_child dir n"
      using assms(1) by (auto simp: ResolveDeclaringFile_def Let_def split: list.splits)
    then show ?thesis
      using sibling_named [of n siblings] assms(2-4)
      by (auto simp: path_child_def append_names_below intro!: exI [of _ "[n]"])
  next
    case False
    then show ?thesis using declaring_file_below [OF assms that rootless_names] that by blast
  qed
  ultimately show ?thesis by (simp add: Let_def)
qed

theorem declaring_file_contained_witness:
  "ResolveDeclaringFile \<lparr>ae_disk = (\<lambda>p. Some (NFile (Content []))), ae_toml = (\<lambda>t. None)\<rparr>
       (parse_path ''C:/mods/a'') [] [(''file'', TString ''D:/x'')] = Inr \<lparr>fp_root = ''D:'', fp_rooted = True, fp_names = [''x'']\<rparr>
   \<and> \<lparr>fp_root = ''D:'', fp_rooted = True, fp_names = [''x'']\<rparr> = lexically_normal (parse_path ''D:/x'')"
proof -
  have r: "parse_path ''D:/x'' = \<lparr>fp_root = ''D:'', fp_rooted = True, fp_names = [''x'']\<rparr>"
    "parse_path ''C:/mods/a'' = \<lparr>fp_root = ''C:'', fp_rooted = True, fp_names = [''mods'', ''a'']\<rparr>"
    by (simp_all add: parse_path_def root_length_def is_drive_def path_sep_def less_eq_char_def)
  have o: "OptString [(''file'', TString ''D:/x'')] ''file'' = ''D:/x''" by (simp add: OptString_def)
  have ok: "ResolveDeclaringFile \<lparr>ae_disk = (\<lambda>p. Some (NFile (Content []))), ae_toml = (\<lambda>t. None)\<rparr>
       (parse_path ''C:/mods/a'') [] [(''file'', TString ''D:/x'')] = Inr \<lparr>fp_root = ''D:'', fp_rooted = True, fp_names = [''x'']\<rparr>"
    unfolding ResolveDeclaringFile_def o Let_def r
    by (simp add: lexically_normal_def has_root_def path_append_def is_regular_file_def)
  then show ?thesis
    using declaring_file_contained [OF ok] unfolding o Let_def r by (simp add: has_root_def plain_names_def)
qed

end
