(* ===== verification/Asset_Overlay.thy ===== *)
theory Asset_Overlay
  imports Asset_Sidecar
begin

text \<open>
  src/asset_overlay.cpp and src/asset_namespace.cpp: the map from asset paths to the mod files that
  replace them, built once in load order; the tables Lua writes at run time; the two hooks that
  consult them.

  The runtime tables are read-copy-update snapshots with one writer at a time, so each is one map.
  The engine's original functions are not modelled: a hook answers \<open>CallOriginal\<close> or what it
  serves itself.
\<close>

record overlay_entry =
  oe_owningPlugin :: string
  oe_diskPath :: fs_path

type_synonym overlay_map = "string \<rightharpoonup> overlay_entry"

section \<open>Run-time tables\<close>

record asset_ns =
  ns_runtime :: overlay_map
  ns_published :: "string \<rightharpoonup> fs_path \<times> string"
  ns_vmUp :: bool
  ns_bootOpened :: "string set"
  ns_bootWarned :: "string set"

definition initial_ns :: asset_ns where
  "initial_ns = \<lparr>ns_runtime = Map.empty, ns_published = Map.empty, ns_vmUp = False,
     ns_bootOpened = {}, ns_bootWarned = {}\<rparr>"

definition RecordBootOpen :: "string \<Rightarrow> asset_ns \<Rightarrow> asset_ns" where
  "RecordBootOpen key st =
     (if ns_vmUp st then st else st\<lparr>ns_bootOpened := insert key (ns_bootOpened st)\<rparr>)"

definition NotifyVmReady :: "asset_ns \<Rightarrow> asset_ns" where
  "NotifyVmReady st = st\<lparr>ns_vmUp := True\<rparr>"

definition WasBootOpened :: "asset_ns \<Rightarrow> string \<Rightarrow> bool" where
  "WasBootOpened st vpath \<longleftrightarrow> ns_vmUp st \<and> NormalizeVPath vpath \<in> ns_bootOpened st"

text \<open>The second result: whether the warning about a boot asset is written.\<close>

definition RegisterRuntimeOverlay :: "string \<Rightarrow> fs_path \<Rightarrow> string \<Rightarrow> asset_ns \<Rightarrow> asset_ns \<times> bool" where
  "RegisterRuntimeOverlay vpath diskPath owningPlugin st =
     (let key = NormalizeVPath vpath;
          st = st\<lparr>ns_runtime := (ns_runtime st)(key \<mapsto>
                 \<lparr>oe_owningPlugin = owningPlugin, oe_diskPath = diskPath\<rparr>)\<rparr>
      in if WasBootOpened st key \<and> key \<notin> ns_bootWarned st
         then (st\<lparr>ns_bootWarned := insert key (ns_bootWarned st)\<rparr>, True)
         else (st, False))"

definition LookupRuntimeOverlay :: "asset_ns \<Rightarrow> string \<Rightarrow> overlay_entry option" where
  "LookupRuntimeOverlay st key = ns_runtime st key"

definition PublishName :: "string \<Rightarrow> fs_path \<Rightarrow> string \<Rightarrow> asset_ns \<Rightarrow> asset_ns" where
  "PublishName packedName diskPath serveVpath st =
     st\<lparr>ns_published := (ns_published st)(packedName \<mapsto> (diskPath, serveVpath))\<rparr>"

definition LookupPublishedName :: "asset_ns \<Rightarrow> string \<Rightarrow> fs_path option" where
  "LookupPublishedName st packedName = map_option fst (ns_published st packedName)"

definition ResolvePublishedVpath :: "asset_ns \<Rightarrow> string \<Rightarrow> string option" where
  "ResolvePublishedVpath st packedName = map_option snd (ns_published st packedName)"

section \<open>Building the map\<close>

definition PluginsInLoadOrder :: "lo_state \<Rightarrow> loaded_plugin list \<Rightarrow> loaded_plugin list" where
  "PluginsInLoadOrder lo ps = sort_key (post_key lo) ps"

definition PackName :: "string \<Rightarrow> string \<Rightarrow> string \<Rightarrow> string" where
  "PackName author plugin bare =
     lower (if author = [] then plugin @ ''.'' @ bare else author @ ''.'' @ plugin @ ''.'' @ bare)"

definition LowerPackedName :: "string \<Rightarrow> string" where
  "LowerPackedName packed = lower packed"

definition PluginPathKey :: "string \<Rightarrow> string \<Rightarrow> string \<Rightarrow> string" where
  "PluginPathKey author plugin normRelPath =
     lower (if author = [] then plugin else author @ ''.'' @ plugin) @ ''|'' @ normRelPath"

definition AssetRelVpath :: "plugin_manifest \<Rightarrow> fs_path \<Rightarrow> string" where
  "AssetRelVpath m diskPath =
     (if pm_assetsEntrypointRel m = [] then []
      else (let rel = lexically_relative diskPath (assets_root m)
            in if rel = empty_path \<or> starts_with ''..'' (generic_string rel) then []
               else NormalizeVPath (generic_string rel)))"

text \<open>The identity is cut at its first dot; without a dot it is a plugin name.\<close>

definition split_identity :: "string \<Rightarrow> string \<times> string" where
  "split_identity ident =
     (case str_find ident ''.'' 0 of
        None \<Rightarrow> ([], ident)
      | Some dot \<Rightarrow> (take dot ident, drop (dot + 1) ident))"

definition FindLoadedByIdentity :: "loaded_plugin list \<Rightarrow> string \<Rightarrow> loaded_plugin option" where
  "FindLoadedByIdentity ps ident =
     (let (author, plugin) = split_identity ident
      in if plugin = [] then None
         else find (\<lambda>p. lp_name p = plugin \<and> (author = [] \<or> pm_author (lp_manifest p) = author)) ps)"

record overlay_build =
  ob_map :: overlay_map
  ob_ns :: asset_ns
  ob_byPublishedName :: "string \<rightharpoonup> string"
  ob_byPluginPath :: "string \<rightharpoonup> string"
  ob_all :: "asset_decl list"
  ob_entries :: nat
  ob_suppressed :: nat
  ob_crossmod :: nat
  ob_unresolved :: nat
  ob_published :: nat

definition publish_decl :: "asset_decl \<Rightarrow> string \<Rightarrow> overlay_build \<Rightarrow> overlay_build" where
  "publish_decl d serveVpath b =
     (let packed = PackName (d_owningAuthor d) (d_owningPlugin d) (d_publishName d)
      in b\<lparr>ob_ns := PublishName packed (d_diskPath d) serveVpath (ob_ns b),
           ob_byPublishedName := (ob_byPublishedName b)(packed \<mapsto> serveVpath),
           ob_published := ob_published b + 1\<rparr>)"

definition entry_of_decl :: "asset_decl \<Rightarrow> overlay_entry" where
  "entry_of_decl d = \<lparr>oe_owningPlugin = d_owningPlugin d, oe_diskPath = d_diskPath d\<rparr>"

text \<open>The first declaration of a target keeps it.\<close>

definition claim_target :: "string \<Rightarrow> asset_decl \<Rightarrow> overlay_build \<Rightarrow> overlay_build" where
  "claim_target key d b =
     (if ob_map b key \<noteq> None then b\<lparr>ob_suppressed := ob_suppressed b + 1\<rparr>
      else b\<lparr>ob_map := (ob_map b)(key \<mapsto> entry_of_decl d), ob_entries := ob_entries b + 1\<rparr>)"

definition pass1_decl :: "plugin_manifest \<Rightarrow> asset_decl \<Rightarrow> overlay_build \<Rightarrow> overlay_build" where
  "pass1_decl m d b =
     (let relVpath = AssetRelVpath m (d_diskPath d);
          b = (if d_publishName d \<noteq> [] \<and> d_routesToOverlay d then publish_decl d (d_overlayKey d) b else b);
          b = (if relVpath \<noteq> []
               then b\<lparr>ob_byPluginPath := (ob_byPluginPath b)
                        (PluginPathKey (d_owningAuthor d) (d_owningPlugin d) relVpath
                           \<mapsto> (if d_routesToOverlay d then d_overlayKey d else relVpath))\<rparr>
               else b)
      in if d_routesToOverlay d then claim_target (d_overlayKey d) d b
         else b\<lparr>ob_all := ob_all b @ [d]\<rparr>)"

definition declarations :: "asset_env \<Rightarrow> loaded_plugin \<Rightarrow> asset_decl list" where
  "declarations env p = LoadDeclarationsFor env None (lp_manifest p)"

definition pass1_plugin :: "asset_env \<Rightarrow> loaded_plugin \<Rightarrow> overlay_build \<Rightarrow> overlay_build" where
  "pass1_plugin env p b =
     (if pm_assetsEntrypointRel (lp_manifest p) = [] then b
      else fold (pass1_decl (lp_manifest p)) (declarations env p) b)"

text \<open>Where the asset a cross-mod target names is served.\<close>

definition serve_vpath :: "asset_env \<Rightarrow> loaded_plugin list \<Rightarrow> overlay_build \<Rightarrow> asset_decl \<Rightarrow> string option" where
  "serve_vpath env ps b d =
     (case d_kind d of
        PublishedName \<Rightarrow> ob_byPublishedName b (LowerPackedName (d_target d))
      | PluginPathPair \<Rightarrow>
          (let normPath = NormalizeVPath (d_replacesPath d)
           in case ob_byPluginPath b (PluginPathKey [] (d_replacesPlugin d) normPath) of
                Some v \<Rightarrow> Some v
              | None \<Rightarrow>
                  (case FindLoadedByIdentity ps (d_replacesPlugin d) of
                     None \<Rightarrow> None
                   | Some pub \<Rightarrow>
                       if pm_assetsEntrypointRel (lp_manifest pub) = [] then None
                       else if is_regular_file env (lexically_normal
                                 (path_append (assets_root (lp_manifest pub)) (parse_path (d_replacesPath d))))
                       then Some normPath else None))
      | VanillaPath \<Rightarrow> None)"

definition pass2_decl :: "asset_env \<Rightarrow> loaded_plugin list \<Rightarrow> asset_decl \<Rightarrow> overlay_build \<Rightarrow> overlay_build" where
  "pass2_decl env ps d b =
     (case serve_vpath env ps b d of
        None \<Rightarrow> b\<lparr>ob_unresolved := ob_unresolved b + 1\<rparr>
      | Some v \<Rightarrow>
          (let b = (if d_publishName d \<noteq> [] then publish_decl d v b else b)
           in if ob_map b v \<noteq> None then b\<lparr>ob_suppressed := ob_suppressed b + 1\<rparr>
              else (claim_target v d b)\<lparr>ob_crossmod := ob_crossmod b + 1\<rparr>))"

definition empty_build :: "asset_ns \<Rightarrow> overlay_build" where
  "empty_build st = \<lparr>ob_map = Map.empty, ob_ns = st, ob_byPublishedName = Map.empty,
     ob_byPluginPath = Map.empty, ob_all = [], ob_entries = 0, ob_suppressed = 0, ob_crossmod = 0,
     ob_unresolved = 0, ob_published = 0\<rparr>"

definition BuildOverlayMap :: "asset_env \<Rightarrow> lo_state \<Rightarrow> loaded_plugin list \<Rightarrow> asset_ns \<Rightarrow> overlay_build" where
  "BuildOverlayMap env lo ps st =
     (let b = fold (pass1_plugin env) (PluginsInLoadOrder lo ps) (empty_build st)
      in fold (pass2_decl env ps) (ob_all b) b)"

section \<open>The hooks\<close>

definition kMaxPath :: nat where
  "kMaxPath = 2048"

definition overlay_hit :: "overlay_map \<Rightarrow> asset_ns \<Rightarrow> string \<Rightarrow> overlay_entry option" where
  "overlay_hit m st key = (case m key of Some e \<Rightarrow> Some e | None \<Rightarrow> LookupRuntimeOverlay st key)"

text \<open>What a hook does: pass on to the engine, or answer with a path, or with an open file.\<close>

datatype 'f hook_answer = CallOriginal | ServePath string | ServeFile 'f

text \<open>The last result is what was written to the caller's buffer, with its NUL left out.\<close>

definition AdjustFileNameResolver :: "overlay_map \<Rightarrow> string option \<Rightarrow> bool \<Rightarrow> asset_ns
    \<Rightarrow> asset_ns \<times> 'f hook_answer \<times> string option" where
  "AdjustFileNameResolver m pName hasOutBuf st =
     (case pName of
        None \<Rightarrow> (st, CallOriginal, None)
      | Some pName \<Rightarrow>
          if \<not> hasOutBuf then (st, CallOriginal, None)
          else (let key = NormalizeVPath pName; st = RecordBootOpen key st
                in case overlay_hit m st key of
                     None \<Rightarrow> (st, CallOriginal, None)
                   | Some e \<Rightarrow>
                       (let diskPath = path_string (oe_diskPath e); out = take (kMaxPath - 1) diskPath
                        in if length diskPath \<ge> kMaxPath then (st, CallOriginal, Some out)
                           else (st, ServePath out, Some out))))"

text \<open>
  \<open>utf16\<close> is the number of UTF-16 units of a string, its NUL included; \<open>wfopen\<close> the C library's
  open on the widened path and mode.
\<close>

definition FOpenLooseOverlay :: "(string \<Rightarrow> nat) \<Rightarrow> (string \<Rightarrow> string \<Rightarrow> 'f option) \<Rightarrow> overlay_map
    \<Rightarrow> string option \<Rightarrow> string option \<Rightarrow> asset_ns \<Rightarrow> asset_ns \<times> 'f hook_answer" where
  "FOpenLooseOverlay utf16 wfopen m pName szMode st =
     (case pName of
        None \<Rightarrow> (st, CallOriginal)
      | Some pName \<Rightarrow>
          (let key = NormalizeVPath pName; st = RecordBootOpen key st
           in case overlay_hit m st key of
                None \<Rightarrow> (st, CallOriginal)
              | Some e \<Rightarrow>
                  (let diskPath = path_string (oe_diskPath e);
                       mode = (case szMode of None \<Rightarrow> ''rb'' | Some s \<Rightarrow> if s = [] then ''rb'' else s)
                   in if utf16 diskPath > kMaxPath \<or> utf16 mode > 16 then (st, CallOriginal)
                      else (case wfopen diskPath mode of
                              None \<Rightarrow> (st, CallOriginal)
                            | Some fp \<Rightarrow> (st, ServeFile fp)))))"

section \<open>The map: lemmas\<close>

definition ordered_decls :: "asset_env \<Rightarrow> lo_state \<Rightarrow> loaded_plugin list \<Rightarrow> asset_decl list" where
  "ordered_decls env lo ps = concat (map (declarations env) (PluginsInLoadOrder lo ps))"

lemma set_ordered_decls: "set (ordered_decls env lo ps) = (\<Union>p \<in> set ps. set (declarations env p))"
  by (simp add: ordered_decls_def PluginsInLoadOrder_def)

abbreviation vanilla_claims :: "asset_decl list \<Rightarrow> (string \<times> overlay_entry) list" where
  "vanilla_claims ds \<equiv> map (\<lambda>d. (d_overlayKey d, entry_of_decl d)) (filter d_routesToOverlay ds)"

text \<open>The targets pass 2 resolves, each with the entry that asks for it.\<close>

fun cross_claims :: "asset_env \<Rightarrow> loaded_plugin list \<Rightarrow> asset_decl list \<Rightarrow> overlay_build
    \<Rightarrow> (string \<times> overlay_entry) list" where
  "cross_claims env ps [] b = []"
| "cross_claims env ps (d # ds) b =
     (case serve_vpath env ps b d of None \<Rightarrow> [] | Some v \<Rightarrow> [(v, entry_of_decl d)])
       @ cross_claims env ps ds (pass2_decl env ps d b)"

lemma publish_map [simp]: "ob_map (publish_decl d v b) = ob_map b"
  by (simp add: publish_decl_def Let_def)

lemma claim_map: "ob_map (claim_target k d b) = [k \<mapsto> entry_of_decl d] ++ ob_map b"
  by (auto simp: claim_target_def fun_eq_iff map_add_def split: option.splits)

lemma pass1_map:
  "ob_map (pass1_decl m d b) =
     (if d_routesToOverlay d then [d_overlayKey d \<mapsto> entry_of_decl d] ++ ob_map b else ob_map b)"
  by (simp add: pass1_decl_def Let_def claim_map)

lemma pass1_all:
  "ob_all (pass1_decl m d b) = ob_all b @ (if d_routesToOverlay d then [] else [d])"
  by (simp add: pass1_decl_def Let_def claim_target_def publish_decl_def)

lemma pass2_map:
  "ob_map (pass2_decl env ps d b) =
     (case serve_vpath env ps b d of None \<Rightarrow> ob_map b | Some v \<Rightarrow> [v \<mapsto> entry_of_decl d] ++ ob_map b)"
  by (auto simp: pass2_decl_def Let_def claim_map fun_eq_iff map_add_def split: option.splits)

lemma fold_pass1:
  "ob_map (fold (pass1_decl m) ds b) = map_of (vanilla_claims ds) ++ ob_map b"
  "ob_all (fold (pass1_decl m) ds b) = ob_all b @ filter (\<lambda>d. \<not> d_routesToOverlay d) ds"
proof (induction ds arbitrary: b)
  case (Cons d ds)
  { case 1
    show ?case using Cons(1) [of "pass1_decl m d b"] by (auto simp: pass1_map fun_eq_iff map_add_def split: option.splits)
  next
    case 2
    show ?case using Cons(2) [of "pass1_decl m d b"] by (simp add: pass1_all) }
qed simp_all

lemma no_assets: "pm_assetsEntrypointRel (lp_manifest p) = [] \<Longrightarrow> declarations env p = []"
  by (simp add: declarations_def LoadDeclarationsFor_def)

lemma pass1_plugin_eq:
  "pass1_plugin env p b = fold (pass1_decl (lp_manifest p)) (declarations env p) b"
  by (simp add: pass1_plugin_def no_assets)

lemma fold_pass1_plugins:
  "ob_map (fold (pass1_plugin env) ps b) = map_of (vanilla_claims (concat (map (declarations env) ps))) ++ ob_map b"
  "ob_all (fold (pass1_plugin env) ps b) =
     ob_all b @ filter (\<lambda>d. \<not> d_routesToOverlay d) (concat (map (declarations env) ps))"
  by (induction ps arbitrary: b) (simp_all add: pass1_plugin_eq fold_pass1 map_add_assoc)

lemma fold_pass2:
  "ob_map (fold (pass2_decl env ps) ds b) = map_of (cross_claims env ps ds b) ++ ob_map b"
proof (induction ds arbitrary: b)
  case (Cons d ds)
  show ?case
    using Cons [of "pass2_decl env ps d b"]
    by (auto simp: pass2_map fun_eq_iff map_add_def split: option.splits)
qed simp

text \<open>A published name always points at a target that is taken.\<close>

definition names_taken :: "overlay_build \<Rightarrow> bool" where
  "names_taken b \<longleftrightarrow> (\<forall>n v. ob_byPublishedName b n = Some v \<longrightarrow> v \<in> dom (ob_map b))"

lemma claim_names [simp]: "ob_byPublishedName (claim_target k d b) = ob_byPublishedName b"
  by (simp add: claim_target_def)

lemma pass1_names: "names_taken b \<Longrightarrow> names_taken (pass1_decl m d b)"
  unfolding names_taken_def pass1_map
  by (simp add: pass1_decl_def Let_def publish_decl_def)

lemma pass2_names: "names_taken b \<Longrightarrow> names_taken (pass2_decl env ps d b)"
  unfolding names_taken_def pass2_map
  by (cases "serve_vpath env ps b d") (simp_all add: pass2_decl_def Let_def publish_decl_def)

lemma fold_pass1_names: "names_taken b \<Longrightarrow> names_taken (fold (pass1_plugin env) ps b)"
proof (induction ps arbitrary: b)
  case (Cons p ps)
  have "names_taken b \<Longrightarrow> names_taken (fold (pass1_decl m) ds b)" for m ds b
    by (induction ds arbitrary: b) (simp_all add: pass1_names)
  then show ?case using Cons by (simp add: pass1_plugin_eq)
qed simp

text \<open>What enters the map in pass 2 is not a declaration by published name.\<close>

lemma fold_pass2_sound:
  assumes "names_taken b" "ob_map (fold (pass2_decl env ps) ds b) k = Some e" "\<forall>d \<in> set ds. d_kind d \<noteq> VanillaPath"
  shows "ob_map b k = Some e \<or> (\<exists>d \<in> set ds. d_kind d = PluginPathPair \<and> e = entry_of_decl d)"
  using assms
proof (induction ds arbitrary: b)
  case (Cons d ds)
  let ?b = "pass2_decl env ps d b"
  have step: "ob_map ?b k = Some e \<Longrightarrow> ob_map b k = Some e \<or> d_kind d = PluginPathPair \<and> e = entry_of_decl d"
  proof (cases "d_kind d")
    case PublishedName
    then have "ob_map ?b = ob_map b"
      using Cons.prems(1)
      by (auto simp: pass2_map serve_vpath_def names_taken_def fun_eq_iff map_add_def split: option.splits)
    then show "ob_map ?b k = Some e \<Longrightarrow> ?thesis" by simp
  next
    case PluginPathPair
    then show "ob_map ?b k = Some e \<Longrightarrow> ?thesis" by (auto simp: pass2_map map_add_def split: option.splits if_splits)
  qed (use Cons.prems(3) in simp)
  have "ob_map ?b k = Some e \<or> (\<exists>d \<in> set ds. d_kind d = PluginPathPair \<and> e = entry_of_decl d)"
    using Cons.IH [OF pass2_names [OF Cons.prems(1)]] Cons.prems(2,3) by simp
  then show ?case using step by auto
qed simp

lemma map_of_vanilla_claims:
  "map_of (vanilla_claims ds) k =
     map_option entry_of_decl (find (\<lambda>d. d_routesToOverlay d \<and> d_overlayKey d = k) ds)"
  by (induction ds) auto

lemma decl_kinds: "d \<in> set (ordered_decls env lo ps) \<Longrightarrow> d_routesToOverlay d \<longleftrightarrow> d_kind d = VanillaPath"
  using declared(1) by (auto simp: set_ordered_decls declarations_def)

lemma BuildOverlayMap_passes:
  obtains b where "BuildOverlayMap env lo ps st = fold (pass2_decl env ps) (ob_all b) b"
    "ob_map b = map_of (vanilla_claims (ordered_decls env lo ps))" "names_taken b"
    "ob_all b = filter (\<lambda>d. \<not> d_routesToOverlay d) (ordered_decls env lo ps)"
proof
  let ?b = "fold (pass1_plugin env) (PluginsInLoadOrder lo ps) (empty_build st)"
  show "BuildOverlayMap env lo ps st = fold (pass2_decl env ps) (ob_all ?b) ?b"
    by (simp add: BuildOverlayMap_def Let_def)
  show "ob_map ?b = map_of (vanilla_claims (ordered_decls env lo ps))"
    "ob_all ?b = filter (\<lambda>d. \<not> d_routesToOverlay d) (ordered_decls env lo ps)"
    by (simp_all add: fold_pass1_plugins ordered_decls_def empty_build_def)
  show "names_taken ?b" by (rule fold_pass1_names) (simp add: names_taken_def empty_build_def)
qed

lemma overlay_winner_eq:
  "case find (\<lambda>d. d_routesToOverlay d \<and> d_overlayKey d = k) (ordered_decls env lo ps) of
     Some d \<Rightarrow> ob_map (BuildOverlayMap env lo ps st) k = Some (entry_of_decl d)
   | None \<Rightarrow> \<forall>e. ob_map (BuildOverlayMap env lo ps st) k = Some e \<longrightarrow>
       (\<exists>d \<in> set (ordered_decls env lo ps). d_kind d = PluginPathPair \<and> e = entry_of_decl d)"
proof -
  obtain b where b: "BuildOverlayMap env lo ps st = fold (pass2_decl env ps) (ob_all b) b"
    "ob_map b = map_of (vanilla_claims (ordered_decls env lo ps))" "names_taken b"
    "ob_all b = filter (\<lambda>d. \<not> d_routesToOverlay d) (ordered_decls env lo ps)"
    by (rule BuildOverlayMap_passes)
  show ?thesis
  proof (cases "find (\<lambda>d. d_routesToOverlay d \<and> d_overlayKey d = k) (ordered_decls env lo ps)")
    case (Some d)
    then have "ob_map b k = Some (entry_of_decl d)" by (simp add: b(2) map_of_vanilla_claims)
    then show ?thesis using Some by (simp add: b(1) fold_pass2 map_add_Some_iff)
  next
    case None
    then have none: "ob_map b k = None" by (simp add: b(2) map_of_vanilla_claims)
    have "\<forall>d \<in> set (ob_all b). d_kind d \<noteq> VanillaPath" using decl_kinds by (auto simp: b(4))
    then show ?thesis using fold_pass2_sound [OF b(3)] None none by (fastforce simp: b(1,4))
  qed
qed

section \<open>Order: lemmas\<close>

lemma find_unique:
  assumes "mset xs = mset ys" "\<And>x y. x \<in> set xs \<Longrightarrow> y \<in> set xs \<Longrightarrow> P x \<Longrightarrow> P y \<Longrightarrow> x = y"
  shows "find P xs = find P ys"
proof -
  have s: "set xs = set ys" using assms(1) by (rule mset_eq_setD)
  show ?thesis
  proof (cases "find P xs")
    case None
    then show ?thesis by (metis find_None_iff s)
  next
    case (Some x)
    then have x: "x \<in> set xs" "P x" by (auto simp: find_Some_iff)
    then obtain y where y: "find P ys = Some y" by (cases "find P ys") (auto simp: find_None_iff s)
    then have "y \<in> set xs" "P y" by (auto simp: find_Some_iff s)
    then show ?thesis using assms(2) x y Some by metis
  qed
qed

lemma FindLoadedByIdentity_perm:
  assumes "mset ps = mset qs" "distinct (map lp_name ps)"
  shows "FindLoadedByIdentity ps ident = FindLoadedByIdentity qs ident"
  unfolding FindLoadedByIdentity_def
  by (auto split: prod.splits intro!: find_unique [OF assms(1)]
      dest: inj_onD [OF distinct_map [THEN iffD1, OF assms(2), THEN conjunct2]])

lemma PluginsInLoadOrder_perm:
  assumes "mset ps = mset qs" "distinct (map lp_name ps)" "\<forall>p \<in> set ps. post_key lo p = post_key lo' p"
  shows "PluginsInLoadOrder lo ps = PluginsInLoadOrder lo' qs"
  unfolding PluginsInLoadOrder_def
proof (rule sort_key_inj_key_eq)
  show "mset ps = mset (sort_key (post_key lo') qs)" using assms(1) by simp
  show "inj_on (post_key lo) (set ps)"
    using assms(2) by (auto simp: distinct_map inj_on_def post_key_def)
  have eq: "map (post_key lo) (sort_key (post_key lo') qs) = map (post_key lo') (sort_key (post_key lo') qs)"
    by (rule map_cong) (use assms(3) mset_eq_setD [OF assms(1)] in simp_all)
  show "sorted (map (post_key lo) (sort_key (post_key lo') qs))" unfolding eq by (rule sorted_sort_key)
qed

lemma BuildOverlayMap_perm:
  assumes "mset ps = mset qs" "distinct (map lp_name ps)" "\<forall>p \<in> set ps. post_key lo p = post_key lo' p"
  shows "BuildOverlayMap env lo ps st = BuildOverlayMap env lo' qs st"
proof -
  have "FindLoadedByIdentity ps = FindLoadedByIdentity qs"
    by (rule ext) (rule FindLoadedByIdentity_perm [OF assms(1,2)])
  then have "serve_vpath env ps = serve_vpath env qs" by (intro ext) (simp only: serve_vpath_def)
  then have "pass2_decl env ps = pass2_decl env qs" by (intro ext) (simp add: pass2_decl_def)
  then show ?thesis by (simp add: BuildOverlayMap_def PluginsInLoadOrder_perm [OF assms])
qed

section \<open>The boot window: lemmas\<close>

text \<open>What touches the run-time tables, in the order it happens.\<close>

datatype asset_event = EngineOpens string | VmReady | LuaRegisters string fs_path string

fun asset_step :: "asset_event \<Rightarrow> asset_ns \<Rightarrow> asset_ns" where
  "asset_step (EngineOpens p) st = RecordBootOpen (NormalizeVPath p) st"
| "asset_step VmReady st = NotifyVmReady st"
| "asset_step (LuaRegisters v d owner) st = fst (RegisterRuntimeOverlay v d owner st)"

abbreviation after_events :: "asset_event list \<Rightarrow> asset_ns" where
  "after_events es \<equiv> fold asset_step es initial_ns"

lemma register_fields [simp]:
  "ns_vmUp (fst (RegisterRuntimeOverlay v d owner st)) = ns_vmUp st"
  "ns_bootOpened (fst (RegisterRuntimeOverlay v d owner st)) = ns_bootOpened st"
  "ns_runtime (fst (RegisterRuntimeOverlay v d owner st)) =
     (ns_runtime st)(NormalizeVPath v \<mapsto> \<lparr>oe_owningPlugin = owner, oe_diskPath = d\<rparr>)"
  by (simp_all add: RegisterRuntimeOverlay_def Let_def)

lemma vmUp_after: "ns_vmUp (fold asset_step es st) \<longleftrightarrow> ns_vmUp st \<or> VmReady \<in> set es"
proof (induction es arbitrary: st)
  case (Cons e es)
  show ?case
    using Cons [of "asset_step e st"] by (cases e) (auto simp: RecordBootOpen_def NotifyVmReady_def)
qed simp

lemma bootOpened_after:
  "k \<in> ns_bootOpened (fold asset_step es st) \<longleftrightarrow> k \<in> ns_bootOpened st \<or>
     \<not> ns_vmUp st \<and> (\<exists>p. EngineOpens p \<in> set (takeWhile (\<lambda>e. e \<noteq> VmReady) es) \<and> NormalizeVPath p = k)"
proof (induction es arbitrary: st)
  case (Cons e es)
  show ?case
    using Cons [of "asset_step e st"] by (cases e) (auto simp: RecordBootOpen_def NotifyVmReady_def)
qed simp

text \<open>Some registration of this key came after the VM was ready.\<close>

definition registered_after_vm :: "asset_event list \<Rightarrow> string \<Rightarrow> bool" where
  "registered_after_vm es k \<longleftrightarrow>
     (\<exists>pre v d owner post. es = pre @ LuaRegisters v d owner # post \<and> NormalizeVPath v = k \<and> VmReady \<in> set pre)"

lemma registered_after_vm_snoc:
  "registered_after_vm (es @ [e]) k \<longleftrightarrow> registered_after_vm es k \<or>
     (\<exists>v d owner. e = LuaRegisters v d owner \<and> NormalizeVPath v = k \<and> VmReady \<in> set es)"
proof
  assume "registered_after_vm (es @ [e]) k"
  then obtain pre v d owner post where p: "es @ [e] = pre @ LuaRegisters v d owner # post"
    "NormalizeVPath v = k" "VmReady \<in> set pre"
    by (auto simp: registered_after_vm_def)
  show "registered_after_vm es k \<or>
     (\<exists>v d owner. e = LuaRegisters v d owner \<and> NormalizeVPath v = k \<and> VmReady \<in> set es)"
  proof (cases post rule: rev_cases)
    case (snoc post' e')
    then have "es = pre @ LuaRegisters v d owner # post'" using p(1) by simp
    then show ?thesis using p(2,3) unfolding registered_after_vm_def by blast
  qed (use p in auto)
next
  assume "registered_after_vm es k \<or>
     (\<exists>v d owner. e = LuaRegisters v d owner \<and> NormalizeVPath v = k \<and> VmReady \<in> set es)"
  then show "registered_after_vm (es @ [e]) k"
    unfolding registered_after_vm_def by (metis append.assoc append_Cons append_Nil)
qed

lemma registered_nil [simp]: "\<not> registered_after_vm [] k"
  by (simp add: registered_after_vm_def)

lemma bootWarned_after:
  "k \<in> ns_bootWarned (after_events es) \<longleftrightarrow> k \<in> ns_bootOpened (after_events es) \<and> registered_after_vm es k"
proof (induction es rule: rev_induct)
  case (snoc e es)
  have vm: "ns_vmUp (after_events es) \<longleftrightarrow> VmReady \<in> set es" by (simp add: vmUp_after initial_ns_def)
  have reg: "registered_after_vm es k \<Longrightarrow> VmReady \<in> set es" by (auto simp: registered_after_vm_def)
  show ?case
    using snoc vm reg
    by (cases e)
      (auto simp: RecordBootOpen_def NotifyVmReady_def RegisterRuntimeOverlay_def Let_def
        WasBootOpened_def registered_after_vm_snoc)
qed (simp add: initial_ns_def)

section \<open>A small installation\<close>

text \<open>Plugin a replaces the game's x with its own x; plugin b asks for the same target, other case.\<close>

definition sample_plugin :: "string \<Rightarrow> loaded_plugin" where
  "sample_plugin n =
     \<lparr>lp_manifest = default_manifest\<lparr>pm_name := n, pm_author := ''z'', pm_folderPath := n, pm_assetsEntrypointRel := ''t''\<rparr>,
      lp_filePath = [], lp_module = False, lp_handle = 0, lp_exports = no_exports, lp_loaded = True\<rparr>"

definition sample_dir :: "string \<Rightarrow> fs_path" where
  "sample_dir n = \<lparr>fp_root = [], fp_rooted = False, fp_names = [n, ''t'']\<rparr>"

definition sample_assets :: asset_env where
  "sample_assets =
     \<lparr>ae_disk = (\<lambda>p. if p = sample_dir ''a'' then Some (NDir [Entry kSidecarName (NFile (Content ''1'')), Entry ''x'' (NFile (Content ''bytes''))])
                    else if p = sample_dir ''b'' then Some (NDir [Entry kSidecarName (NFile (Content ''2'')), Entry ''y'' (NFile (Content ''bytes''))])
                    else None),
      ae_toml = (\<lambda>txt. Some [(''asset'', TArray [TTable [(''replaces'', TString (if txt = ''1'' then ''ui/x'' else ''UI/X''))]])])\<rparr>"

definition sample_decl :: "string \<Rightarrow> string \<Rightarrow> string \<Rightarrow> asset_decl" where
  "sample_decl n f t =
     \<lparr>d_owningPlugin = n, d_owningAuthor = ''z'', d_diskPath = path_child (sample_dir n) f,
      d_sidecarPath = path_child (sample_dir n) kSidecarName, d_kind = VanillaPath, d_target = t,
      d_replacesPlugin = [], d_replacesPath = [], d_publishName = [], d_routesToOverlay = True,
      d_overlayKey = ''ui/x''\<rparr>"

lemma sample_root: "assets_root (lp_manifest (sample_plugin [c])) = sample_dir [c]" if "\<not> path_sep c"
  using that
  by (simp add: assets_root_def sample_plugin_def sample_dir_def parse_path_def root_length_def is_drive_def
    is_unc_def path_append_def append_names_def default_manifest_def path_sep_def)

lemma sample_decls:
  "declarations sample_assets (sample_plugin ''a'') = [sample_decl ''a'' ''x'' ''ui/x'']"
  "declarations sample_assets (sample_plugin ''b'') = [sample_decl ''b'' ''y'' ''UI/X'']"
proof -
  have n: "NormalizeVPath ''ui/x'' = ''ui/x''" "NormalizeVPath ''UI/X'' = ''ui/x''"
    by (simp_all add: NormalizeVPath_def fold_step_def lower_char_def less_eq_char_def char_of_def bit_simps)
  have r: "assets_root (lp_manifest (sample_plugin ''a'')) = sample_dir ''a''"
    "assets_root (lp_manifest (sample_plugin ''b'')) = sample_dir ''b''"
    by (simp_all add: sample_root path_sep_def)
  show "declarations sample_assets (sample_plugin ''a'') = [sample_decl ''a'' ''x'' ''ui/x'']"
    "declarations sample_assets (sample_plugin ''b'') = [sample_decl ''b'' ''y'' ''UI/X'']"
    unfolding declarations_def LoadDeclarationsFor_def r
    by (simp_all add: n LoadOneSidecar_def ResolveOneRow_def ResolveDeclaringFile_def OptString_def
      LooksLikePublishedName_def kAssetKeys_def sample_assets_def sample_plugin_def sample_dir_def
      sample_decl_def kSidecarName_def List.map_filter_def Let_def)
qed

abbreviation no_order :: lo_state where
  "no_order \<equiv> \<lparr>g_userOverrides = Map.empty, g_effective = Map.empty\<rparr>"

lemma sample_order:
  "ordered_decls sample_assets no_order [sample_plugin ''b'', sample_plugin ''a''] =
     [sample_decl ''a'' ''x'' ''ui/x'', sample_decl ''b'' ''y'' ''UI/X'']"
proof -
  have "PluginsInLoadOrder no_order [sample_plugin ''b'', sample_plugin ''a''] =
      [sample_plugin ''a'', sample_plugin ''b'']"
    by (simp add: PluginsInLoadOrder_def post_key_def Of_def less_eq_prod_def sample_plugin_def
      less_eq_char_def less_char_def)
  then show ?thesis by (simp add: ordered_decls_def sample_decls)
qed

lemma same_vchar_refl [simp]: "same_vchar c c"
  by (simp add: same_vchar_def)

section \<open>Properties\<close>

text \<open>Property C26.  Who replaces an asset.  The file served for a target is that of the first
  declaration of the target in load order (priority, order index, name; within a plugin in the
  order of its files), whatever case and slashes the plugins wrote it in.  Only where no plugin
  declares the target directly can another entry stand there, and that entry then comes from a
  declaration by plugin and path: a declaration that names another mod's published asset never
  takes effect, because the publisher's own claim on the target is already in the map.\<close>

theorem overlay_winner:
  "case find (\<lambda>d. d_routesToOverlay d \<and> d_overlayKey d = k) (ordered_decls env lo ps) of
     Some d \<Rightarrow> ob_map (BuildOverlayMap env lo ps st) k = Some (entry_of_decl d)
   | None \<Rightarrow> \<forall>e. ob_map (BuildOverlayMap env lo ps st) k = Some e \<longrightarrow>
       (\<exists>d \<in> set (ordered_decls env lo ps). d_kind d = PluginPathPair \<and> e = entry_of_decl d)"
  by (rule overlay_winner_eq)

theorem overlay_winner_witness:
  "ob_map (BuildOverlayMap sample_assets no_order [sample_plugin ''b'', sample_plugin ''a''] initial_ns) ''ui/x''
     = Some (entry_of_decl (sample_decl ''a'' ''x'' ''ui/x''))"
  using overlay_winner [where k = "''ui/x''" and env = sample_assets and lo = no_order
      and ps = "[sample_plugin ''b'', sample_plugin ''a'']" and st = initial_ns]
  unfolding sample_order by (simp add: sample_decl_def)

text \<open>Property C27.  From a row in a plugin's replaces.toml to the file the engine gets.  If a loaded
  plugin declares a game asset as its target and the engine asks for that asset, in any case and
  with either kind of slash, then the resolver answers with the disk path of the declaration that
  wins the target, unless the path has 2048 characters or more, and then it passes the request on.
  The request is noted as opened at boot exactly while the VM is not up.\<close>

theorem declared_target_served:
  assumes "p \<in> set ps" "d \<in> set (declarations env p)" "d_kind d = VanillaPath"
    and "list_all2 same_vchar request (d_target d)"
  shows "\<exists>w. find (\<lambda>e. d_routesToOverlay e \<and> d_overlayKey e = d_overlayKey d) (ordered_decls env lo ps) = Some w
    \<and> (let disk = path_string (d_diskPath w)
       in AdjustFileNameResolver (ob_map (BuildOverlayMap env lo ps st)) (Some request) True ns =
         (if ns_vmUp ns then ns else ns\<lparr>ns_bootOpened := insert (d_overlayKey d) (ns_bootOpened ns)\<rparr>,
          if length disk < 2048 then ServePath disk else CallOriginal, Some (take 2047 disk)))"
proof -
  have r: "d_routesToOverlay d" "d_overlayKey d = NormalizeVPath (d_target d)"
    using declared(1,2) assms(2,3) unfolding declarations_def by auto
  then have key: "NormalizeVPath request = d_overlayKey d" using NormalizeVPath_same [OF assms(4)] by simp
  have "d \<in> set (ordered_decls env lo ps)" using assms(1,2) by (auto simp: set_ordered_decls)
  then obtain w where w: "find (\<lambda>e. d_routesToOverlay e \<and> d_overlayKey e = d_overlayKey d) (ordered_decls env lo ps) = Some w"
    using r(1) by (cases "find (\<lambda>e. d_routesToOverlay e \<and> d_overlayKey e = d_overlayKey d) (ordered_decls env lo ps)")
      (auto simp: find_None_iff)
  then have "ob_map (BuildOverlayMap env lo ps st) (d_overlayKey d) = Some (entry_of_decl w)"
    using overlay_winner_eq [where k = "d_overlayKey d" and env = env and lo = lo and ps = ps and st = st] by simp
  then show ?thesis
    using w by (simp add: AdjustFileNameResolver_def key overlay_hit_def Let_def kMaxPath_def
      entry_of_decl_def RecordBootOpen_def)
qed

theorem declared_target_served_witness:
  "\<exists>w. find (\<lambda>e. d_routesToOverlay e \<and> d_overlayKey e = ''ui/x'')
       (ordered_decls sample_assets no_order [sample_plugin ''b'', sample_plugin ''a'']) = Some w
    \<and> (let disk = path_string (d_diskPath w)
       in AdjustFileNameResolver
           (ob_map (BuildOverlayMap sample_assets no_order [sample_plugin ''b'', sample_plugin ''a''] initial_ns))
           (Some [CHR ''u'', CHR ''I'', CHR 0x5C, CHR ''x'']) True initial_ns =
         (if ns_vmUp initial_ns then initial_ns
          else initial_ns\<lparr>ns_bootOpened := insert ''ui/x'' (ns_bootOpened initial_ns)\<rparr>,
          if length disk < 2048 then ServePath disk else (CallOriginal :: nat hook_answer), Some (take 2047 disk)))"
proof -
  have "lower_char CHR ''I'' = CHR ''i''" "lower_char CHR ''i'' = CHR ''i''"
    by (simp_all add: lower_char_def less_eq_char_def char_of_def bit_simps)
  then have same: "list_all2 same_vchar [CHR ''u'', CHR ''I'', CHR 0x5C, CHR ''x''] (d_target (sample_decl ''a'' ''x'' ''ui/x''))"
    by (simp add: sample_decl_def) (simp add: same_vchar_def path_sep_def)
  have key: "d_overlayKey (sample_decl ''a'' ''x'' ''ui/x'') = ''ui/x''" by (simp add: sample_decl_def)
  show ?thesis
    by (rule declared_target_served [where d = "sample_decl ''a'' ''x'' ''ui/x''" and p = "sample_plugin ''a''",
          OF _ _ _ same, unfolded key])
      (simp_all add: sample_decls, simp add: sample_decl_def)
qed

text \<open>The map depends on the load order only through the three sort keys: the order in
  which the plugins were found does not matter, and neither do the user's enabled flags nor the
  engine's rejections, so a plugin switched off in load_order.toml still replaces assets.\<close>

theorem overlay_order_only:
  assumes "mset ps = mset qs" "distinct (map lp_name ps)"
    and "\<forall>p \<in> set ps. eff_priority (Of lo (lp_name p)) = eff_priority (Of lo' (lp_name p))
      \<and> eff_orderIndex (Of lo (lp_name p)) = eff_orderIndex (Of lo' (lp_name p))"
  shows "BuildOverlayMap env lo ps st = BuildOverlayMap env lo' qs st"
  by (rule BuildOverlayMap_perm) (use assms in \<open>auto simp: post_key_def\<close>)

theorem overlay_order_only_witness:
  "\<not> IsPluginEnabled (no_order\<lparr>g_effective := [''a'' \<mapsto> DefaultEffective\<lparr>userEnabled := False\<rparr>]\<rparr>) ''a''
   \<and> BuildOverlayMap sample_assets no_order [sample_plugin ''b'', sample_plugin ''a''] initial_ns =
     BuildOverlayMap sample_assets (no_order\<lparr>g_effective := [''a'' \<mapsto> DefaultEffective\<lparr>userEnabled := False\<rparr>]\<rparr>)
       [sample_plugin ''a'', sample_plugin ''b''] initial_ns"
proof
  show "\<not> IsPluginEnabled (no_order\<lparr>g_effective := [''a'' \<mapsto> DefaultEffective\<lparr>userEnabled := False\<rparr>]\<rparr>) ''a''"
    by (simp add: IsPluginEnabled_def Of_def)
  show "BuildOverlayMap sample_assets no_order [sample_plugin ''b'', sample_plugin ''a''] initial_ns =
     BuildOverlayMap sample_assets (no_order\<lparr>g_effective := [''a'' \<mapsto> DefaultEffective\<lparr>userEnabled := False\<rparr>]\<rparr>)
       [sample_plugin ''a'', sample_plugin ''b''] initial_ns"
    by (rule overlay_order_only) (simp_all add: sample_plugin_def Of_def)
qed

text \<open>Property C28.  The warning for boot assets, over any history of engine opens, the VM coming up and
  Lua registrations: registering a path warns exactly when the VM is up, the engine opened the
  path before the VM came up for the first time (again up to case and slashes), and no earlier
  registration after that moment was for the same path.\<close>

theorem boot_asset_warning:
  "snd (RegisterRuntimeOverlay v disk owner (after_events es)) \<longleftrightarrow>
     VmReady \<in> set es
     \<and> (\<exists>p. EngineOpens p \<in> set (takeWhile (\<lambda>e. e \<noteq> VmReady) es) \<and> NormalizeVPath p = NormalizeVPath v)
     \<and> \<not> registered_after_vm es (NormalizeVPath v)"
proof -
  have "ns_vmUp (after_events es) \<longleftrightarrow> VmReady \<in> set es" by (simp add: vmUp_after initial_ns_def)
  moreover have "NormalizeVPath v \<in> ns_bootOpened (after_events es) \<longleftrightarrow>
      (\<exists>p. EngineOpens p \<in> set (takeWhile (\<lambda>e. e \<noteq> VmReady) es) \<and> NormalizeVPath p = NormalizeVPath v)"
    by (simp add: bootOpened_after initial_ns_def)
  ultimately show ?thesis
    using bootWarned_after [of "NormalizeVPath v" es]
    by (auto simp: RegisterRuntimeOverlay_def Let_def WasBootOpened_def)
qed

end
