(* ===== verification/Pak_Reader.thy ===== *)
theory Pak_Reader
  imports Byte_Codec
begin

text \<open>
  src/fs_takeover/pak_reader.cpp: reading the central directory of a pak (a PKZIP file) and the
  bytes of one entry.

  A pak on disk is its bytes, or nothing when it cannot be opened; seeking and reading inside an
  opened file do not fail.  Sizes and offsets are natural numbers: every sum the code forms is of
  fields of at most 32 bits and stays below \<open>2^64\<close>.  A load from a buffer goes through \<open>readable\<close>:
  one outside the buffer would give the outcome \<open>Overread\<close>, which the code has no branch for, and
  which is proved never to happen.  miniz (inflate and CRC-32) is a parameter.
\<close>

section \<open>Format\<close>

definition kSigEOCD :: nat where "kSigEOCD = 0x06054b50"
definition kSigCDR :: nat where "kSigCDR = 0x02014b50"
definition kSigZip64EOCD :: nat where "kSigZip64EOCD = 0x06064b50"
definition kSigZip64Loc :: nat where "kSigZip64Loc = 0x07064b50"
definition kSigLFH :: nat where "kSigLFH = 0x04034b50"
definition kMethodStored :: nat where "kMethodStored = 0"
definition kMethodDeflate :: nat where "kMethodDeflate = 8"
definition kEOCDSize :: nat where "kEOCDSize = 22"
definition kCDRFixed :: nat where "kCDRFixed = 46"
definition kLFHFixed :: nat where "kLFHFixed = 30"
definition kMaxEntryBytes :: nat where "kMaxEntryBytes = 512 * 1024 * 1024"
definition kMaxCommentScan :: nat where "kMaxCommentScan = 0xFFFF + kEOCDSize"
definition kMaxEntries :: nat where "kMaxEntries = 5000000"
definition kMaxNameLen :: nat where "kMaxNameLen = 0x10000"
definition kZ16 :: nat where "kZ16 = 0xFFFF"
definition kZ32 :: nat where "kZ32 = 0xFFFFFFFF"

record pak_entry =
  pe_name :: string
  pe_local_header_offset :: nat
  pe_compressed_size :: nat
  pe_uncompressed_size :: nat
  pe_method :: nat
  pe_crc32 :: nat

datatype pak_error =
    PakOpenFailed
  | TooSmall
  | Zip64Record
  | NoEOCD
  | Zip64InEOCD
  | CommentNotAtEOF
  | MultiDisk
  | CDROutsideFile
  | CDRPastEOCD
  | TooManyEntries
  | CDRTooSmall
  | RecordPastCDR
  | BadRecordSignature nat
  | Zip64InEntry nat
  | NameTooLong
  | VariablePastCDR
  | OffsetNotBeforeCDR nat
  | CompressedTooBig
  | UncompressedTooBig
  | UnsupportedMethod
  | StoredSizesDiffer
  | HeaderPastEOF
  | BadLocalSignature
  | DataPastEOF
  | InflateFailed
  | InflatedShort
  | CRCMismatch
  | Overread

definition readable :: "bytes \<Rightarrow> nat \<Rightarrow> nat \<Rightarrow> bool" where
  "readable b i w \<longleftrightarrow> i + w \<le> length b"

definition field :: "nat \<Rightarrow> bytes \<Rightarrow> nat \<Rightarrow> nat" where
  "field w b i = le_val (take w (drop i b))"

abbreviation Read16 :: "bytes \<Rightarrow> nat \<Rightarrow> nat" where
  "Read16 \<equiv> field 2"

abbreviation Read32 :: "bytes \<Rightarrow> nat \<Rightarrow> nat" where
  "Read32 \<equiv> field 4"

text \<open>A sequence of early returns.\<close>

fun first_error :: "(bool \<times> 'e) list \<Rightarrow> 'e option" where
  "first_error [] = None"
| "first_error ((b, e) # cs) = (if b then Some e else first_error cs)"

section \<open>The central directory\<close>

text \<open>The forward loop over the tail.\<close>

definition zip64_in :: "bytes \<Rightarrow> bool" where
  "zip64_in tail \<longleftrightarrow>
     list_ex (\<lambda>i. Read32 tail i = kSigZip64EOCD \<or> Read32 tail i = kSigZip64Loc) [0..<length tail - 3]"

text \<open>The backward loop: the highest position below the bound with the signature.\<close>

primrec scan_back :: "bytes \<Rightarrow> nat \<Rightarrow> nat option" where
  "scan_back tail 0 = None"
| "scan_back tail (Suc i) = (if Read32 tail i = kSigEOCD then Some i else scan_back tail i)"

definition name_of :: "bytes \<Rightarrow> string" where
  "name_of b = map (\<lambda>x. char_of (unat x)) b"

definition cdr_entry :: "bytes \<Rightarrow> pak_entry" where
  "cdr_entry r =
     \<lparr>pe_name = name_of (take (Read16 r 28) (drop kCDRFixed r)), pe_local_header_offset = Read32 r 42,
      pe_compressed_size = Read32 r 20, pe_uncompressed_size = Read32 r 24, pe_method = Read16 r 10,
      pe_crc32 = Read32 r 16\<rparr>"

abbreviation var_len :: "bytes \<Rightarrow> nat" where
  "var_len r \<equiv> Read16 r 28 + Read16 r 30 + Read16 r 32"

text \<open>The checks on the record at a position, in their order; None lets it through.\<close>

definition header_readable :: "bytes \<Rightarrow> bool" where
  "header_readable r \<longleftrightarrow> readable r 0 4 \<and> readable r 10 2 \<and> readable r 16 4 \<and> readable r 20 4
     \<and> readable r 24 4 \<and> readable r 28 2 \<and> readable r 30 2 \<and> readable r 32 2 \<and> readable r 42 4"

definition record_error :: "bytes \<Rightarrow> nat \<Rightarrow> nat \<Rightarrow> nat \<Rightarrow> pak_error option" where
  "record_error cdr cdrOffset i pos =
     (let r = drop pos cdr; entry = cdr_entry r
      in first_error
          [(pos + kCDRFixed > length cdr, RecordPastCDR),
           (\<not> header_readable r, Overread),
           (Read32 r 0 \<noteq> kSigCDR, BadRecordSignature i),
           (pe_compressed_size entry = kZ32 \<or> pe_uncompressed_size entry = kZ32
              \<or> pe_local_header_offset entry = kZ32, Zip64InEntry i),
           (Read16 r 28 > kMaxNameLen, NameTooLong),
           (pos + kCDRFixed + var_len r > length cdr, VariablePastCDR),
           (\<not> readable r kCDRFixed (Read16 r 28), Overread),
           (pe_local_header_offset entry \<ge> cdrOffset, OffsetNotBeforeCDR i)])"

text \<open>The walk: record number, records left, position, entries so far.\<close>

primrec walk_cdr :: "bytes \<Rightarrow> nat \<Rightarrow> nat \<Rightarrow> nat \<Rightarrow> nat \<Rightarrow> pak_entry list \<Rightarrow> pak_error + pak_entry list" where
  "walk_cdr cdr cdrOffset i 0 pos outEntries = Inr outEntries"
| "walk_cdr cdr cdrOffset i (Suc left) pos outEntries =
     (case record_error cdr cdrOffset i pos of
        Some e \<Rightarrow> Inl e
      | None \<Rightarrow>
          walk_cdr cdr cdrOffset (i + 1) left (pos + (kCDRFixed + var_len (drop pos cdr)))
            (outEntries @ [cdr_entry (drop pos cdr)]))"

text \<open>The checks on the EOCD record at a position of the tail.\<close>

definition eocd_error :: "nat \<Rightarrow> nat \<Rightarrow> bytes \<Rightarrow> pak_error option" where
  "eocd_error fileSize eocdAbs e =
     (let entriesThisDisk = Read16 e 8; entriesTotal = Read16 e 10; cdrSize = Read32 e 12;
          cdrOffset = Read32 e 16; commentLen = Read16 e 20
      in first_error
          [(\<not> (readable e 8 2 \<and> readable e 10 2 \<and> readable e 12 4 \<and> readable e 16 4 \<and> readable e 20 2), Overread),
           (entriesTotal = kZ16 \<or> entriesThisDisk = kZ16 \<or> cdrSize = kZ32 \<or> cdrOffset = kZ32, Zip64InEOCD),
           (eocdAbs + kEOCDSize + commentLen \<noteq> fileSize, CommentNotAtEOF),
           (entriesThisDisk \<noteq> entriesTotal, MultiDisk),
           (cdrOffset > fileSize \<or> cdrSize > fileSize \<or> cdrOffset + cdrSize > fileSize, CDROutsideFile),
           (cdrOffset + cdrSize > eocdAbs, CDRPastEOCD),
           (entriesTotal > kMaxEntries, TooManyEntries),
           (entriesTotal \<noteq> 0 \<and> cdrSize < kCDRFixed, CDRTooSmall)])"

definition ParsePakCentralDirectory :: "bytes option \<Rightarrow> pak_error + pak_entry list" where
  "ParsePakCentralDirectory pak =
     (case pak of
        None \<Rightarrow> Inl PakOpenFailed
      | Some b \<Rightarrow>
          (let fileSize = length b; tailLen = min fileSize kMaxCommentScan; tailStart = fileSize - tailLen;
               tail = drop tailStart b
           in if fileSize < kEOCDSize then Inl TooSmall
              else if zip64_in tail then Inl Zip64Record
              else (case scan_back tail (length tail - kEOCDSize + 1) of
                      None \<Rightarrow> Inl NoEOCD
                    | Some eocd \<Rightarrow>
                        (let e = drop eocd tail
                         in case eocd_error fileSize (tailStart + eocd) e of
                              Some err \<Rightarrow> Inl err
                            | None \<Rightarrow>
                                walk_cdr (take (Read32 e 12) (drop (Read32 e 16) b)) (Read32 e 16) 0
                                  (Read16 e 10) 0 []))))"

section \<open>One entry\<close>

text \<open>\<open>inflate\<close> is given the compressed bytes and the room in the output buffer.\<close>

definition size_error :: "pak_entry \<Rightarrow> pak_error option" where
  "size_error entry =
     first_error
       [(pe_compressed_size entry > kMaxEntryBytes, CompressedTooBig),
        (pe_uncompressed_size entry > kMaxEntryBytes, UncompressedTooBig),
        (pe_method entry \<noteq> kMethodStored \<and> pe_method entry \<noteq> kMethodDeflate, UnsupportedMethod),
        (pe_method entry = kMethodStored \<and> pe_compressed_size entry \<noteq> pe_uncompressed_size entry, StoredSizesDiffer)]"

text \<open>The local header carries its own name and extra lengths; the data follows them.\<close>

definition data_start :: "bytes \<Rightarrow> nat \<Rightarrow> nat" where
  "data_start b off =
     (let lfh = take kLFHFixed (drop off b) in off + kLFHFixed + Read16 lfh 26 + Read16 lfh 28)"

definition local_error :: "bytes \<Rightarrow> pak_entry \<Rightarrow> pak_error option" where
  "local_error b entry =
     (let fileSize = length b; off = pe_local_header_offset entry; lfh = take kLFHFixed (drop off b)
      in first_error
          [(off > fileSize \<or> off + kLFHFixed > fileSize, HeaderPastEOF),
           (\<not> (readable lfh 0 4 \<and> readable lfh 26 2 \<and> readable lfh 28 2), Overread),
           (Read32 lfh 0 \<noteq> kSigLFH, BadLocalSignature),
           (data_start b off > fileSize \<or> data_start b off + pe_compressed_size entry > fileSize, DataPastEOF)])"

definition deliver :: "(bytes \<Rightarrow> nat \<Rightarrow> bytes option) \<Rightarrow> pak_entry \<Rightarrow> bytes \<Rightarrow> pak_error + bytes" where
  "deliver inflate entry compressed =
     (if pe_method entry = kMethodStored then Inr compressed
      else (case inflate compressed (pe_uncompressed_size entry) of
              None \<Rightarrow> Inl InflateFailed
            | Some out \<Rightarrow> if length out \<noteq> pe_uncompressed_size entry then Inl InflatedShort else Inr out))"

definition ReadPakEntry :: "(bytes \<Rightarrow> nat \<Rightarrow> bytes option) \<Rightarrow> (bytes \<Rightarrow> nat) \<Rightarrow> bytes option \<Rightarrow> pak_entry
    \<Rightarrow> pak_error + bytes" where
  "ReadPakEntry inflate crc32 pak entry =
     (case size_error entry of
        Some e \<Rightarrow> Inl e
      | None \<Rightarrow>
          (case pak of
             None \<Rightarrow> Inl PakOpenFailed
           | Some b \<Rightarrow>
               (case local_error b entry of
                  Some e \<Rightarrow> Inl e
                | None \<Rightarrow>
                    (case deliver inflate entry
                            (take (pe_compressed_size entry) (drop (data_start b (pe_local_header_offset entry)) b)) of
                       Inl e \<Rightarrow> Inl e
                     | Inr outBytes \<Rightarrow>
                         if crc32 outBytes \<noteq> pe_crc32 entry then Inl CRCMismatch else Inr outBytes))))"

section \<open>Lemmas: bounds\<close>

lemma first_error_None: "first_error cs = None \<longleftrightarrow> (\<forall>(b, e) \<in> set cs. \<not> b)"
  by (induction cs rule: first_error.induct) auto

lemma record_no_overread: "record_error cdr off i pos \<noteq> Some Overread"
proof (cases "pos + kCDRFixed > length cdr")
  case False
  then have "46 \<le> length (drop pos cdr)" by (auto simp: kCDRFixed_def)
  then have "header_readable (drop pos cdr)"
    unfolding header_readable_def readable_def by (intro conjI) linarith+
  moreover have "\<not> pos + kCDRFixed + var_len (drop pos cdr) > length cdr \<Longrightarrow>
      readable (drop pos cdr) kCDRFixed (Read16 (drop pos cdr) 28)"
    using False by (simp add: readable_def)
  ultimately show ?thesis using False by (simp add: record_error_def Let_def)
qed (simp add: record_error_def Let_def)

lemma walk_no_overread: "walk_cdr cdr off i n pos acc \<noteq> Inl Overread"
  by (induction n arbitrary: i pos acc) (auto simp: record_no_overread split: option.splits)

lemma scan_back_Some: "scan_back t n = Some i \<Longrightarrow> i < n \<and> Read32 t i = kSigEOCD"
  by (induction n) (auto split: if_splits simp: less_Suc_eq)

lemma le_val_bound: "le_val b < 256 ^ length b"
proof (induction b)
  case (Cons x b)
  have "unat x < 256" using unsigned_less [of x, where ?'a = nat] by simp
  then show ?case using Cons by simp
qed simp

lemma field_bound: "field w b i < 256 ^ w"
proof -
  have "le_val (take w (drop i b)) < 256 ^ length (take w (drop i b))" by (rule le_val_bound)
  also have "\<dots> \<le> 256 ^ w" by (rule power_increasing) simp_all
  finally show ?thesis by (simp add: field_def)
qed

text \<open>Every entry the walk accepts is in bounds.\<close>

definition entry_in :: "nat \<Rightarrow> pak_entry \<Rightarrow> bool" where
  "entry_in cdrOffset e \<longleftrightarrow> pe_local_header_offset e < cdrOffset \<and> pe_compressed_size e < kZ32
     \<and> pe_uncompressed_size e < kZ32 \<and> pe_method e < 2 ^ 16 \<and> pe_crc32 e < 2 ^ 32 \<and> length (pe_name e) < 2 ^ 16"

lemma cdr_entry_in:
  "pe_local_header_offset (cdr_entry r) < off \<Longrightarrow> pe_compressed_size (cdr_entry r) \<noteq> kZ32 \<Longrightarrow>
   pe_uncompressed_size (cdr_entry r) \<noteq> kZ32 \<Longrightarrow> entry_in off (cdr_entry r)"
  using field_bound [of 4 r 20] field_bound [of 4 r 24] field_bound [of 2 r 10] field_bound [of 4 r 16]
    field_bound [of 2 r 28]
  by (auto simp: entry_in_def cdr_entry_def kZ32_def name_of_def)

lemma record_ok:
  "record_error cdr off i pos = None \<Longrightarrow>
     entry_in off (cdr_entry (drop pos cdr)) \<and> pos + kCDRFixed + var_len (drop pos cdr) \<le> length cdr"
  by (simp add: record_error_def Let_def first_error_None cdr_entry_in del: first_error.simps)

lemma walk_entries_in:
  "walk_cdr cdr off i n pos acc = Inr es \<Longrightarrow> \<forall>e \<in> set acc. entry_in off e \<Longrightarrow>
     (\<forall>e \<in> set es. entry_in off e) \<and> length es = length acc + n"
proof (induction n arbitrary: i pos acc)
  case (Suc n)
  have ok: "record_error cdr off i pos = None" using Suc.prems(1) by (simp split: option.splits)
  have w: "walk_cdr cdr off (i + 1) n (pos + (kCDRFixed + var_len (drop pos cdr))) (acc @ [cdr_entry (drop pos cdr)]) = Inr es"
    using Suc.prems(1) ok by simp
  have "\<forall>e \<in> set (acc @ [cdr_entry (drop pos cdr)]). entry_in off e"
    using Suc.prems(2) record_ok [OF ok] by simp
  from Suc.IH [OF w this] show ?case by simp
qed simp

text \<open>The tail, and what the parser does with it, one decision at a time.\<close>

abbreviation tail_start :: "bytes \<Rightarrow> nat" where
  "tail_start b \<equiv> length b - min (length b) kMaxCommentScan"

abbreviation pak_tail :: "bytes \<Rightarrow> bytes" where
  "pak_tail b \<equiv> drop (tail_start b) b"

lemma parse_small: "length b < kEOCDSize \<Longrightarrow> ParsePakCentralDirectory (Some b) = Inl TooSmall"
  by (simp add: ParsePakCentralDirectory_def Let_def)

lemma parse_zip64:
  "kEOCDSize \<le> length b \<Longrightarrow> zip64_in (pak_tail b) \<Longrightarrow> ParsePakCentralDirectory (Some b) = Inl Zip64Record"
  by (simp add: ParsePakCentralDirectory_def Let_def)

lemma parse_no_eocd:
  "kEOCDSize \<le> length b \<Longrightarrow> \<not> zip64_in (pak_tail b)
     \<Longrightarrow> scan_back (pak_tail b) (length (pak_tail b) - kEOCDSize + 1) = None
     \<Longrightarrow> ParsePakCentralDirectory (Some b) = Inl NoEOCD"
  unfolding ParsePakCentralDirectory_def Let_def option.case by simp

lemma eocd_room:
  assumes "kEOCDSize \<le> length b" "scan_back (pak_tail b) (length (pak_tail b) - kEOCDSize + 1) = Some eocd"
  shows "eocd + kEOCDSize \<le> length (pak_tail b)"
proof -
  have "kEOCDSize \<le> length (pak_tail b)" using assms(1) by (simp add: kMaxCommentScan_def min_def)
  then show ?thesis using scan_back_Some [OF assms(2), THEN conjunct1] by arith
qed

lemma parse_eocd:
  assumes "kEOCDSize \<le> length b" "\<not> zip64_in (pak_tail b)"
    and sc: "scan_back (pak_tail b) (length (pak_tail b) - kEOCDSize + 1) = Some eocd"
  obtains e where "e = drop eocd (pak_tail b)" "kEOCDSize \<le> length e" "length e \<le> length b"
    "ParsePakCentralDirectory (Some b) =
       (case eocd_error (length b) (length b - length e) e of
          Some err \<Rightarrow> Inl err
        | None \<Rightarrow> walk_cdr (take (Read32 e 12) (drop (Read32 e 16) b)) (Read32 e 16) 0 (Read16 e 10) 0 [])"
proof -
  let ?e = "drop eocd (pak_tail b)"
  have big: "\<not> length b < kEOCDSize" using assms(1) by simp
  have room: "eocd + kEOCDSize \<le> length (pak_tail b)" by (rule eocd_room [OF assms(1) sc])
  have len: "length (pak_tail b) \<le> length b" by simp
  have e: "length ?e = length (pak_tail b) - eocd" by (rule length_drop)
  have "tail_start b + eocd = length b - length ?e"
    using room len unfolding e unfolding length_drop by arith
  then have "ParsePakCentralDirectory (Some b) =
       (case eocd_error (length b) (length b - length ?e) ?e of
          Some err \<Rightarrow> Inl err
        | None \<Rightarrow> walk_cdr (take (Read32 ?e 12) (drop (Read32 ?e 16) b)) (Read32 ?e 16) 0 (Read16 ?e 10) 0 [])"
    unfolding ParsePakCentralDirectory_def Let_def option.case
    by (simp only: big assms(2) sc if_False option.case)
  moreover have "kEOCDSize \<le> length ?e" "length ?e \<le> length b" using room len unfolding e by arith+
  ultimately show thesis using that [OF refl] by blast
qed

text \<open>A result without an error comes from an end record that passed its checks.\<close>

lemma parse_cases:
  assumes "ParsePakCentralDirectory (Some b) = Inr es"
  obtains e where "eocd_error (length b) (length b - length e) e = None" "length e \<le> length b"
    "walk_cdr (take (Read32 e 12) (drop (Read32 e 16) b)) (Read32 e 16) 0 (Read16 e 10) 0 [] = Inr es"
proof -
  have big: "kEOCDSize \<le> length b" using assms parse_small [of b] by (cases "kEOCDSize \<le> length b") auto
  have z: "\<not> zip64_in (pak_tail b)" using assms parse_zip64 [OF big] by auto
  obtain eocd where sc: "scan_back (pak_tail b) (length (pak_tail b) - kEOCDSize + 1) = Some eocd"
    using assms parse_no_eocd [OF big z] by (metis Inl_Inr_False option.exhaust)
  obtain e where e: "length e \<le> length b" "ParsePakCentralDirectory (Some b) =
       (case eocd_error (length b) (length b - length e) e of
          Some err \<Rightarrow> Inl err
        | None \<Rightarrow> walk_cdr (take (Read32 e 12) (drop (Read32 e 16) b)) (Read32 e 16) 0 (Read16 e 10) 0 [])"
    by (rule parse_eocd [OF big z sc]) blast
  show thesis
    using that [of e] e(1) assms unfolding e(2) by (cases "eocd_error (length b) (length b - length e) e") simp_all
qed

lemma parse_no_overread: "ParsePakCentralDirectory pak \<noteq> Inl Overread"
proof (cases pak)
  case (Some b)
  consider "length b < kEOCDSize" | "kEOCDSize \<le> length b" "zip64_in (pak_tail b)"
    | "kEOCDSize \<le> length b" "\<not> zip64_in (pak_tail b)"
      "scan_back (pak_tail b) (length (pak_tail b) - kEOCDSize + 1) = None"
    | (found) eocd where "kEOCDSize \<le> length b" "\<not> zip64_in (pak_tail b)"
      "scan_back (pak_tail b) (length (pak_tail b) - kEOCDSize + 1) = Some eocd"
    by (meson not_le option.exhaust)
  then show ?thesis
  proof cases
    case found
    obtain e where e: "kEOCDSize \<le> length e" "ParsePakCentralDirectory (Some b) =
       (case eocd_error (length b) (length b - length e) e of
          Some err \<Rightarrow> Inl err
        | None \<Rightarrow> walk_cdr (take (Read32 e 12) (drop (Read32 e 16) b)) (Read32 e 16) 0 (Read16 e 10) 0 [])"
      by (rule parse_eocd [OF found]) blast
    have "readable e 8 2 \<and> readable e 10 2 \<and> readable e 12 4 \<and> readable e 16 4 \<and> readable e 20 2"
      using e(1) unfolding readable_def kEOCDSize_def by (intro conjI) linarith+
    then have "eocd_error (length b) (length b - length e) e \<noteq> Some Overread"
      by (simp add: eocd_error_def Let_def)
    then show ?thesis
      unfolding Some e(2) by (cases "eocd_error (length b) (length b - length e) e") (simp_all add: walk_no_overread)
  next
    case 3
    show ?thesis unfolding Some parse_no_eocd [OF 3] by simp
  qed (simp_all add: Some parse_small parse_zip64)
qed (simp add: ParsePakCentralDirectory_def)

lemma read_no_overread: "ReadPakEntry inflate crc pak entry \<noteq> Inl Overread"
proof -
  have "local_error b entry \<noteq> Some Overread" for b
  proof (cases "pe_local_header_offset entry + kLFHFixed > length b")
    case False
    then have "30 \<le> length (take kLFHFixed (drop (pe_local_header_offset entry) b))"
      by (auto simp: kLFHFixed_def)
    then have "readable (take kLFHFixed (drop (pe_local_header_offset entry) b)) 0 4
        \<and> readable (take kLFHFixed (drop (pe_local_header_offset entry) b)) 26 2
        \<and> readable (take kLFHFixed (drop (pe_local_header_offset entry) b)) 28 2"
      unfolding readable_def by (intro conjI) linarith+
    then show ?thesis by (simp add: local_error_def Let_def)
  qed (simp add: local_error_def Let_def)
  then show ?thesis
    by (auto simp: ReadPakEntry_def size_error_def deliver_def split: option.splits sum.splits if_splits)
qed

section \<open>Writing a pak\<close>

text \<open>
  What the PKZIP specification lays down for an archive of one disk without a comment: the local
  headers with their data, the central directory, the end record.  The fields the reader does not
  look at are arbitrary bytes of the right length.
\<close>

record pak_member =
  zm_name :: bytes
  zm_method :: nat
  zm_crc :: nat
  zm_usize :: nat
  zm_data :: bytes
  zm_local :: bytes
  zm_localExtra :: bytes
  zm_head :: bytes
  zm_time :: bytes
  zm_attr :: bytes
  zm_extra :: bytes
  zm_comment :: bytes

definition member_ok :: "pak_member \<Rightarrow> bool" where
  "member_ok m \<longleftrightarrow> length (zm_name m) < 2 ^ 16 \<and> zm_method m < 2 ^ 16 \<and> zm_crc m < 2 ^ 32
     \<and> zm_usize m < kZ32 \<and> length (zm_data m) < kZ32 \<and> length (zm_local m) = 22
     \<and> length (zm_localExtra m) < 2 ^ 16 \<and> length (zm_head m) = 6 \<and> length (zm_time m) = 4
     \<and> length (zm_attr m) = 8 \<and> length (zm_extra m) < 2 ^ 16 \<and> length (zm_comment m) < 2 ^ 16"

definition local_bytes :: "pak_member \<Rightarrow> bytes" where
  "local_bytes m =
     le_bytes 4 kSigLFH @ zm_local m @ le_bytes 2 (length (zm_name m)) @ le_bytes 2 (length (zm_localExtra m))
       @ zm_name m @ zm_localExtra m @ zm_data m"

definition cdr_bytes :: "nat \<Rightarrow> pak_member \<Rightarrow> bytes" where
  "cdr_bytes off m =
     le_bytes 4 kSigCDR @ zm_head m @ le_bytes 2 (zm_method m) @ zm_time m @ le_bytes 4 (zm_crc m)
       @ le_bytes 4 (length (zm_data m)) @ le_bytes 4 (zm_usize m) @ le_bytes 2 (length (zm_name m))
       @ le_bytes 2 (length (zm_extra m)) @ le_bytes 2 (length (zm_comment m)) @ zm_attr m
       @ le_bytes 4 off @ zm_name m @ zm_extra m @ zm_comment m"

fun dir_bytes :: "nat \<Rightarrow> pak_member list \<Rightarrow> bytes" where
  "dir_bytes off [] = []"
| "dir_bytes off (m # ms) = cdr_bytes off m @ dir_bytes (off + length (local_bytes m)) ms"

definition body_bytes :: "pak_member list \<Rightarrow> bytes" where
  "body_bytes ms = concat (map local_bytes ms)"

definition eocd_bytes :: "pak_member list \<Rightarrow> bytes" where
  "eocd_bytes ms =
     le_bytes 4 kSigEOCD @ le_bytes 2 0 @ le_bytes 2 0 @ le_bytes 2 (length ms) @ le_bytes 2 (length ms)
       @ le_bytes 4 (length (dir_bytes 0 ms)) @ le_bytes 4 (length (body_bytes ms)) @ le_bytes 2 0"

definition pak_bytes :: "pak_member list \<Rightarrow> bytes" where
  "pak_bytes ms = body_bytes ms @ dir_bytes 0 ms @ eocd_bytes ms"

definition member_entry :: "nat \<Rightarrow> pak_member \<Rightarrow> pak_entry" where
  "member_entry off m =
     \<lparr>pe_name = name_of (zm_name m), pe_local_header_offset = off, pe_compressed_size = length (zm_data m),
      pe_uncompressed_size = zm_usize m, pe_method = zm_method m, pe_crc32 = zm_crc m\<rparr>"

fun member_entries :: "nat \<Rightarrow> pak_member list \<Rightarrow> pak_entry list" where
  "member_entries off [] = []"
| "member_entries off (m # ms) = member_entry off m # member_entries (off + length (local_bytes m)) ms"

definition pak_ok :: "pak_member list \<Rightarrow> bool" where
  "pak_ok ms \<longleftrightarrow> list_all member_ok ms \<and> length ms < kZ16 \<and> length (body_bytes ms) < kZ32
     \<and> length (dir_bytes 0 ms) < kZ32"

lemma field_skip: "length a \<le> i \<Longrightarrow> field w (a @ b) i = field w b (i - length a)"
  by (simp add: field_def)

lemma field_here: "v < 256 ^ w \<Longrightarrow> field w (le_bytes w v @ b) 0 = v"
  by (simp add: field_def le_val_le_bytes)

lemma field_end: "v < 256 ^ w \<Longrightarrow> field w (le_bytes w v) 0 = v"
  using field_here [of v w "[]"] by simp

lemma sig_bounds [simp]:
  "kSigCDR < 4294967296" "kSigEOCD < 4294967296" "kSigLFH < 4294967296"
  by (simp_all add: kSigCDR_def kSigEOCD_def kSigLFH_def)

lemma cdr_fields:
  assumes "member_ok m" "off < kZ32"
  shows "Read32 (cdr_bytes off m @ t) 0 = kSigCDR" "Read16 (cdr_bytes off m @ t) 10 = zm_method m"
    "Read32 (cdr_bytes off m @ t) 16 = zm_crc m" "Read32 (cdr_bytes off m @ t) 20 = length (zm_data m)"
    "Read32 (cdr_bytes off m @ t) 24 = zm_usize m" "Read16 (cdr_bytes off m @ t) 28 = length (zm_name m)"
    "Read16 (cdr_bytes off m @ t) 30 = length (zm_extra m)" "Read16 (cdr_bytes off m @ t) 32 = length (zm_comment m)"
    "Read32 (cdr_bytes off m @ t) 42 = off" "take (length (zm_name m)) (drop 46 (cdr_bytes off m @ t)) = zm_name m"
  using assms unfolding cdr_bytes_def member_ok_def kZ32_def
  by (simp_all add: field_skip field_here)

lemma length_cdr_bytes: "member_ok m \<Longrightarrow>
    length (cdr_bytes off m) = 46 + length (zm_name m) + length (zm_extra m) + length (zm_comment m)"
  by (simp add: cdr_bytes_def member_ok_def)

lemma record_error_member:
  assumes "member_ok m" "off < cdrOffset" "off < kZ32"
  shows "record_error (pre @ cdr_bytes off m @ t) cdrOffset i (length pre) = None"
    "cdr_entry (cdr_bytes off m @ t) = member_entry off m"
    "var_len (cdr_bytes off m @ t) = length (zm_name m) + length (zm_extra m) + length (zm_comment m)"
proof -
  note f = cdr_fields [OF assms(1,3), of t]
  show e: "cdr_entry (cdr_bytes off m @ t) = member_entry off m"
    by (simp only: cdr_entry_def member_entry_def f kCDRFixed_def)
  show v: "var_len (cdr_bytes off m @ t) = length (zm_name m) + length (zm_extra m) + length (zm_comment m)"
    by (simp add: f)
  have "46 \<le> length (cdr_bytes off m @ t)" using length_cdr_bytes [OF assms(1), of off] by simp
  then have "header_readable (cdr_bytes off m @ t)"
    unfolding header_readable_def readable_def by (intro conjI) linarith+
  moreover have "length (zm_name m) \<le> kMaxNameLen" "zm_usize m \<noteq> kZ32" "length (zm_data m) \<noteq> kZ32" "off \<noteq> kZ32"
    using assms by (auto simp: member_ok_def kMaxNameLen_def)
  ultimately show "record_error (pre @ cdr_bytes off m @ t) cdrOffset i (length pre) = None"
    using assms(2)
    by (simp add: record_error_def e f(1,6-8) member_entry_def readable_def length_cdr_bytes [OF assms(1)] kCDRFixed_def)
qed

lemma walk_members:
  assumes "list_all member_ok ms" "off + length (body_bytes ms) \<le> cdrOffset" "cdrOffset < kZ32"
  shows "walk_cdr (pre @ dir_bytes off ms) cdrOffset i (length ms) (length pre) acc = Inr (acc @ member_entries off ms)"
  using assms
proof (induction ms arbitrary: off pre i acc)
  case (Cons m ms)
  have m: "member_ok m" "off < cdrOffset" "off < kZ32"
    using Cons.prems by (auto simp: body_bytes_def local_bytes_def)
  let ?off = "off + length (local_bytes m)"
  note r = record_error_member(1) [OF m, of pre "dir_bytes ?off ms"] record_error_member(2) [OF m, of "dir_bytes ?off ms"]
  have d: "drop (length pre) (pre @ cdr_bytes off m @ dir_bytes ?off ms) = cdr_bytes off m @ dir_bytes ?off ms"
    by simp
  have n: "length pre + (kCDRFixed + var_len (cdr_bytes off m @ dir_bytes ?off ms)) = length (pre @ cdr_bytes off m)"
    by (simp add: record_error_member(3) [OF m] length_cdr_bytes [OF m(1)] kCDRFixed_def)
  have "walk_cdr ((pre @ cdr_bytes off m) @ dir_bytes ?off ms) cdrOffset (i + 1) (length ms)
      (length (pre @ cdr_bytes off m)) (acc @ [member_entry off m])
      = Inr ((acc @ [member_entry off m]) @ member_entries ?off ms)"
    by (rule Cons.IH) (use Cons.prems in \<open>simp_all add: body_bytes_def\<close>)
  then have w: "walk_cdr (pre @ cdr_bytes off m @ dir_bytes ?off ms) cdrOffset (i + 1) (length ms)
      (length (pre @ cdr_bytes off m)) (acc @ [member_entry off m]) = Inr (acc @ member_entries off (m # ms))"
    by simp
  show ?case
    unfolding dir_bytes.simps list.size(4) add_0_right add_Suc_right walk_cdr.simps r(1) d n r(2) option.case
    by (rule w)
qed simp

lemma eocd_fields:
  assumes "pak_ok ms"
  shows "length (eocd_bytes ms) = 22" "Read32 (eocd_bytes ms) 0 = kSigEOCD" "Read16 (eocd_bytes ms) 8 = length ms"
    "Read16 (eocd_bytes ms) 10 = length ms" "Read32 (eocd_bytes ms) 12 = length (dir_bytes 0 ms)"
    "Read32 (eocd_bytes ms) 16 = length (body_bytes ms)" "Read16 (eocd_bytes ms) 20 = 0"
  using assms unfolding eocd_bytes_def pak_ok_def kZ16_def kZ32_def
  by (simp_all add: field_skip field_here field_end)

lemma dir_length: "list_all member_ok ms \<Longrightarrow> ms \<noteq> [] \<Longrightarrow> 46 \<le> length (dir_bytes off ms)"
  by (cases ms) (simp_all add: length_cdr_bytes)

lemma eocd_accepted:
  assumes "pak_ok ms"
  shows "eocd_error (length (pak_bytes ms)) (length (body_bytes ms @ dir_bytes 0 ms)) (eocd_bytes ms) = None"
proof -
  note f = eocd_fields [OF assms]
  have "readable (eocd_bytes ms) 8 2" "readable (eocd_bytes ms) 10 2" "readable (eocd_bytes ms) 12 4"
    "readable (eocd_bytes ms) 16 4" "readable (eocd_bytes ms) 20 2"
    by (simp_all add: readable_def f(1))
  moreover have "length ms \<noteq> kZ16" "length (dir_bytes 0 ms) \<noteq> kZ32" "length (body_bytes ms) \<noteq> kZ32"
    "length ms \<le> kMaxEntries"
    using assms by (auto simp: pak_ok_def kZ16_def kMaxEntries_def)
  moreover have "ms = [] \<or> \<not> length (dir_bytes 0 ms) < kCDRFixed"
    using dir_length [of ms 0] assms by (auto simp: pak_ok_def kCDRFixed_def)
  ultimately show ?thesis
    by (simp add: eocd_error_def f pak_bytes_def kEOCDSize_def)
qed

lemma parse_pak_bytes:
  assumes ok: "pak_ok ms"
  shows "ParsePakCentralDirectory (Some (pak_bytes ms)) =
    (if zip64_in (drop (length (pak_bytes ms) - kMaxCommentScan) (pak_bytes ms)) then Inl Zip64Record
     else Inr (member_entries 0 ms))"
proof -
  let ?X = "body_bytes ms @ dir_bytes 0 ms" and ?E = "eocd_bytes ms"
  let ?b = "pak_bytes ms"
  let ?s = "length ?b - min (length ?b) kMaxCommentScan"
  note f = eocd_fields [OF ok]
  have b: "?b = ?X @ ?E" by (simp add: pak_bytes_def)
  have len: "length ?b = length ?X + 22" by (simp add: b f(1))
  have s: "?s = length ?b - kMaxCommentScan" "?s \<le> length ?X"
    using len by (simp_all add: min_def kMaxCommentScan_def kEOCDSize_def)
  have "drop k (?X @ ?E) = drop k ?X @ ?E" if "k \<le> length ?X" for k using that by simp
  from this [OF s(2)] have tl: "drop ?s ?b = drop ?s ?X @ ?E" by (simp only: b [symmetric])
  have pos: "length (drop ?s ?b) - kEOCDSize + 1 = Suc (length (drop ?s ?X))"
    unfolding tl by (simp add: f(1) kEOCDSize_def)
  have "Read32 (drop ?s ?X @ ?E) (length (drop ?s ?X)) = kSigEOCD"
    by (subst field_skip) (simp_all add: f(2))
  then have sc: "scan_back (drop ?s ?b) (length (drop ?s ?b) - kEOCDSize + 1) = Some (length (drop ?s ?X))"
    unfolding pos unfolding tl by simp
  have e: "drop (length (drop ?s ?X)) (drop ?s ?b) = ?E" unfolding tl by simp
  have at: "?s + length (drop ?s ?X) = length ?X" using s(2) by (simp only: length_drop)
  have dir: "take (length (dir_bytes 0 ms)) (drop (length (body_bytes ms)) ?b) = dir_bytes 0 ms"
    by (simp add: pak_bytes_def)
  have w: "walk_cdr (dir_bytes 0 ms) (length (body_bytes ms)) 0 (length ms) 0 [] = Inr (member_entries 0 ms)"
    using walk_members [of ms 0 "length (body_bytes ms)" "[]" 0 "[]"] ok by (simp add: pak_ok_def)
  have big: "\<not> length ?b < kEOCDSize" using len by (simp add: kEOCDSize_def)
  show ?thesis
    unfolding ParsePakCentralDirectory_def option.case Let_def sc e at eocd_accepted [OF ok]
    using big by (simp add: f dir w s(1) [symmetric])
qed

text \<open>One member of the archive.\<close>

lemma member_entries_nth:
  "i < length ms \<Longrightarrow> member_entries off ms ! i = member_entry (off + length (body_bytes (take i ms))) (ms ! i)"
proof (induction ms arbitrary: off i)
  case (Cons m ms)
  then show ?case by (cases i) (simp_all add: body_bytes_def add.assoc)
qed simp

lemma length_member_entries [simp]: "length (member_entries off ms) = length ms"
  by (induction ms arbitrary: off) simp_all

lemma pak_bytes_at:
  assumes "i < length ms"
  obtains t where "pak_bytes ms = body_bytes (take i ms) @ local_bytes (ms ! i) @ t"
proof -
  have "body_bytes ms = body_bytes (take i ms) @ local_bytes (ms ! i) @ body_bytes (drop (Suc i) ms)"
    using assms by (metis append_Cons append_Nil append_assoc body_bytes_def concat.simps(2) concat_append
        id_take_nth_drop list.simps(9) map_append)
  then show thesis using that by (simp add: pak_bytes_def)
qed

lemma local_fields:
  assumes "member_ok m"
  shows "length (local_bytes m) = 30 + length (zm_name m) + length (zm_localExtra m) + length (zm_data m)"
    "Read32 (local_bytes m @ t) 0 = kSigLFH" "Read16 (local_bytes m @ t) 26 = length (zm_name m)"
    "Read16 (local_bytes m @ t) 28 = length (zm_localExtra m)"
  using assms unfolding local_bytes_def member_ok_def
  by (simp_all add: field_skip field_here)

lemma field_take: "i + w \<le> n \<Longrightarrow> field w (take n b) i = field w b i"
  by (simp add: field_def drop_take min_def)

text \<open>The reader does not look at the entry's name.\<close>

lemma ReadPakEntry_name: "ReadPakEntry inflate crc pak (e\<lparr>pe_name := v\<rparr>) = ReadPakEntry inflate crc pak e"
proof -
  let ?e = "e\<lparr>pe_name := v\<rparr>"
  have "size_error ?e = size_error e" "\<And>b. local_error b ?e = local_error b e" "\<And>b. deliver inflate ?e b = deliver inflate e b"
    by (simp_all add: size_error_def local_error_def deliver_def del: first_error.simps split: option.split)
  then show ?thesis by (simp add: ReadPakEntry_def split: option.split sum.split)
qed

text \<open>What the entry's data stands for.\<close>

definition plain_data :: "(bytes \<Rightarrow> nat \<Rightarrow> bytes option) \<Rightarrow> pak_member \<Rightarrow> bytes \<Rightarrow> bool" where
  "plain_data inflate m out \<longleftrightarrow> length out = zm_usize m
     \<and> (zm_method m = kMethodStored \<and> zm_data m = out
        \<or> zm_method m = kMethodDeflate \<and> inflate (zm_data m) (zm_usize m) = Some out)"

lemma read_member:
  assumes "pak_ok ms" "i < length ms" "plain_data inflate (ms ! i) out" "crc32 out = zm_crc (ms ! i)"
    "length (zm_data (ms ! i)) \<le> kMaxEntryBytes" "zm_usize (ms ! i) \<le> kMaxEntryBytes"
  shows "ReadPakEntry inflate crc32 (Some (pak_bytes ms)) (member_entries 0 ms ! i) = Inr out"
proof -
  let ?m = "ms ! i" and ?pre = "body_bytes (take i ms)"
  obtain t where b: "pak_bytes ms = ?pre @ local_bytes ?m @ t" by (rule pak_bytes_at [OF assms(2)])
  have e: "member_entries 0 ms ! i = member_entry (length ?pre) ?m"
    using member_entries_nth [OF assms(2), of 0] by simp
  have mok: "member_ok ?m" using assms(1,2) by (simp add: pak_ok_def list_all_length)
  note f = local_fields [OF mok] and f0 = local_fields(2-4) [OF mok, of "[]", simplified]
  have hd: "take kLFHFixed (drop (length ?pre) (pak_bytes ms)) = take 30 (local_bytes ?m @ t)"
    by (simp only: b kLFHFixed_def append_eq_conv_conj [symmetric] drop_append) simp
  have ds: "data_start (pak_bytes ms) (length ?pre) = length ?pre + 30 + length (zm_name ?m) + length (zm_localExtra ?m)"
    unfolding data_start_def hd Let_def by (simp add: field_take f f0 kLFHFixed_def)
  have "drop (30 + length (zm_name ?m) + length (zm_localExtra ?m)) (local_bytes ?m @ t) = zm_data ?m @ t"
    using mok by (simp add: local_bytes_def member_ok_def)
  then have dat: "take (length (zm_data ?m)) (drop (data_start (pak_bytes ms) (length ?pre)) (pak_bytes ms)) = zm_data ?m"
    unfolding ds by (simp add: b add.assoc)
  have len: "length (pak_bytes ms) = length ?pre + length (local_bytes ?m) + length t" by (simp add: b)
  have sz: "size_error (member_entry (length ?pre) ?m) = None"
    using assms(3,5,6) by (auto simp: size_error_def member_entry_def plain_data_def kMethodStored_def kMethodDeflate_def)
  have "readable (take 30 (local_bytes ?m @ t)) 0 4 \<and> readable (take 30 (local_bytes ?m @ t)) 26 2
      \<and> readable (take 30 (local_bytes ?m @ t)) 28 2"
    by (simp add: readable_def f(1))
  moreover have "Read32 (take 30 (local_bytes ?m @ t)) 0 = kSigLFH" by (simp only: field_take f)
  ultimately have lc: "local_error (pak_bytes ms) (member_entry (length ?pre) ?m) = None"
    by (simp add: local_error_def Let_def member_entry_def hd [unfolded kLFHFixed_def] ds len f(1) kLFHFixed_def)
  have dl: "deliver inflate (member_entry (length ?pre) ?m) (zm_data ?m) = Inr out"
    using assms(3) by (auto simp: deliver_def member_entry_def plain_data_def kMethodStored_def kMethodDeflate_def)
  show ?thesis
    unfolding e ReadPakEntry_def sz lc option.case
    using dat dl assms(4) by (simp add: member_entry_def)
qed

section \<open>Properties\<close>


text \<open>Property C30.  An archive written as the format prescribes (one disk, no comment, fewer than 65535
  members and less than 4 GB) is parsed to exactly its members in order, and each member whose
  sizes are within the reader's limit is read back as its plain bytes, stored or deflated,
  provided the recorded checksum is the one of these bytes.  The only obstacle is the zip64 scan:
  where one of its two signatures occurs anywhere in the last 65557 bytes, data included, the
  archive is refused as zip64.\<close>

theorem pak_roundtrip:
  assumes "pak_ok ms"
  shows "if zip64_in (drop (length (pak_bytes ms) - 65557) (pak_bytes ms))
    then ParsePakCentralDirectory (Some (pak_bytes ms)) = Inl Zip64Record
    else \<exists>es. ParsePakCentralDirectory (Some (pak_bytes ms)) = Inr es \<and> length es = length ms
      \<and> (\<forall>i < length ms. pe_name (es ! i) = name_of (zm_name (ms ! i))
          \<and> (\<forall>out. plain_data inflate (ms ! i) out \<and> crc out = zm_crc (ms ! i)
              \<and> length (zm_data (ms ! i)) \<le> kMaxEntryBytes \<and> zm_usize (ms ! i) \<le> kMaxEntryBytes
              \<longrightarrow> ReadPakEntry inflate crc (Some (pak_bytes ms)) (es ! i) = Inr out))"
proof (cases "zip64_in (drop (length (pak_bytes ms) - 65557) (pak_bytes ms))")
  case True
  then show ?thesis
    using parse_pak_bytes [OF assms] by (simp add: kMaxCommentScan_def kEOCDSize_def)
next
  case False
  then have p: "ParsePakCentralDirectory (Some (pak_bytes ms)) = Inr (member_entries 0 ms)"
    using parse_pak_bytes [OF assms] by (simp add: kMaxCommentScan_def kEOCDSize_def)
  have "pe_name (member_entries 0 ms ! i) = name_of (zm_name (ms ! i))" if "i < length ms" for i
    using member_entries_nth [OF that, of 0] by (simp add: member_entry_def)
  then show ?thesis using False p read_member [OF assms] by auto
qed

definition one_member :: pak_member where
  "one_member =
     \<lparr>zm_name = [0x61], zm_method = 0, zm_crc = 7, zm_usize = 2, zm_data = [1, 2], zm_local = replicate 22 0,
      zm_localExtra = [], zm_head = replicate 6 0, zm_time = replicate 4 0, zm_attr = replicate 8 0,
      zm_extra = [], zm_comment = []\<rparr>"

theorem pak_roundtrip_witness:
  "if zip64_in (drop (length (pak_bytes [one_member]) - 65557) (pak_bytes [one_member]))
    then ParsePakCentralDirectory (Some (pak_bytes [one_member])) = Inl Zip64Record
    else \<exists>es. ParsePakCentralDirectory (Some (pak_bytes [one_member])) = Inr es \<and> length es = length [one_member]
      \<and> (\<forall>i < length [one_member]. pe_name (es ! i) = name_of (zm_name ([one_member] ! i))
          \<and> (\<forall>out. plain_data (\<lambda>b n. None) ([one_member] ! i) out \<and> sum_list (map unat out) + 4 = zm_crc ([one_member] ! i)
              \<and> length (zm_data ([one_member] ! i)) \<le> kMaxEntryBytes \<and> zm_usize ([one_member] ! i) \<le> kMaxEntryBytes
              \<longrightarrow> ReadPakEntry (\<lambda>b n. None) (\<lambda>out. sum_list (map unat out) + 4) (Some (pak_bytes [one_member])) (es ! i) = Inr out))"
  by (rule pak_roundtrip)
    (simp add: pak_ok_def member_ok_def one_member_def kZ16_def kZ32_def body_bytes_def local_bytes_def cdr_bytes_def)

end
