(* ===== verification/Asset_Index.thy ===== *)
theory Asset_Index
  imports Pak_Reader Asset_Overlay Enabled_List
begin

text \<open>
  src/fs_takeover/asset_index.cpp: the index from asset paths to byte sources, built from every pak
  under the two game folders and from the overlay map, and the lookup every open goes through.

  The disk is a function from paths to trees, as in Asset_Sidecar; the walk visits a folder's
  entries in the order of the tree, a subfolder's contents before its next sibling.
  \<open>weakly_canonical\<close> of std::filesystem, which asks the disk about links, is the parameter
  \<open>canon\<close>; None is its error.  The counters are only logged and are left out.
\<close>

section \<open>State\<close>

datatype byte_source =
    Loose string
  | Pak (pakFile: fs_path) (offset: nat) (size: nat) (compressed: nat) (zip_method: nat) (crc: nat)

type_synonym asset_index = "string \<rightharpoonup> byte_source"

section \<open>Building the index\<close>

definition parent_path :: "fs_path \<Rightarrow> fs_path" where
  "parent_path p = p\<lparr>fp_names := butlast (fp_names p)\<rparr>"

definition fs_relative :: "(fs_path \<Rightarrow> fs_path option) \<Rightarrow> fs_path \<Rightarrow> fs_path \<Rightarrow> fs_path option" where
  "fs_relative canon p base =
     (case (canon p, canon base) of (Some a, Some b) \<Rightarrow> Some (lexically_relative a b) | _ \<Rightarrow> None)"

definition BindRootOf :: "(fs_path \<Rightarrow> fs_path option) \<Rightarrow> fs_path \<Rightarrow> fs_path \<Rightarrow> string" where
  "BindRootOf canon pakPath root =
     (case fs_relative canon (parent_path pakPath) root of
        None \<Rightarrow> []
      | Some rel \<Rightarrow>
          (let s = path_string rel
           in if s = ''.'' then [] else trim_by (\<lambda>c. c = CHR ''/'') (NormalizeVPath s)))"

fun paks_below :: "fs_path \<Rightarrow> node \<Rightarrow> fs_path list"
  and paks_in :: "fs_path \<Rightarrow> entry list \<Rightarrow> fs_path list"
  and paks_at :: "fs_path \<Rightarrow> entry \<Rightarrow> fs_path list" where
  "paks_below d (NFile f) = []"
| "paks_below d (NDir es) = paks_in d es"
| "paks_in d [] = []"
| "paks_in d (e # es) = paks_at d e @ paks_in d es"
| "paks_at d (Entry n x) =
     (case x of
        NFile f \<Rightarrow> if is_pak_file (Entry n x) then [path_child d n] else []
      | NDir es \<Rightarrow> paks_below (path_child d n) x)"

definition file_bytes :: "(fs_path \<Rightarrow> node option) \<Rightarrow> fs_path \<Rightarrow> bytes option" where
  "file_bytes disk p = (case disk p of Some (NFile (Content t)) \<Rightarrow> Some (char_bytes t) | _ \<Rightarrow> None)"

definition pak_source :: "fs_path \<Rightarrow> pak_entry \<Rightarrow> byte_source" where
  "pak_source pakPath pe =
     Pak pakPath (pe_local_header_offset pe) (pe_uncompressed_size pe) (pe_compressed_size pe)
       (pe_method pe) (pe_crc32 pe)"

definition entry_key :: "string \<Rightarrow> pak_entry \<Rightarrow> string" where
  "entry_key bindRoot pe =
     (let key = NormalizeVPath (pe_name pe)
      in if bindRoot \<noteq> [] then bindRoot @ ''/'' @ key else key)"

text \<open>A pak that does not parse is skipped; a later entry replaces an earlier one.\<close>

definition IndexPak :: "(fs_path \<Rightarrow> fs_path option) \<Rightarrow> (fs_path \<Rightarrow> node option) \<Rightarrow> fs_path \<Rightarrow> fs_path
    \<Rightarrow> asset_index \<Rightarrow> asset_index" where
  "IndexPak canon disk root pakPath index =
     (let bindRoot = BindRootOf canon pakPath root
      in case ParsePakCentralDirectory (file_bytes disk pakPath) of
           Inl e \<Rightarrow> index
         | Inr es \<Rightarrow> fold (\<lambda>pe index. index(entry_key bindRoot pe \<mapsto> pak_source pakPath pe)) es index)"

definition IndexPakRoot :: "(fs_path \<Rightarrow> fs_path option) \<Rightarrow> (fs_path \<Rightarrow> node option) \<Rightarrow> string
    \<Rightarrow> asset_index \<Rightarrow> asset_index" where
  "IndexPakRoot canon disk rootDir index =
     (let root = parse_path rootDir
      in case disk root of
           Some (NDir es) \<Rightarrow> fold (IndexPak canon disk root) (paks_below root (NDir es)) index
         | _ \<Rightarrow> index)"

definition BuildAssetIndex :: "(fs_path \<Rightarrow> fs_path option) \<Rightarrow> (fs_path \<Rightarrow> node option) \<Rightarrow> string \<Rightarrow> string
    \<Rightarrow> overlay_map \<Rightarrow> asset_index" where
  "BuildAssetIndex canon disk gameDataDir engineDir overlay =
     (let index = Map.empty;
          index = (if gameDataDir \<noteq> [] then IndexPakRoot canon disk gameDataDir index else index);
          index = (if engineDir \<noteq> [] then IndexPakRoot canon disk engineDir index else index)
      in (\<lambda>vpath. case overlay vpath of Some oe \<Rightarrow> Some (Loose (path_string (oe_diskPath oe))) | None \<Rightarrow> index vpath))"

section \<open>Lookup\<close>

definition kEngineAlias :: string where
  "kEngineAlias = ''%engine%/''"

definition kGameShadersAlias :: string where
  "kGameShadersAlias = ''data/gameshaders/''"

definition kShadersRoot :: string where
  "kShadersRoot = ''shaders/''"

definition FoldEngineAliasToIndexKey :: "string \<Rightarrow> string" where
  "FoldEngineAliasToIndexKey key =
     (if starts_with kEngineAlias key then drop (length kEngineAlias) key
      else if starts_with kGameShadersAlias key then kShadersRoot @ drop (length kGameShadersAlias) key
      else key)"

definition ResolveVPath :: "asset_index \<Rightarrow> string \<Rightarrow> byte_source option" where
  "ResolveVPath index vpath = index (FoldEngineAliasToIndexKey (NormalizeVPath vpath))"

text \<open>The store of the built index: the index, and whether it was set.\<close>

type_synonym index_store = "asset_index \<times> bool"

definition SetBuiltIndex :: "asset_index \<Rightarrow> index_store \<Rightarrow> index_store" where
  "SetBuiltIndex index st = (if snd st then st else (index, True))"

definition GetBuiltIndex :: "index_store \<Rightarrow> asset_index" where
  "GetBuiltIndex st = fst st"

section \<open>The index as a stack of layers\<close>

text \<open>
  What an index promises: the overlay above the archives, and the archives as a list of mounted
  entries of which the last one with a key counts.
\<close>

definition pak_mounts :: "(fs_path \<Rightarrow> fs_path option) \<Rightarrow> (fs_path \<Rightarrow> node option) \<Rightarrow> fs_path \<Rightarrow> fs_path
    \<Rightarrow> (string \<times> byte_source) list" where
  "pak_mounts canon disk root pakPath =
     (case ParsePakCentralDirectory (file_bytes disk pakPath) of
        Inl e \<Rightarrow> []
      | Inr es \<Rightarrow> map (\<lambda>pe. (entry_key (BindRootOf canon pakPath root) pe, pak_source pakPath pe)) es)"

definition root_mounts :: "(fs_path \<Rightarrow> fs_path option) \<Rightarrow> (fs_path \<Rightarrow> node option) \<Rightarrow> string
    \<Rightarrow> (string \<times> byte_source) list" where
  "root_mounts canon disk dir =
     (if dir = [] then []
      else (case disk (parse_path dir) of
              Some (NDir es) \<Rightarrow> concat (map (pak_mounts canon disk (parse_path dir)) (paks_below (parse_path dir) (NDir es)))
            | _ \<Rightarrow> []))"

definition layered_lookup :: "overlay_map \<Rightarrow> (string \<times> byte_source) list \<Rightarrow> string \<Rightarrow> byte_source option" where
  "layered_lookup overlay mounts key =
     (case overlay key of
        Some oe \<Rightarrow> Some (Loose (path_string (oe_diskPath oe)))
      | None \<Rightarrow> map_option snd (find (\<lambda>(k, s). k = key) (rev mounts)))"

lemma fold_upds: "fold (\<lambda>x m. m(f x \<mapsto> g x)) xs m = m ++ map_of (rev (map (\<lambda>x. (f x, g x)) xs))"
  by (induction xs arbitrary: m) (simp_all add: map_add_assoc [symmetric])

lemma IndexPak_mounts: "IndexPak canon disk root p m = m ++ map_of (rev (pak_mounts canon disk root p))"
  by (simp add: IndexPak_def pak_mounts_def Let_def fold_upds split: sum.split)

lemma fold_IndexPak:
  "fold (IndexPak canon disk root) ps m = m ++ map_of (rev (concat (map (pak_mounts canon disk root) ps)))"
  by (induction ps arbitrary: m) (simp_all add: IndexPak_mounts map_of_append)

lemma IndexPakRoot_mounts: "dir \<noteq> [] \<Longrightarrow> IndexPakRoot canon disk dir m = m ++ map_of (rev (root_mounts canon disk dir))"
  by (simp add: IndexPakRoot_def root_mounts_def Let_def fold_IndexPak del: paks_below.simps
      split: option.split node.split)

lemma find_key: "map_option snd (find (\<lambda>(k, s). k = key) xs) = map_of xs key"
  by (induction xs) auto

lemma BuildAssetIndex_layers:
  "BuildAssetIndex canon disk data engine overlay = layered_lookup overlay (root_mounts canon disk data @ root_mounts canon disk engine)"
proof -
  have h: "(if dir \<noteq> [] then IndexPakRoot canon disk dir m else m) = m ++ map_of (rev (root_mounts canon disk dir))" for dir m
    by (simp add: IndexPakRoot_mounts) (simp add: root_mounts_def)
  show ?thesis
    unfolding BuildAssetIndex_def Let_def h layered_lookup_def find_key rev_append map_of_append empty_map_add
    by (rule refl)
qed

lemma drop_prefix_ne: "starts_with p s \<Longrightarrow> p \<noteq> [] \<Longrightarrow> drop (length p) s \<noteq> s"
  by (metis append_self_conv2 starts_with_drop)

lemma FoldEngineAlias_changed:
  "FoldEngineAliasToIndexKey k \<noteq> k \<longleftrightarrow> starts_with kEngineAlias k \<or> starts_with kGameShadersAlias k"
proof -
  have "kShadersRoot @ drop (length kGameShadersAlias) k \<noteq> k" if "starts_with kGameShadersAlias k"
  proof
    assume "kShadersRoot @ drop (length kGameShadersAlias) k = k"
    then have "kShadersRoot @ drop (length kGameShadersAlias) k = kGameShadersAlias @ drop (length kGameShadersAlias) k"
      using starts_with_drop [OF that] by simp
    then show False by (simp add: kShadersRoot_def kGameShadersAlias_def)
  qed
  then show ?thesis
    using drop_prefix_ne [of kEngineAlias k] by (auto simp: FoldEngineAliasToIndexKey_def kEngineAlias_def)
qed

section \<open>Properties\<close>

text \<open>Property C32.  The index refines a stack of layers.  Whatever the two game folders and the
  overlay map hold, a lookup answers with the mod file of the overlay at the folded key if there is
  one, and otherwise with the last entry mounted under that key, in the order data folder, engine
  folder, each pak's entries under the folder the pak lies in; entries of paks that do not parse are
  left out.  The aliases are folded in the request only: where the folded request changes, the
  overlay entry under the unchanged key plays no part, so a replacement a mod declares under
  %engine%/ or data/gameshaders/ is not found by the request it names.\<close>

theorem index_refines_layers:
  "ResolveVPath (BuildAssetIndex canon disk data engine overlay) v =
     layered_lookup overlay (root_mounts canon disk data @ root_mounts canon disk engine)
       (FoldEngineAliasToIndexKey (NormalizeVPath v))
   \<and> (if starts_with ''%engine%/'' (NormalizeVPath v) \<or> starts_with ''data/gameshaders/'' (NormalizeVPath v)
      then ResolveVPath (BuildAssetIndex canon disk data engine overlay) v =
        ResolveVPath (BuildAssetIndex canon disk data engine (overlay(NormalizeVPath v := None))) v
      else FoldEngineAliasToIndexKey (NormalizeVPath v) = NormalizeVPath v)"
proof -
  have "FoldEngineAliasToIndexKey (NormalizeVPath v) \<noteq> NormalizeVPath v \<Longrightarrow>
      layered_lookup (overlay(NormalizeVPath v := None)) ms (FoldEngineAliasToIndexKey (NormalizeVPath v)) =
      layered_lookup overlay ms (FoldEngineAliasToIndexKey (NormalizeVPath v))" for ms
    by (simp add: layered_lookup_def)
  then show ?thesis
    using FoldEngineAlias_changed [of "NormalizeVPath v"]
    by (auto simp: ResolveVPath_def BuildAssetIndex_layers kEngineAlias_def kGameShadersAlias_def)
qed

end
