(* ===== verification/Crt_Stream.thy ===== *)
theory Crt_Stream
  imports Byte_Codec
begin

text \<open>
  The part of the C library's streams the file system of fs_takeover uses, on binary streams:
  opening with a mode, reading, writing, seeking, pushing one byte back, closing.

  The disk maps paths to contents; every stream reads and writes it at once (buffering is not
  visible through one stream).  An open FILE is a number.  Using one that is not open is undefined
  behaviour, the outcome None; so are a seek with an unknown origin and an open with a malformed
  mode, where the Windows library stops the process.  Device errors and newline translation are
  left out: the only stream error is reading a stream opened for writing or the reverse.
\<close>

section \<open>State\<close>

record stream =
  s_path :: string
  s_pos :: nat
  s_back :: "byte list"
  s_eof :: bool
  s_err :: bool
  s_read :: bool
  s_write :: bool
  s_append :: bool

record crt =
  c_files :: "string \<rightharpoonup> bytes"
  c_creatable :: "string \<Rightarrow> bool"
  c_streams :: "nat \<rightharpoonup> stream"
  c_next :: nat

definition contents :: "'a crt_scheme \<Rightarrow> stream \<Rightarrow> bytes" where
  "contents w s = (case c_files w (s_path s) of None \<Rightarrow> [] | Some b \<Rightarrow> b)"

text \<open>The bytes a read meets: a pushed-back byte, then the file from the position on.\<close>

definition ahead :: "'a crt_scheme \<Rightarrow> stream \<Rightarrow> bytes" where
  "ahead w s = s_back s @ drop (s_pos s) (contents w s)"

definition put_stream :: "nat \<Rightarrow> stream \<Rightarrow> 'a crt_scheme \<Rightarrow> 'a crt_scheme" where
  "put_stream p s w = w\<lparr>c_streams := (c_streams w)(p \<mapsto> s)\<rparr>"

text \<open>A stream function runs on an open stream only.\<close>

definition on_stream :: "nat option \<Rightarrow> (nat \<Rightarrow> stream \<Rightarrow> 'a crt_scheme \<Rightarrow> 'b \<times> 'a crt_scheme) \<Rightarrow> 'a crt_scheme
    \<Rightarrow> ('b \<times> 'a crt_scheme) option" where
  "on_stream fp f w =
     (case fp of
        None \<Rightarrow> None
      | Some p \<Rightarrow> (case c_streams w p of None \<Rightarrow> None | Some s \<Rightarrow> Some (f p s w)))"

section \<open>Opening\<close>

definition has_flag :: "char \<Rightarrow> string \<Rightarrow> bool" where
  "has_flag c m \<longleftrightarrow> c \<in> set m"

text \<open>The modes the library documents: x needs w.\<close>

definition valid_mode :: "string \<Rightarrow> bool" where
  "valid_mode m \<longleftrightarrow>
     (case m of
        [] \<Rightarrow> False
      | c # flags \<Rightarrow> c \<in> set ''rwa'' \<and> list_all (\<lambda>f. f \<in> set ''+btcnSRTDNx'') flags \<and> distinct flags
          \<and> (has_flag CHR ''x'' flags \<longrightarrow> c = CHR ''w''))"

definition mode_stream :: "string \<Rightarrow> string \<Rightarrow> stream" where
  "mode_stream path m =
     \<lparr>s_path = path, s_pos = 0, s_back = [], s_eof = False, s_err = False,
      s_read = (hd m = CHR ''r'' \<or> has_flag CHR ''+'' m),
      s_write = (hd m \<noteq> CHR ''r'' \<or> has_flag CHR ''+'' m), s_append = (hd m = CHR ''a'')\<rparr>"

definition open_stream :: "string \<Rightarrow> string \<Rightarrow> 'a crt_scheme \<Rightarrow> nat option \<times> 'a crt_scheme" where
  "open_stream path m w =
     (Some (c_next w), put_stream (c_next w) (mode_stream path m) (w\<lparr>c_next := c_next w + 1\<rparr>))"

definition wfopen_s :: "string \<Rightarrow> string \<Rightarrow> 'a crt_scheme \<Rightarrow> (nat option \<times> 'a crt_scheme) option" where
  "wfopen_s path m w =
     (if \<not> valid_mode m then None
      else Some
       (case c_files w path of
          Some b \<Rightarrow>
            if has_flag CHR ''x'' m then (None, w)
            else if hd m = CHR ''w'' then open_stream path m (w\<lparr>c_files := (c_files w)(path \<mapsto> [])\<rparr>)
            else open_stream path m w
        | None \<Rightarrow>
            if hd m = CHR ''r'' \<or> \<not> c_creatable w path then (None, w)
            else open_stream path m (w\<lparr>c_files := (c_files w)(path \<mapsto> [])\<rparr>)))"

section \<open>Operations\<close>

definition read_stream :: "nat \<Rightarrow> nat \<Rightarrow> stream \<Rightarrow> 'a crt_scheme \<Rightarrow> bytes \<times> 'a crt_scheme" where
  "read_stream n p s w =
     (if \<not> s_read s then ([], put_stream p (s\<lparr>s_err := True\<rparr>) w)
      else (let got = take n (ahead w s)
            in (got, put_stream p
                  (s\<lparr>s_pos := s_pos s + (length got - length (s_back s)), s_back := drop n (s_back s),
                     s_eof := (s_eof s \<or> length got < n)\<rparr>) w)))"

definition fread :: "nat option \<Rightarrow> nat \<Rightarrow> 'a crt_scheme \<Rightarrow> (bytes \<times> 'a crt_scheme) option" where
  "fread fp n = on_stream fp (read_stream n)"

definition tell_of :: "stream \<Rightarrow> int" where
  "tell_of s = int (s_pos s) - int (length (s_back s))"

definition ftell :: "nat option \<Rightarrow> 'a crt_scheme \<Rightarrow> (int \<times> 'a crt_scheme) option" where
  "ftell fp = on_stream fp (\<lambda>p s w. (tell_of s, w))"

definition seek_stream :: "int \<Rightarrow> nat \<Rightarrow> stream \<Rightarrow> 'a crt_scheme \<Rightarrow> int \<times> 'a crt_scheme" where
  "seek_stream target p s w =
     (if target < 0 then (-1, w)
      else (0, put_stream p (s\<lparr>s_pos := nat target, s_back := [], s_eof := False\<rparr>) w))"

definition fseek :: "nat option \<Rightarrow> int \<Rightarrow> int \<Rightarrow> 'a crt_scheme \<Rightarrow> (int \<times> 'a crt_scheme) option" where
  "fseek fp offset origin w =
     (if origin = 0 then on_stream fp (seek_stream offset) w
      else if origin = 1 then on_stream fp (\<lambda>p s. seek_stream (tell_of s + offset) p s) w
      else if origin = 2 then on_stream fp (\<lambda>p s w. seek_stream (int (length (contents w s)) + offset) p s w) w
      else None)"

definition feof :: "nat option \<Rightarrow> 'a crt_scheme \<Rightarrow> (bool \<times> 'a crt_scheme) option" where
  "feof fp = on_stream fp (\<lambda>p s w. (s_eof s, w))"

definition ferror :: "nat option \<Rightarrow> 'a crt_scheme \<Rightarrow> (bool \<times> 'a crt_scheme) option" where
  "ferror fp = on_stream fp (\<lambda>p s w. (s_err s, w))"

definition overwrite :: "nat \<Rightarrow> bytes \<Rightarrow> bytes \<Rightarrow> bytes" where
  "overwrite pos data b =
     take pos (b @ replicate (pos - length b) 0) @ data @ drop (pos + length data) b"

definition write_stream :: "bytes \<Rightarrow> nat \<Rightarrow> stream \<Rightarrow> 'a crt_scheme \<Rightarrow> nat \<times> 'a crt_scheme" where
  "write_stream data p s w =
     (if \<not> s_write s then (0, put_stream p (s\<lparr>s_err := True\<rparr>) w)
      else (let pos = (if s_append s then length (contents w s) else nat (tell_of s))
            in (length data,
                put_stream p (s\<lparr>s_pos := pos + length data, s_back := []\<rparr>)
                  (w\<lparr>c_files := (c_files w)(s_path s \<mapsto> overwrite pos data (contents w s))\<rparr>))))"

definition fwrite :: "nat option \<Rightarrow> bytes \<Rightarrow> 'a crt_scheme \<Rightarrow> (nat \<times> 'a crt_scheme) option" where
  "fwrite fp data = on_stream fp (write_stream data)"

definition fflush :: "nat option \<Rightarrow> 'a crt_scheme \<Rightarrow> (int \<times> 'a crt_scheme) option" where
  "fflush fp = on_stream fp (\<lambda>p s w. (0, w))"

definition byte_or_eof :: "bytes \<Rightarrow> int" where
  "byte_or_eof bs = (case bs of [] \<Rightarrow> -1 | b # _ \<Rightarrow> uint b)"

definition fgetc :: "nat option \<Rightarrow> 'a crt_scheme \<Rightarrow> (int \<times> 'a crt_scheme) option" where
  "fgetc fp w = map_option (\<lambda>(got, w). (byte_or_eof got, w)) (fread fp 1 w)"

text \<open>One byte of pushback is guaranteed.\<close>

definition unget_stream :: "int \<Rightarrow> nat \<Rightarrow> stream \<Rightarrow> 'a crt_scheme \<Rightarrow> int \<times> 'a crt_scheme" where
  "unget_stream ch p s w =
     (if ch = -1 \<or> s_back s \<noteq> [] \<or> \<not> s_read s then (-1, w)
      else (uint (word_of_int ch :: byte), put_stream p (s\<lparr>s_back := [word_of_int ch], s_eof := False\<rparr>) w))"

definition ungetc :: "int \<Rightarrow> nat option \<Rightarrow> 'a crt_scheme \<Rightarrow> (int \<times> 'a crt_scheme) option" where
  "ungetc ch fp = on_stream fp (unget_stream ch)"

text \<open>A line with its newline, cut after the given number of bytes.\<close>

definition line_of :: "nat \<Rightarrow> bytes \<Rightarrow> bytes" where
  "line_of n b =
     (let l = take n b; k = length (takeWhile (\<lambda>x. x \<noteq> 10) l) in take (k + 1) l)"

definition gets_stream :: "nat \<Rightarrow> nat \<Rightarrow> stream \<Rightarrow> 'a crt_scheme \<Rightarrow> bytes option \<times> 'a crt_scheme" where
  "gets_stream n p s w =
     (let l = line_of n (ahead w s);
          (got, w') = read_stream (if l \<noteq> [] \<and> last l = 10 \<or> length l = n then length l else n) p s w
      in (if n = 0 then Some [] else if \<not> s_read s \<or> got = [] then None else Some got, w'))"

definition fgets :: "nat \<Rightarrow> nat option \<Rightarrow> 'a crt_scheme \<Rightarrow> (bytes option \<times> 'a crt_scheme) option" where
  "fgets maxCount fp = on_stream fp (gets_stream (maxCount - 1))"

definition fclose :: "nat option \<Rightarrow> 'a crt_scheme \<Rightarrow> (int \<times> 'a crt_scheme) option" where
  "fclose fp = on_stream fp (\<lambda>p s w. (0, w\<lparr>c_streams := (c_streams w)(p := None)\<rparr>))"

section \<open>Lemmas\<close>

text \<open>A stream function keeps the set of open streams; only fclose and wfopen\_s change it.\<close>

lemma on_stream_Some [simp]: "c_streams w p = Some s \<Longrightarrow> on_stream (Some p) f w = Some (f p s w)"
  by (simp add: on_stream_def)

lemma on_stream_open: "on_stream fp f w = Some (r, w') \<Longrightarrow>
    \<exists>p s. fp = Some p \<and> c_streams w p = Some s \<and> f p s w = (r, w')"
  by (auto simp: on_stream_def split: option.splits)

definition keeps_streams :: "(nat \<Rightarrow> stream \<Rightarrow> 'a crt_scheme \<Rightarrow> 'b \<times> 'a crt_scheme) \<Rightarrow> bool" where
  "keeps_streams f \<longleftrightarrow> (\<forall>p s w. c_streams w p = Some s \<longrightarrow>
     dom (c_streams (snd (f p s w))) = dom (c_streams w) \<and> c_next (snd (f p s w)) = c_next w
     \<and> crt.more (snd (f p s w)) = crt.more w)"

lemma put_stream_fields [simp]:
  "c_streams (put_stream p s w) = (c_streams w)(p \<mapsto> s)" "c_files (put_stream p s w) = c_files w"
  "c_creatable (put_stream p s w) = c_creatable w" "c_next (put_stream p s w) = c_next w"
  "crt.more (put_stream p s w) = crt.more w"
  by (simp_all add: put_stream_def)

named_theorems keeps

lemma keeps_reading [keeps]: "keeps_streams (read_stream n)"
  by (auto simp: keeps_streams_def read_stream_def Let_def)

lemma keeps_seek [keeps]: "keeps_streams (\<lambda>p s w. seek_stream (t s w) p s w)"
  by (auto simp: keeps_streams_def seek_stream_def)

lemma keeps_write [keeps]: "keeps_streams (write_stream d)"
  by (auto simp: keeps_streams_def write_stream_def Let_def)

lemma keeps_unget [keeps]: "keeps_streams (unget_stream ch)"
  by (auto simp: keeps_streams_def unget_stream_def)

lemma keeps_gets [keeps]: "keeps_streams (gets_stream n)"
  using keeps_reading by (simp add: keeps_streams_def gets_stream_def Let_def split_def) blast

lemma keeps_const [keeps]: "keeps_streams (\<lambda>p s w. (g s w, w))"
  by (simp add: keeps_streams_def)

lemma on_stream_keeps:
  "keeps_streams f \<Longrightarrow> on_stream fp f w = Some (r, w') \<Longrightarrow>
     dom (c_streams w') = dom (c_streams w) \<and> c_next w' = c_next w \<and> crt.more w' = crt.more w"
  unfolding keeps_streams_def by (metis on_stream_open snd_conv)

end
