(* ===== verification/Handle_Pool.thy ===== *)
theory Handle_Pool
  imports Crt_Stream "HOL-Library.Monad_Syntax"
begin

text \<open>
  src/fs_takeover/file_handle.cpp and read_slots.cpp: the pool of open files behind the opaque
  handles the engine holds, and the operations on a handle.

  Every operation runs under the pool's one lock, so it is one step.  The pool's mutex, the log and
  the trace are left out.  A handle is a number of the width of a pointer; ids stay far below 2^63
  (a slot is an object in memory), so the encoding does not wrap.  The free list is kept with its
  back first.  The outcome None is undefined behaviour of the C library, see Crt_Stream.
\<close>

section \<open>State\<close>

datatype file_kind = KLoose | KPak | KFind

record open_file =
  of_kind :: file_kind
  of_closed :: bool
  of_fp :: "nat option"
  of_pakBytes :: bytes
  of_cursor :: nat
  of_size :: nat
  of_findNames :: "string list"
  of_findIsDir :: "bool list"
  of_findCursor :: nat
  of_vpath :: string

definition fresh_file :: open_file where
  "fresh_file = \<lparr>of_kind = KLoose, of_closed = False, of_fp = None, of_pakBytes = [], of_cursor = 0,
     of_size = 0, of_findNames = [], of_findIsDir = [], of_findCursor = 0, of_vpath = []\<rparr>"

record world = crt +
  g_slots :: "open_file list"
  g_freeList :: "nat list"

type_synonym 'a op = "world \<Rightarrow> ('a \<times> world) option"

definition Encode :: "nat \<Rightarrow> nat" where
  "Encode i = 2 * i + 1"

definition DecodeId :: "nat \<Rightarrow> nat" where
  "DecodeId h = (if even h then 0 else h div 2)"

definition IsKcdxHandle :: "nat \<Rightarrow> bool" where
  "IsKcdxHandle h = odd h"

definition slot :: "world \<Rightarrow> nat \<Rightarrow> open_file" where
  "slot w i = g_slots w ! (i - 1)"

definition put_slot :: "nat \<Rightarrow> open_file \<Rightarrow> world \<Rightarrow> world" where
  "put_slot i s w = w\<lparr>g_slots := (g_slots w)[i - 1 := s]\<rparr>"

definition in_pool :: "world \<Rightarrow> nat \<Rightarrow> bool" where
  "in_pool w i \<longleftrightarrow> i \<noteq> 0 \<and> i \<le> length (g_slots w)"

text \<open>The id of the live byte source, or of the live iterator, behind a handle.\<close>

definition SlotLocked :: "world \<Rightarrow> nat \<Rightarrow> nat option" where
  "SlotLocked w h =
     (let i = DecodeId h
      in if \<not> in_pool w i then None
         else if of_closed (slot w i) then None
         else if of_kind (slot w i) = KFind then None
         else Some i)"

definition FindSlotLocked :: "world \<Rightarrow> nat \<Rightarrow> nat option" where
  "FindSlotLocked w h =
     (let i = DecodeId h
      in if \<not> in_pool w i then None
         else if of_closed (slot w i) then None
         else if of_kind (slot w i) \<noteq> KFind then None
         else Some i)"

definition AllocSlotLocked :: "world \<Rightarrow> nat \<times> world" where
  "AllocSlotLocked w =
     (case g_freeList w of
        i # ids \<Rightarrow> (i, put_slot i fresh_file (w\<lparr>g_freeList := ids\<rparr>))
      | [] \<Rightarrow> (length (g_slots w) + 1, w\<lparr>g_slots := g_slots w @ [fresh_file]\<rparr>))"

section \<open>Minting\<close>

definition MintLoose :: "nat option \<Rightarrow> string \<Rightarrow> world \<Rightarrow> nat \<times> world" where
  "MintLoose fp vpath w =
     (if fp = None then (0, w)
      else (let (i, w) = AllocSlotLocked w
            in (Encode i, put_slot i ((slot w i)\<lparr>of_kind := KLoose, of_closed := False, of_fp := fp,
                  of_vpath := vpath\<rparr>) w)))"

definition MintPak :: "bytes \<Rightarrow> string \<Rightarrow> world \<Rightarrow> nat \<times> world" where
  "MintPak b vpath w =
     (let (i, w) = AllocSlotLocked w
      in (Encode i, put_slot i ((slot w i)\<lparr>of_kind := KPak, of_closed := False, of_pakBytes := b,
            of_cursor := 0, of_size := length b, of_vpath := vpath\<rparr>) w))"

definition MintFind :: "string list \<Rightarrow> bool list \<Rightarrow> world \<Rightarrow> nat \<times> world" where
  "MintFind names isDir w =
     (if length names \<noteq> length isDir then (0, w)
      else (let (i, w) = AllocSlotLocked w
            in (Encode i, put_slot i ((slot w i)\<lparr>of_kind := KFind, of_closed := False,
                  of_findNames := names, of_findIsDir := isDir, of_findCursor := 0\<rparr>) w)))"

definition VpathForHandle :: "world \<Rightarrow> nat \<Rightarrow> string" where
  "VpathForHandle w h = (case SlotLocked w h of None \<Rightarrow> [] | Some i \<Rightarrow> of_vpath (slot w i))"

section \<open>Operations\<close>

text \<open>An operation on a handle that is not live answers the given value and changes nothing.\<close>

definition with_slot :: "nat \<Rightarrow> 'a \<Rightarrow> (nat \<Rightarrow> open_file \<Rightarrow> 'a op) \<Rightarrow> 'a op" where
  "with_slot h bad f w = (case SlotLocked w h of None \<Rightarrow> Some (bad, w) | Some i \<Rightarrow> f i (slot w i) w)"

definition FindPeek :: "nat \<Rightarrow> (string \<times> bool) option op" where
  "FindPeek h w =
     (case FindSlotLocked w h of
        None \<Rightarrow> Some (None, w)
      | Some i \<Rightarrow>
          (let s = slot w i
           in if of_findCursor s \<ge> length (of_findNames s) then Some (None, w)
              else Some (Some (of_findNames s ! of_findCursor s, of_findIsDir s ! of_findCursor s), w)))"

definition FindAdvance :: "nat \<Rightarrow> bool op" where
  "FindAdvance h w =
     (case FindSlotLocked w h of
        None \<Rightarrow> Some (False, w)
      | Some i \<Rightarrow>
          (let s = slot w i
           in Some (True, if of_findCursor s < length (of_findNames s)
                          then put_slot i (s\<lparr>of_findCursor := of_findCursor s + 1\<rparr>) w else w)))"

text \<open>The result of a read: the bytes, and the flag \<open>ok\<close>.\<close>

definition Read :: "nat \<Rightarrow> bool \<Rightarrow> nat \<Rightarrow> (bytes \<times> bool) op" where
  "Read h hasDst n w =
     (if \<not> hasDst \<or> n = 0 then Some (([], True), w)
      else with_slot h ([], False) (\<lambda>i s w.
        if of_kind s = KLoose then do {
            (got, w) \<leftarrow> fread (of_fp s) n w;
            (err, w) \<leftarrow> ferror (of_fp s) w;
            Some ((got, \<not> (length got < n \<and> err)), w)
          }
        else
          (let remaining = (if of_cursor s \<le> length (of_pakBytes s) then length (of_pakBytes s) - of_cursor s else 0);
               k = (if n < remaining then n else remaining)
           in Some ((take k (drop (of_cursor s) (of_pakBytes s)), True),
                if k \<noteq> 0 then put_slot i (s\<lparr>of_cursor := of_cursor s + k\<rparr>) w else w))) w)"

definition Seek :: "nat \<Rightarrow> int \<Rightarrow> int \<Rightarrow> int op" where
  "Seek h offset origin =
     with_slot h (-1) (\<lambda>i s w.
       if of_kind s = KLoose then do {
           (rc, w) \<leftarrow> fseek (of_fp s) offset origin w;
           Some (if rc \<noteq> 0 then -1 else 0, w)
         }
       else if origin \<notin> {0, 1, 2} then Some (-1, w)
       else
         (let base = (if origin = 0 then 0 else if origin = 1 then int (of_cursor s) else int (of_size s));
              target = base + offset
          in if target < 0 \<or> target > int (of_size s) then Some (-1, w)
             else Some (0, put_slot i (s\<lparr>of_cursor := nat target\<rparr>) w)))"

definition Tell :: "nat \<Rightarrow> int op" where
  "Tell h =
     with_slot h (-1) (\<lambda>i s w.
       if of_kind s = KLoose then do {
           (pos, w) \<leftarrow> ftell (of_fp s) w;
           Some (if pos < 0 then -1 else pos, w)
         }
       else Some (int (of_cursor s), w))"

definition Eof :: "nat \<Rightarrow> bool op" where
  "Eof h =
     with_slot h True (\<lambda>i s w.
       if of_kind s = KLoose then feof (of_fp s) w
       else Some (of_cursor s \<ge> of_size s, w))"

definition Write :: "nat \<Rightarrow> bool \<Rightarrow> bytes \<Rightarrow> (nat \<times> bool) op" where
  "Write h hasSrc data w =
     (if \<not> hasSrc \<or> data = [] then Some ((0, True), w)
      else with_slot h (0, False) (\<lambda>i s w.
        if of_kind s \<noteq> KLoose then Some ((0, False), w)
        else do {
            (n, w) \<leftarrow> fwrite (of_fp s) data w;
            Some ((n, \<not> n < length data), w)
          }) w)"

definition Flush :: "nat \<Rightarrow> int op" where
  "Flush h =
     with_slot h (-1) (\<lambda>i s w.
       if of_kind s \<noteq> KLoose then Some (0, w)
       else do {
           (rc, w) \<leftarrow> fflush (of_fp s) w;
           Some (if rc \<noteq> 0 then -1 else 0, w)
         })"

definition Error :: "nat \<Rightarrow> bool op" where
  "Error h =
     with_slot h True (\<lambda>i s w. if of_kind s \<noteq> KLoose then Some (False, w) else ferror (of_fp s) w)"

text \<open>What the C library and the system answer about an open FILE is a parameter here.\<close>

definition GetErrno :: "int \<Rightarrow> nat \<Rightarrow> int op" where
  "GetErrno errno h =
     with_slot h 9 (\<lambda>i s w. if of_kind s \<noteq> KLoose then Some (0, w) else Some (errno, w))"

definition Fileno :: "(nat option \<Rightarrow> int) \<Rightarrow> nat \<Rightarrow> int op" where
  "Fileno fileno h =
     with_slot h (-1) (\<lambda>i s w. if of_kind s \<noteq> KLoose then Some (-1, w) else Some (fileno (of_fp s), w))"

definition GetModificationTime :: "(nat option \<Rightarrow> int) \<Rightarrow> (int \<Rightarrow> int option) \<Rightarrow> (int \<Rightarrow> int option) \<Rightarrow> nat \<Rightarrow> int op" where
  "GetModificationTime fileno osfhandle lastWrite h =
     with_slot h 0 (\<lambda>i s w.
       if of_kind s \<noteq> KLoose then Some (0, w)
       else (let fd = fileno (of_fp s)
             in if fd < 0 then Some (0, w)
                else (case osfhandle fd of
                        None \<Rightarrow> Some (0, w)
                      | Some hf \<Rightarrow> (case lastWrite hf of None \<Rightarrow> Some (0, w) | Some t \<Rightarrow> Some (t, w)))))"

definition Getc :: "nat \<Rightarrow> int op" where
  "Getc h =
     with_slot h (-1) (\<lambda>i s w.
       if of_kind s = KLoose then fgetc (of_fp s) w
       else if of_cursor s \<ge> length (of_pakBytes s) then Some (-1, w)
       else Some (uint (of_pakBytes s ! of_cursor s), put_slot i (s\<lparr>of_cursor := of_cursor s + 1\<rparr>) w))"

definition Ungetc :: "nat \<Rightarrow> int \<Rightarrow> int op" where
  "Ungetc h ch =
     with_slot h (-1) (\<lambda>i s w.
       if of_kind s = KLoose then ungetc ch (of_fp s) w
       else if of_cursor s = 0 \<or> ch = -1 then Some (-1, w)
       else Some (ch, put_slot i (s\<lparr>of_cursor := of_cursor s - 1,
                        of_pakBytes := (of_pakBytes s)[of_cursor s - 1 := word_of_int ch]\<rparr>) w))"

text \<open>The loop of Gets over the buffer: bytes so far, room left, what is ahead.\<close>

fun copy_line :: "bytes \<Rightarrow> nat \<Rightarrow> bytes \<Rightarrow> bytes" where
  "copy_line acc 0 b = acc"
| "copy_line acc (Suc room) [] = acc"
| "copy_line acc (Suc room) (c # b) = (if c = 10 then acc @ [c] else copy_line (acc @ [c]) room b)"

text \<open>The result is the text without its NUL; None is the null pointer.\<close>

definition Gets :: "nat \<Rightarrow> bool \<Rightarrow> int \<Rightarrow> bytes option op" where
  "Gets h hasDst maxCount w =
     (if \<not> hasDst \<or> maxCount \<le> 0 then Some (None, w)
      else with_slot h None (\<lambda>i s w.
        if of_kind s = KLoose then fgets (nat maxCount) (of_fp s) w
        else if of_cursor s \<ge> length (of_pakBytes s) then Some (None, w)
        else (let l = copy_line [] (nat (maxCount - 1)) (drop (of_cursor s) (of_pakBytes s))
              in Some (Some l, put_slot i (s\<lparr>of_cursor := of_cursor s + length l\<rparr>) w))) w)"

definition FileSize :: "nat \<Rightarrow> int op" where
  "FileSize h =
     with_slot h 0 (\<lambda>i s w.
       if of_kind s = KPak then Some (int (length (of_pakBytes s)), w)
       else if of_size s \<noteq> 0 then Some (int (of_size s), w)
       else do {
           (cur, w) \<leftarrow> ftell (of_fp s) w;
           if cur < 0 then Some (0, w)
           else do {
               (rc, w) \<leftarrow> fseek (of_fp s) 0 2 w;
               if rc \<noteq> 0 then Some (0, w)
               else do {
                   (sz, w) \<leftarrow> ftell (of_fp s) w;
                   (rc, w) \<leftarrow> fseek (of_fp s) cur 0 w;
                   if sz < 0 then Some (0, w)
                   else Some (sz, put_slot i (s\<lparr>of_size := nat sz\<rparr>) w)
                 }
             }
         })"

text \<open>The whole file; the second result is the size written out.\<close>

definition GetCachedFileData :: "nat \<Rightarrow> (bytes option \<times> int) op" where
  "GetCachedFileData h =
     with_slot h (None, 0) (\<lambda>i s w.
       if of_kind s = KPak then Some ((Some (of_pakBytes s), int (length (of_pakBytes s))), w)
       else if of_pakBytes s \<noteq> [] then Some ((Some (of_pakBytes s), int (length (of_pakBytes s))), w)
       else do {
           (rc, w) \<leftarrow> fseek (of_fp s) 0 2 w;
           if rc \<noteq> 0 then Some ((None, 0), w)
           else do {
               (sz, w) \<leftarrow> ftell (of_fp s) w;
               if sz < 0 then Some ((None, 0), w)
               else do {
                   (rc, w) \<leftarrow> fseek (of_fp s) 0 0 w;
                   if rc \<noteq> 0 then Some ((None, 0), w)
                   else if sz > 0 then do {
                       (got, w) \<leftarrow> fread (of_fp s) (nat sz) w;
                       if length got \<noteq> nat sz then Some ((None, 0), put_slot i (s\<lparr>of_pakBytes := []\<rparr>) w)
                       else Some ((Some got, int (length got)), put_slot i (s\<lparr>of_pakBytes := got, of_size := nat sz\<rparr>) w)
                     }
                   else Some ((Some [], 0), put_slot i (s\<lparr>of_pakBytes := [], of_size := 0\<rparr>) w)
                 }
             }
         })"

definition Close :: "nat \<Rightarrow> int op" where
  "Close h w =
     (let i = DecodeId h
      in if \<not> in_pool w i then Some (-1, w)
         else (let s = slot w i
               in if of_closed s then Some (-1, w)
                  else do {
                      (rc, w) \<leftarrow> (if of_kind s = KLoose \<and> of_fp s \<noteq> None then fclose (of_fp s) w else Some (0, w));
                      Some (rc, put_slot i (s\<lparr>of_fp := (if of_kind s = KLoose then None else of_fp s),
                                 of_pakBytes := [], of_cursor := 0, of_size := 0, of_findNames := [],
                                 of_findIsDir := [], of_findCursor := 0, of_closed := True\<rparr>)
                               (w\<lparr>g_freeList := i # g_freeList w\<rparr>))
                    }))"

section \<open>The slots of the engine's table\<close>

text \<open>size\_t is 64 bits; a size times a count that does not fit is refused.\<close>

definition kcdx_FReadRaw_byPakIndex :: "bool \<Rightarrow> u64 \<Rightarrow> u64 \<Rightarrow> nat \<Rightarrow> bytes op" where
  "kcdx_FReadRaw_byPakIndex hasBuf sz cnt h w =
     (if cnt \<noteq> 0 \<and> sz > (-1) div cnt then Some ([], w)
      else map_option (\<lambda>((got, ok), w). (got, w)) (Read h hasBuf (unat (sz * cnt)) w))"

definition kcdx_FReadRaw :: "bool \<Rightarrow> u64 \<Rightarrow> nat \<Rightarrow> bytes op" where
  "kcdx_FReadRaw hasBuf sz h w = do {
     (rc, w) \<leftarrow> Seek h 0 0 w;
     ((got, ok), w) \<leftarrow> Read h hasBuf (unat sz) w;
     Some (got, w)
   }"

definition kcdx_FWrite :: "bytes option \<Rightarrow> u64 \<Rightarrow> u64 \<Rightarrow> nat \<Rightarrow> nat op" where
  "kcdx_FWrite buf sz cnt h w =
     (if cnt \<noteq> 0 \<and> sz > (-1) div cnt then Some (0, w)
      else map_option (\<lambda>((n, ok), w). (n, w))
             (Write h (buf \<noteq> None) (take (unat (sz * cnt)) (case buf of None \<Rightarrow> [] | Some b \<Rightarrow> b)) w))"

definition kcdx_FSeek :: "nat \<Rightarrow> 32 word \<Rightarrow> int \<Rightarrow> int op" where
  "kcdx_FSeek h offset origin = Seek h (sint offset) origin"

definition kcdx_FEof :: "nat \<Rightarrow> int op" where
  "kcdx_FEof h w = map_option (\<lambda>(e, w). (if e then 1 else 0, w)) (Eof h w)"

end
