(* ===== verification/Handle_Safety.thy ===== *)
theory Handle_Safety
  imports Handle_Pool
begin

text \<open>
  The invariant of the handle pool, and that every operation of Handle_Pool keeps it and stays
  within the defined behaviour of the C library, whatever handle the engine passes.
\<close>

section \<open>The invariant\<close>

definition live_fp :: "world \<Rightarrow> nat \<Rightarrow> nat option" where
  "live_fp w i =
     (if in_pool w i \<and> \<not> of_closed (slot w i) \<and> of_kind (slot w i) = KLoose then of_fp (slot w i) else None)"

definition slot_ok :: "open_file \<Rightarrow> bool" where
  "slot_ok s \<longleftrightarrow> of_closed s \<or>
     (case of_kind s of
        KLoose \<Rightarrow> of_fp s \<noteq> None
      | KPak \<Rightarrow> of_size s = length (of_pakBytes s) \<and> of_cursor s \<le> of_size s
      | KFind \<Rightarrow> length (of_findNames s) = length (of_findIsDir s) \<and> of_findCursor s \<le> length (of_findNames s))"

text \<open>\<open>X\<close>: streams that are open and belong to no slot (yet).\<close>

definition pool_inv :: "nat set \<Rightarrow> world \<Rightarrow> bool" where
  "pool_inv X w \<longleftrightarrow>
     distinct (g_freeList w) \<and> set (g_freeList w) = {i. in_pool w i \<and> of_closed (slot w i)}
     \<and> (\<forall>i. in_pool w i \<longrightarrow> slot_ok (slot w i))
     \<and> (\<forall>i j p. live_fp w i = Some p \<and> live_fp w j = Some p \<longrightarrow> i = j)
     \<and> dom (c_streams w) = X \<union> {p. \<exists>i. live_fp w i = Some p}
     \<and> (\<forall>p \<in> X. \<forall>i. live_fp w i \<noteq> Some p)
     \<and> (\<forall>p \<in> dom (c_streams w). p < c_next w)"

abbreviation pool_ok :: "world \<Rightarrow> bool" where
  "pool_ok \<equiv> pool_inv {}"

lemma pool_invD:
  assumes "pool_inv X w"
  shows "distinct (g_freeList w)" "set (g_freeList w) = {i. in_pool w i \<and> of_closed (slot w i)}"
    "in_pool w i \<Longrightarrow> slot_ok (slot w i)"
    "live_fp w i = Some p \<Longrightarrow> live_fp w j = Some p \<Longrightarrow> i = j"
    "dom (c_streams w) = X \<union> {p. \<exists>i. live_fp w i = Some p}"
    "p \<in> X \<Longrightarrow> live_fp w i \<noteq> Some p"
    "p \<in> dom (c_streams w) \<Longrightarrow> p < c_next w"
  using assms unfolding pool_inv_def by blast+

text \<open>The outcome is defined and the invariant holds after it.\<close>

definition good :: "('a \<times> world) option \<Rightarrow> bool" where
  "good r \<longleftrightarrow> (\<exists>x w. r = Some (x, w) \<and> pool_ok w)"

lemma good_Some [simp]: "good (Some (x, w)) \<longleftrightarrow> pool_ok w"
  by (simp add: good_def)

section \<open>Library steps\<close>

text \<open>A library function on a live FILE is defined and leaves the pool as it was.\<close>

definition same_pool :: "world \<Rightarrow> world \<Rightarrow> bool" where
  "same_pool w w' \<longleftrightarrow> dom (c_streams w') = dom (c_streams w) \<and> c_next w' = c_next w
     \<and> g_slots w' = g_slots w \<and> g_freeList w' = g_freeList w"

lemma same_pool_refl [simp]: "same_pool w w"
  by (simp add: same_pool_def)

lemma same_pool_trans [trans]: "same_pool u v \<Longrightarrow> same_pool v w \<Longrightarrow> same_pool u w"
  by (simp add: same_pool_def)

lemma same_pool_inv: "same_pool w w' \<Longrightarrow> pool_inv X w' \<longleftrightarrow> pool_inv X w"
  unfolding same_pool_def pool_inv_def live_fp_def in_pool_def slot_def by simp

lemma more_fields: "crt.more w = crt.more w' \<longleftrightarrow> g_slots w = g_slots w' \<and> g_freeList w = g_freeList (w' :: world)"
  by (cases w; cases w') simp

lemma same_pool_ok: "pool_inv X w \<Longrightarrow> same_pool w w' \<Longrightarrow> pool_inv X w'"
  by (simp add: same_pool_inv)

definition live :: "world \<Rightarrow> nat option \<Rightarrow> bool" where
  "live w fp \<longleftrightarrow> (\<exists>p s. fp = Some p \<and> c_streams w p = Some s)"

lemma same_pool_live: "same_pool w w' \<Longrightarrow> live w fp \<Longrightarrow> live w' fp"
  by (auto simp: live_def same_pool_def dom_def set_eq_iff)

text \<open>Library calls in sequence: \<open>v\<close> is the world before the first.\<close>

lemma crt_step:
  assumes "live v fp" "pool_ok v" "same_pool v w" "keeps_streams f" "\<And>r w'. same_pool v w' \<Longrightarrow> pool_ok w' \<Longrightarrow> good (g (r, w'))"
  shows "good (Option.bind (on_stream fp f w) g)"
proof -
  obtain p s where p: "fp = Some p" "c_streams w p = Some s"
    using same_pool_live [OF assms(3,1)] by (auto simp: live_def)
  obtain r w' where f: "f p s w = (r, w')" by fastforce
  have "same_pool w w'"
    using assms(4) p(2) f more_fields [of w' w] unfolding keeps_streams_def same_pool_def
    by (metis snd_conv)
  then show ?thesis using assms(5) same_pool_trans [OF assms(3)] same_pool_ok [OF assms(2)] p f by simp
qed

lemma keeps_seek3: "keeps_streams (seek_stream t)"
  using keeps_seek [of "\<lambda>s w. t"] by simp

lemma keeps_seek_cur: "keeps_streams (\<lambda>p s. seek_stream (t s) p s)"
  using keeps_seek [of "\<lambda>s w. t s"] by simp

lemma fseek_step:
  assumes "live v fp" "pool_ok v" "same_pool v w" "origin \<in> {0, 1, 2}" "\<And>r w'. same_pool v w' \<Longrightarrow> pool_ok w' \<Longrightarrow> good (g (r, w'))"
  shows "good (Option.bind (fseek fp offset origin w) g)"
  using assms(4) unfolding fseek_def
  by (auto intro!: crt_step [OF assms(1,2,3)] assms(5) keeps_seek keeps_seek3 keeps_seek_cur)

lemma fread_step:
  "live v fp \<Longrightarrow> pool_ok v \<Longrightarrow> same_pool v w \<Longrightarrow> (\<And>r w'. same_pool v w' \<Longrightarrow> pool_ok w' \<Longrightarrow> good (g (r, w'))) \<Longrightarrow> good (Option.bind (fread fp n w) g)"
  unfolding fread_def by (rule crt_step) (simp_all add: keeps)

lemma ferror_step:
  "live v fp \<Longrightarrow> pool_ok v \<Longrightarrow> same_pool v w \<Longrightarrow> (\<And>r w'. same_pool v w' \<Longrightarrow> pool_ok w' \<Longrightarrow> good (g (r, w'))) \<Longrightarrow> good (Option.bind (ferror fp w) g)"
  unfolding ferror_def by (rule crt_step) (simp_all add: keeps)

lemma ftell_step:
  "live v fp \<Longrightarrow> pool_ok v \<Longrightarrow> same_pool v w \<Longrightarrow> (\<And>r w'. same_pool v w' \<Longrightarrow> pool_ok w' \<Longrightarrow> good (g (r, w'))) \<Longrightarrow> good (Option.bind (ftell fp w) g)"
  unfolding ftell_def by (rule crt_step) (simp_all add: keeps)

lemma fwrite_step:
  "live v fp \<Longrightarrow> pool_ok v \<Longrightarrow> same_pool v w \<Longrightarrow> (\<And>r w'. same_pool v w' \<Longrightarrow> pool_ok w' \<Longrightarrow> good (g (r, w'))) \<Longrightarrow> good (Option.bind (fwrite fp d w) g)"
  unfolding fwrite_def by (rule crt_step) (simp_all add: keeps)

lemma fflush_step:
  "live v fp \<Longrightarrow> pool_ok v \<Longrightarrow> same_pool v w \<Longrightarrow> (\<And>r w'. same_pool v w' \<Longrightarrow> pool_ok w' \<Longrightarrow> good (g (r, w'))) \<Longrightarrow> good (Option.bind (fflush fp w) g)"
  unfolding fflush_def by (rule crt_step) (simp_all add: keeps)

lemmas crt_steps = fseek_step fread_step ferror_step ftell_step fwrite_step fflush_step

lemma good_bind_Some: "good (Option.bind r (\<lambda>(x, w). Some (x, w))) \<Longrightarrow> good r"
  by (cases r) auto

lemma good_map_option: "good r \<Longrightarrow> good (map_option (\<lambda>(x, w). (f x, w)) r)"
  by (auto simp: good_def)

text \<open>Library calls whose result is the operation's.\<close>

lemma good_crt: "pool_ok w \<Longrightarrow> live w fp \<Longrightarrow> keeps_streams f \<Longrightarrow> good (on_stream fp f w)"
  by (rule good_bind_Some, rule crt_step [where v = w]) auto

section \<open>Slots\<close>

lemma SlotLocked_Some:
  "SlotLocked w h = Some i \<longleftrightarrow> i = DecodeId h \<and> in_pool w i \<and> \<not> of_closed (slot w i) \<and> of_kind (slot w i) \<noteq> KFind"
  by (auto simp: SlotLocked_def Let_def)

lemma FindSlotLocked_Some:
  "FindSlotLocked w h = Some i \<longleftrightarrow> i = DecodeId h \<and> in_pool w i \<and> \<not> of_closed (slot w i) \<and> of_kind (slot w i) = KFind"
  by (auto simp: FindSlotLocked_def Let_def)

lemma live_slot:
  assumes "pool_inv X w" "in_pool w i" "\<not> of_closed (slot w i)" "of_kind (slot w i) = KLoose"
  shows "live w (of_fp (slot w i))"
proof -
  have "slot_ok (slot w i)" using pool_invD(3) assms(1,2) by blast
  then obtain p where p: "of_fp (slot w i) = Some p" using assms(3,4) by (auto simp: slot_ok_def)
  then have "live_fp w i = Some p" using assms(2-4) by (simp add: live_fp_def)
  then have "p \<in> dom (c_streams w)" using pool_invD(5) [OF assms(1)] by blast
  then show ?thesis using p by (auto simp: live_def)
qed

lemma good_with_slot:
  assumes "pool_ok w"
    and "\<And>i. SlotLocked w h = Some i \<Longrightarrow> of_kind (slot w i) = KLoose \<Longrightarrow> live w (of_fp (slot w i)) \<Longrightarrow> good (f i (slot w i) w)"
    and "\<And>i. SlotLocked w h = Some i \<Longrightarrow> of_kind (slot w i) = KPak \<Longrightarrow>
      of_size (slot w i) = length (of_pakBytes (slot w i)) \<Longrightarrow> of_cursor (slot w i) \<le> of_size (slot w i) \<Longrightarrow> good (f i (slot w i) w)"
  shows "good (with_slot h bad f w)"
proof (cases "SlotLocked w h")
  case (Some i)
  then have i: "in_pool w i" "\<not> of_closed (slot w i)" "of_kind (slot w i) \<noteq> KFind" by (auto simp: SlotLocked_Some)
  have ok: "slot_ok (slot w i)" using pool_invD(3) assms(1) i(1) by blast
  show ?thesis
  proof (cases "of_kind (slot w i)")
    case KLoose
    then show ?thesis using Some assms(2) live_slot [OF assms(1) i(1,2)] by (simp add: with_slot_def)
  next
    case KPak
    then show ?thesis using Some assms(3) ok i(2) by (simp add: with_slot_def slot_ok_def)
  qed (use i(3) in simp)
qed (use assms(1) in \<open>simp add: with_slot_def\<close>)

lemma in_pool_put [simp]: "in_pool (put_slot i s w) j = in_pool w j"
  by (simp add: in_pool_def put_slot_def)

lemma slot_put: "in_pool w i \<Longrightarrow> j \<noteq> 0 \<Longrightarrow> slot (put_slot i s w) j = (if j = i then s else slot w j)"
  by (auto simp: slot_def put_slot_def in_pool_def nth_list_update)

lemma put_slot_fields [simp]:
  "c_streams (put_slot i s w) = c_streams w" "c_next (put_slot i s w) = c_next w"
  "g_freeList (put_slot i s w) = g_freeList w" "c_files (put_slot i s w) = c_files w"
  by (simp_all add: put_slot_def)

lemma in_pool_pos: "in_pool w j \<Longrightarrow> j \<noteq> 0"
  by (simp add: in_pool_def)

lemma put_slot_inv:
  assumes "pool_inv X w" "in_pool w i" "\<not> of_closed (slot w i)"
    and "of_closed s = of_closed (slot w i)" "of_kind s = of_kind (slot w i)" "of_fp s = of_fp (slot w i)" "slot_ok s"
  shows "pool_inv X (put_slot i s w)"
proof -
  have fps: "live_fp (put_slot i s w) j = live_fp w j" for j
    using assms(2,4-6) by (auto simp: live_fp_def slot_put in_pool_pos)
  have cl: "in_pool w j \<and> of_closed (slot (put_slot i s w) j) \<longleftrightarrow> in_pool w j \<and> of_closed (slot w j)" for j
    using assms(2,4) by (auto simp: slot_put in_pool_pos split: if_splits)
  have "in_pool w j \<Longrightarrow> slot_ok (slot (put_slot i s w) j)" for j
    using assms(2,7) pool_invD(3) [OF assms(1)] by (auto simp: slot_put in_pool_pos)
  then show ?thesis using assms(1) unfolding pool_inv_def by (simp add: fps cl)
qed

lemma put_locked:
  assumes "pool_ok w" "SlotLocked w h = Some i" "same_pool w w'"
    and "of_closed s = of_closed (slot w i)" "of_kind s = of_kind (slot w i)" "of_fp s = of_fp (slot w i)" "slot_ok s"
  shows "pool_ok (put_slot i s w')"
proof -
  have "slot w' i = slot w i" "in_pool w' i = in_pool w i"
    using assms(3) by (simp_all add: same_pool_def slot_def in_pool_def)
  then show ?thesis
    using assms same_pool_inv [OF assms(3), of "{}"] by (intro put_slot_inv) (auto simp: SlotLocked_Some)
qed

section \<open>Operations on a handle\<close>

lemma slot_ok_loose: "slot_ok s \<Longrightarrow> of_kind s = KLoose \<Longrightarrow> \<not> of_closed s \<Longrightarrow> of_fp s \<noteq> None"
  by (simp add: slot_ok_def)

lemma live_not_None: "live w fp \<Longrightarrow> fp \<noteq> None"
  by (auto simp: live_def)

lemma slot_ok_loose_upd: "of_kind s = KLoose \<Longrightarrow> of_fp s \<noteq> None \<Longrightarrow> slot_ok s"
  by (simp add: slot_ok_def)

lemma slot_ok_pak_upd: "of_kind s = KPak \<Longrightarrow> of_size s = length (of_pakBytes s) \<Longrightarrow> of_cursor s \<le> of_size s \<Longrightarrow> slot_ok s"
  by (simp add: slot_ok_def)

lemma good_same: "pool_ok w \<Longrightarrow> same_pool w w' \<Longrightarrow> good (Some (x, w'))"
  by (simp add: same_pool_inv)

lemma put_pak:
  "pool_ok w \<Longrightarrow> SlotLocked w h = Some i \<Longrightarrow> of_closed s = of_closed (slot w i) \<Longrightarrow> of_kind (slot w i) = KPak \<Longrightarrow>
   of_kind s = KPak \<Longrightarrow> of_fp s = of_fp (slot w i) \<Longrightarrow> of_size s = length (of_pakBytes s) \<Longrightarrow> of_cursor s \<le> of_size s \<Longrightarrow>
   pool_ok (put_slot i s w)"
  by (rule put_locked [where w = w]) (simp_all add: slot_ok_def)

lemma put_loose:
  "pool_ok w \<Longrightarrow> SlotLocked w h = Some i \<Longrightarrow> live w (of_fp (slot w i)) \<Longrightarrow> of_kind (slot w i) = KLoose \<Longrightarrow>
   same_pool w w' \<Longrightarrow> of_closed s = of_closed (slot w i) \<Longrightarrow> of_kind s = KLoose \<Longrightarrow> of_fp s = of_fp (slot w i) \<Longrightarrow>
   pool_ok (put_slot i s w')"
  by (rule put_locked [where w = w]) (simp_all add: slot_ok_def live_not_None)

lemma good_Read: "pool_ok w \<Longrightarrow> good (Read h hasDst n w)"
  unfolding Read_def Let_def
  by (auto intro!: good_with_slot crt_steps [where v = w]) (auto intro!: put_pak)

lemma good_Seek: "pool_ok w \<Longrightarrow> origin \<in> {0, 1, 2} \<Longrightarrow> good (Seek h offset origin w)"
  unfolding Seek_def Let_def
  by (rule good_with_slot) (auto intro!: fseek_step [where v = w] intro: put_pak same_pool_ok [where w = w])

lemma good_Tell: "pool_ok w \<Longrightarrow> good (Tell h w)"
  unfolding Tell_def by (rule good_with_slot) (auto intro!: crt_steps [where v = w])

lemma good_Eof: "pool_ok w \<Longrightarrow> good (Eof h w)"
  unfolding Eof_def feof_def by (rule good_with_slot) (auto intro!: good_crt keeps)

lemma good_Write: "pool_ok w \<Longrightarrow> good (Write h hasSrc d w)"
  unfolding Write_def by (auto intro!: good_with_slot crt_steps [where v = w])

lemma good_Flush: "pool_ok w \<Longrightarrow> good (Flush h w)"
  unfolding Flush_def by (rule good_with_slot) (auto intro!: crt_steps [where v = w])

lemma good_Error: "pool_ok w \<Longrightarrow> good (Error h w)"
  unfolding Error_def ferror_def by (rule good_with_slot) (auto intro!: good_crt keeps)

lemma good_Getc: "pool_ok w \<Longrightarrow> good (Getc h w)"
  unfolding Getc_def fgetc_def fread_def
  by (rule good_with_slot) (auto intro!: good_map_option good_crt keeps put_pak)

lemma good_Ungetc: "pool_ok w \<Longrightarrow> good (Ungetc h ch w)"
  unfolding Ungetc_def ungetc_def
  by (rule good_with_slot) (auto intro!: good_crt keeps put_pak)

lemma length_copy_line: "length (copy_line acc room b) \<le> length acc + length b"
  by (induction acc room b rule: copy_line.induct) auto

lemma copy_line_fits: "c \<le> length b \<Longrightarrow> c + length (copy_line [] r (drop c b)) \<le> length b"
  using length_copy_line [of "[]" r "drop c b"] by simp

lemma good_Gets: "pool_ok w \<Longrightarrow> good (Gets h hasDst n w)"
  unfolding Gets_def fgets_def Let_def
  by (auto simp: copy_line_fits intro!: good_with_slot good_crt keeps put_pak)

lemma good_FileSize: "pool_ok w \<Longrightarrow> good (FileSize h w)"
  unfolding FileSize_def
  by (rule good_with_slot) (auto intro!: crt_steps [where v = w] put_loose [where w = w])

lemma good_GetCached: "pool_ok w \<Longrightarrow> good (GetCachedFileData h w)"
  unfolding GetCachedFileData_def
  by (rule good_with_slot) (auto intro!: crt_steps [where v = w] put_loose [where w = w])

lemma good_FindPeek: "pool_ok w \<Longrightarrow> good (FindPeek h w)"
  by (simp add: FindPeek_def Let_def split: option.split)

lemma good_FindAdvance: "pool_ok w \<Longrightarrow> good (FindAdvance h w)"
proof -
  assume ok: "pool_ok w"
  have "pool_ok (put_slot i ((slot w i)\<lparr>of_findCursor := Suc (of_findCursor (slot w i))\<rparr>) w)"
    if "FindSlotLocked w h = Some i" "of_findCursor (slot w i) < length (of_findNames (slot w i))" for i
  proof (rule put_slot_inv [OF ok])
    have i: "in_pool w i" "\<not> of_closed (slot w i)" "of_kind (slot w i) = KFind"
      using that(1) by (auto simp: FindSlotLocked_Some)
    then show "in_pool w i" "\<not> of_closed (slot w i)" by simp_all
    show "slot_ok ((slot w i)\<lparr>of_findCursor := Suc (of_findCursor (slot w i))\<rparr>)"
      using pool_invD(3) [OF ok i(1)] i(2,3) that(2) by (simp add: slot_ok_def)
  qed simp_all
  then show ?thesis using ok by (simp add: FindAdvance_def Let_def split: option.split)
qed

section \<open>Minting and closing\<close>

lemma alloc_spec:
  assumes "pool_inv X w" "AllocSlotLocked w = (i, w1)"
  shows "in_pool w1 i" "slot w1 i = fresh_file" "in_pool w i \<Longrightarrow> of_closed (slot w i)"
    "j \<noteq> i \<Longrightarrow> in_pool w1 j = in_pool w j" "j \<noteq> i \<Longrightarrow> in_pool w j \<Longrightarrow> slot w1 j = slot w j"
    "set (g_freeList w1) = set (g_freeList w) - {i}" "distinct (g_freeList w1)"
    "c_streams w1 = c_streams w" "c_next w1 = c_next w" "c_files w1 = c_files w"
proof -
  note inv = pool_invD(1,2) [OF assms(1)]
  have "in_pool w1 i \<and> slot w1 i = fresh_file \<and> (in_pool w i \<longrightarrow> of_closed (slot w i))
    \<and> (\<forall>j. j \<noteq> i \<longrightarrow> in_pool w1 j = in_pool w j \<and> (in_pool w j \<longrightarrow> slot w1 j = slot w j))
    \<and> set (g_freeList w1) = set (g_freeList w) - {i} \<and> distinct (g_freeList w1)
    \<and> c_streams w1 = c_streams w \<and> c_next w1 = c_next w \<and> c_files w1 = c_files w"
  proof (cases "g_freeList w")
    case Nil
    then show ?thesis
      using assms(2) by (auto simp: AllocSlotLocked_def in_pool_def slot_def nth_append)
  next
    case (Cons k ks)
    then have k: "in_pool w k" "of_closed (slot w k)" using inv(2) by auto
    have "i = k" "w1 = put_slot k fresh_file (w\<lparr>g_freeList := ks\<rparr>)"
      using assms(2) Cons by (auto simp: AllocSlotLocked_def)
    then show ?thesis
      using k inv(1) Cons by (auto simp: put_slot_def in_pool_def slot_def nth_list_update)
  qed
  then show "in_pool w1 i" "slot w1 i = fresh_file" "in_pool w i \<Longrightarrow> of_closed (slot w i)"
    "j \<noteq> i \<Longrightarrow> in_pool w1 j = in_pool w j" "j \<noteq> i \<Longrightarrow> in_pool w j \<Longrightarrow> slot w1 j = slot w j"
    "set (g_freeList w1) = set (g_freeList w) - {i}" "distinct (g_freeList w1)"
    "c_streams w1 = c_streams w" "c_next w1 = c_next w" "c_files w1 = c_files w"
    by blast+
qed

definition mint :: "open_file \<Rightarrow> world \<Rightarrow> world" where
  "mint s w = (let (i, w) = AllocSlotLocked w in put_slot i s w)"

lemma mint_inv:
  assumes "pool_inv X w" "\<not> of_closed s" "slot_ok s"
    and "X' = (if of_kind s = KLoose then X - {p. of_fp s = Some p} else X)"
    and "of_kind s = KLoose \<Longrightarrow> \<exists>p \<in> X. of_fp s = Some p"
  shows "pool_inv X' (mint s w)"
proof -
  obtain i w1 where a: "AllocSlotLocked w = (i, w1)" by fastforce
  note A = alloc_spec [OF assms(1) a]
  let ?w = "put_slot i s w1"
  have w: "mint s w = ?w" by (simp add: mint_def a)
  have pool: "in_pool ?w j \<longleftrightarrow> j = i \<or> in_pool w j" for j
    using A(1) A(4) [of j] by (cases "j = i") simp_all
  have sl: "slot ?w j = (if j = i then s else slot w j)" if "in_pool ?w j" for j
    using that slot_put [OF A(1), of j s] A(5) [of j] pool [of j] in_pool_pos [of ?w j] by (cases "j = i") simp_all
  have fps: "live_fp ?w j = (if j = i then (if of_kind s = KLoose then of_fp s else None) else live_fp w j)" for j
    using pool [of j] sl [of j] assms(2) A(1) by (auto simp: live_fp_def)
  have notlive: "live_fp w i = None" using A(3) by (auto simp: live_fp_def)
  have "set (g_freeList ?w) = {j. in_pool ?w j \<and> of_closed (slot ?w j)}"
    using A(6) pool sl assms(2) pool_invD(2) [OF assms(1)] A(1) by (auto split: if_splits)
  moreover have "slot_ok (slot ?w j)" if "in_pool ?w j" for j
    using sl [OF that] pool [of j] that assms(3) pool_invD(3) [OF assms(1)] by (auto split: if_splits)
  moreover have "j = k" if "live_fp ?w j = Some p" "live_fp ?w k = Some p" for j k p
    using that assms(5) pool_invD(4,6) [OF assms(1)] by (auto simp: fps split: if_splits)
  moreover have "dom (c_streams ?w) = X' \<union> {p. \<exists>j. live_fp ?w j = Some p}"
  proof -
    have "{p. \<exists>j. live_fp ?w j = Some p} =
        {p. \<exists>j. live_fp w j = Some p} \<union> {p. of_kind s = KLoose \<and> of_fp s = Some p}"
      using notlive by (simp add: fps set_eq_iff) (metis option.distinct(1))
    then show ?thesis using pool_invD(5) [OF assms(1)] assms(4,5) A(8) by auto
  qed
  moreover have "live_fp ?w j \<noteq> Some p" if "p \<in> X'" for j p
    using that assms(4) pool_invD(6) [OF assms(1)] by (auto simp: fps split: if_splits)
  moreover have "p < c_next ?w" if "p \<in> dom (c_streams ?w)" for p
    using that pool_invD(7) [OF assms(1), of p] A(8,9) by simp
  ultimately show ?thesis unfolding w pool_inv_def using A(7) by simp
qed

lemma MintPak_mint: "pool_inv X w \<Longrightarrow> snd (MintPak b v w) =
    mint (fresh_file\<lparr>of_kind := KPak, of_pakBytes := b, of_size := length b, of_vpath := v\<rparr>) w"
  by (cases "AllocSlotLocked w") (use alloc_spec(2) in \<open>fastforce simp: MintPak_def mint_def fresh_file_def\<close>)

lemma MintLoose_mint: "pool_inv X w \<Longrightarrow> snd (MintLoose (Some p) v w) =
    mint (fresh_file\<lparr>of_fp := Some p, of_vpath := v\<rparr>) w"
  by (cases "AllocSlotLocked w") (use alloc_spec(2) in \<open>fastforce simp: MintLoose_def mint_def fresh_file_def\<close>)

lemma MintFind_mint: "pool_inv X w \<Longrightarrow> length ns = length ds \<Longrightarrow> snd (MintFind ns ds w) =
    mint (fresh_file\<lparr>of_kind := KFind, of_findNames := ns, of_findIsDir := ds\<rparr>) w"
  by (cases "AllocSlotLocked w") (use alloc_spec(2) in \<open>fastforce simp: MintFind_def mint_def fresh_file_def\<close>)

lemma MintPak_inv: "pool_inv X w \<Longrightarrow> pool_inv X (snd (MintPak b v w))"
  unfolding MintPak_mint by (rule mint_inv) (simp_all add: slot_ok_def fresh_file_def)

lemma MintFind_inv: "pool_inv X w \<Longrightarrow> pool_inv X (snd (MintFind ns ds w))"
proof (cases "length ns = length ds")
  case True
  then show "pool_inv X w \<Longrightarrow> ?thesis"
    using MintFind_mint [OF _ True] by simp (rule mint_inv, simp_all add: slot_ok_def fresh_file_def)
qed (simp add: MintFind_def)

lemma MintLoose_inv: "pool_inv {p} w \<Longrightarrow> pool_ok (snd (MintLoose (Some p) v w))"
  unfolding MintLoose_mint by (rule mint_inv) (auto simp: slot_ok_def fresh_file_def)

lemma good_Close: "pool_ok w \<Longrightarrow> good (Close h w)"
proof -
  assume ok: "pool_ok w"
  let ?i = "DecodeId h" and ?s = "slot w (DecodeId h)"
  show ?thesis
  proof (cases "in_pool w ?i \<and> \<not> of_closed ?s")
    case True
    then have i: "in_pool w ?i" "\<not> of_closed ?s" by simp_all
    let ?c = "of_kind ?s = KLoose \<and> of_fp ?s \<noteq> None"
    have "of_kind ?s = KLoose \<Longrightarrow> live w (of_fp ?s)" using live_slot [OF ok i] by simp
    then obtain w1 rc where w1: "(if ?c then fclose (of_fp ?s) w else Some (0, w)) = Some (rc, w1)"
      and st: "c_streams w1 = (c_streams w) |` (- {p. live_fp w ?i = Some p})"
      and pool: "g_slots w1 = g_slots w" "g_freeList w1 = g_freeList w" "c_next w1 = c_next w"
      by (cases ?c) (auto simp: live_def fclose_def live_fp_def i restrict_map_def fun_eq_iff)
    let ?f = "\<lambda>s. s\<lparr>of_fp := (if of_kind s = KLoose then None else of_fp s),
           of_pakBytes := [], of_cursor := 0, of_size := 0, of_findNames := [],
           of_findIsDir := [], of_findCursor := 0, of_closed := True\<rparr>"
    define w2 where "w2 = put_slot ?i (?f ?s) (w1\<lparr>g_freeList := ?i # g_freeList w1\<rparr>)"
    have inp: "in_pool w2 j \<longleftrightarrow> in_pool w j" for j by (simp add: w2_def in_pool_def put_slot_def pool)
    have sl: "slot w2 j = (if j = ?i then ?f ?s else slot w j)" if "in_pool w j" for j
      using that i(1) by (auto simp: w2_def slot_def put_slot_def pool in_pool_def nth_list_update)
    have fps: "live_fp w2 j = (if j = ?i then None else live_fp w j)" for j
      using sl [of j] i by (cases "in_pool w j") (auto simp: live_fp_def inp)
    have fl: "g_freeList w2 = ?i # g_freeList w" by (simp add: w2_def pool)
    have "?i \<notin> set (g_freeList w)" using pool_invD(2) [OF ok] i by simp
    then have dist: "distinct (g_freeList w2)" using pool_invD(1) [OF ok] by (simp add: fl)
    have memb: "x \<in> set (g_freeList w2) \<longleftrightarrow> in_pool w2 x \<and> of_closed (slot w2 x)" for x
    proof (cases "in_pool w x")
      case True
      have "x \<in> set (g_freeList w) \<longleftrightarrow> of_closed (slot w x)" using pool_invD(2) [OF ok] True by blast
      then show ?thesis by (simp add: fl inp True sl [OF True])
    next
      case False
      then have "x \<notin> set (g_freeList w)" "x \<noteq> ?i" using pool_invD(2) [OF ok] i(1) by blast+
      then show ?thesis by (simp add: fl inp False)
    qed
    have "set (g_freeList w2) = {j. in_pool w2 j \<and> of_closed (slot w2 j)}" using memb by blast
    moreover have "slot_ok (slot w2 j)" if "in_pool w2 j" for j
      using that pool_invD(3) [OF ok, of j] by (auto simp: inp sl slot_ok_def)
    moreover have "dom (c_streams w2) = {p. \<exists>j. live_fp w2 j = Some p}"
    proof -
      have "{p. \<exists>j. live_fp w2 j = Some p} = {p. \<exists>j. live_fp w j = Some p} - {p. live_fp w ?i = Some p}"
        using pool_invD(4) [OF ok] by (simp add: fps set_eq_iff) (metis option.distinct(1))
      moreover have "c_streams w2 = c_streams w1" by (simp add: w2_def put_slot_def)
      ultimately show ?thesis using pool_invD(5) [OF ok] by (auto simp: st)
    qed
    moreover have "p < c_next w2" if "p \<in> dom (c_streams w2)" for p
      using that pool_invD(7) [OF ok, of p] by (auto simp: w2_def put_slot_def pool st)
    ultimately have "pool_ok w2"
      using dist pool_invD(4) [OF ok] unfolding pool_inv_def by (auto simp: fps split: if_splits)
    moreover have "Close h w = Some (rc, w2)"
      using True w1 by (simp add: Close_def Let_def w2_def)
    ultimately show ?thesis by simp
  qed (use ok in \<open>auto simp: Close_def Let_def\<close>)
qed

end
