(* ===== verification/Handle_Streams.thy ===== *)
theory Handle_Streams
  imports Handle_Safety
begin

text \<open>
  What a handle promises its reader: a sequence of bytes and a position.  A handle on a pak entry
  keeps this promise exactly, one on a file as long as the reader stays inside the file.  Calls on
  other handles do not disturb a handle.
\<close>

section \<open>Reading as a reference stream\<close>

datatype read_call = CRead nat | CGetc | CGets int | CTell | CSeek int int | CEof | CSize | CData

datatype answer = ABytes bytes bool | AInt int | ABool bool | ALine "bytes option" | AData "bytes option" int

definition answer_with :: "('a \<Rightarrow> answer) \<Rightarrow> ('a \<times> world) option \<Rightarrow> (answer \<times> world) option" where
  "answer_with f r = map_option (\<lambda>(x, w). (f x, w)) r"

fun do_call :: "nat \<Rightarrow> read_call \<Rightarrow> answer op" where
  "do_call h (CRead n) w = answer_with (\<lambda>(got, ok). ABytes got ok) (Read h True n w)"
| "do_call h CGetc w = answer_with AInt (Getc h w)"
| "do_call h (CGets m) w = answer_with ALine (Gets h True m w)"
| "do_call h CTell w = answer_with AInt (Tell h w)"
| "do_call h (CSeek off origin) w = answer_with AInt (Seek h off origin w)"
| "do_call h CEof w = answer_with ABool (Eof h w)"
| "do_call h CSize w = answer_with AInt (FileSize h w)"
| "do_call h CData w = answer_with (\<lambda>(d, n). AData d n) (GetCachedFileData h w)"

definition seek_target :: "bytes \<Rightarrow> nat \<Rightarrow> int \<Rightarrow> int \<Rightarrow> int" where
  "seek_target b p off origin = (if origin = 0 then 0 else if origin = 1 then int p else int (length b)) + off"

text \<open>The reference: bytes, a position, the answer and the new position.\<close>

fun ref_call :: "bytes \<Rightarrow> nat \<Rightarrow> read_call \<Rightarrow> answer \<times> nat" where
  "ref_call b p (CRead n) = (ABytes (take n (drop p b)) True, p + length (take n (drop p b)))"
| "ref_call b p CGetc = (if p < length b then (AInt (uint (b ! p)), p + 1) else (AInt (-1), p))"
| "ref_call b p (CGets m) =
     (if m \<le> 0 \<or> p \<ge> length b then (ALine None, p)
      else (let l = line_of (nat (m - 1)) (drop p b) in (ALine (Some l), p + length l)))"
| "ref_call b p CTell = (AInt (int p), p)"
| "ref_call b p (CSeek off origin) =
     (let t = seek_target b p off origin
      in if origin \<notin> {0, 1, 2} \<or> t < 0 \<or> t > int (length b) then (AInt (-1), p) else (AInt 0, nat t))"
| "ref_call b p CEof = (ABool (p = length b), p)"
| "ref_call b p CSize = (AInt (int (length b)), p)"
| "ref_call b p CData = (AData (Some b) (int (length b)), p)"

fun ref_calls :: "bytes \<Rightarrow> nat \<Rightarrow> read_call list \<Rightarrow> answer list" where
  "ref_calls b p [] = []"
| "ref_calls b p (c # cs) = (let (a, p) = ref_call b p c in a # ref_calls b p cs)"

lemma ref_call_pos: "p \<le> length b \<Longrightarrow> snd (ref_call b p c) \<le> length b"
  by (cases c) (auto simp: Let_def line_of_def)

lemma line_of_take: "take (length (line_of n b)) b = line_of n b"
    "line_of n b = [] \<or> last (line_of n b) \<noteq> 10 \<Longrightarrow> take n b = line_of n b"
proof -
  have "line_of n b = take (min n (length (takeWhile (\<lambda>x. x \<noteq> 10) (take n b)) + 1)) b"
    by (simp add: line_of_def Let_def min.commute)
  then show "take (length (line_of n b)) b = line_of n b" by (simp add: min_def)
next
  assume last: "line_of n b = [] \<or> last (line_of n b) \<noteq> 10"
  let ?l = "take n b" and ?t = "takeWhile (\<lambda>x. x \<noteq> 10) (take n b)"
  have "length ?t = length ?l"
  proof (rule ccontr)
    assume "length ?t \<noteq> length ?l"
    then have lt: "length ?t < length ?l" by (intro le_neq_trans length_takeWhile_le)
    then have "?l ! length ?t = 10" using nth_length_takeWhile [of "\<lambda>x. x \<noteq> 10" ?l] by simp
    moreover have "line_of n b = take (length ?t) ?l @ [?l ! length ?t]"
      using lt by (simp only: line_of_def Let_def Suc_eq_plus1 [symmetric] take_Suc_conv_app_nth)
    ultimately show False using last by simp
  qed
  then have "line_of n b = take (length ?l + 1) ?l" unfolding line_of_def Let_def by (simp only:)
  also have "\<dots> = ?l" by (rule take_all) simp
  finally show "take n b = line_of n b" by (rule sym)
qed

lemma line_of_Nil: "line_of n b = [] \<longleftrightarrow> n = 0 \<or> b = []"
  by (auto simp: line_of_def Let_def)

section \<open>A handle on a pak entry\<close>

definition pak_at :: "nat \<Rightarrow> bytes \<Rightarrow> nat \<Rightarrow> world \<Rightarrow> bool" where
  "pak_at h b p w \<longleftrightarrow>
     (let i = DecodeId h
      in in_pool w i \<and> \<not> of_closed (slot w i) \<and> of_kind (slot w i) = KPak \<and> of_pakBytes (slot w i) = b
        \<and> of_size (slot w i) = length b \<and> of_cursor (slot w i) = p \<and> p \<le> length b)"

lemma pak_at_locked: "pak_at h b p w \<Longrightarrow> SlotLocked w h = Some (DecodeId h)"
  by (simp add: pak_at_def Let_def SlotLocked_def)

lemma pak_at_put:
  "pak_at h b p w \<Longrightarrow> q \<le> length b \<Longrightarrow> pak_at h b q (put_slot (DecodeId h) ((slot w (DecodeId h))\<lparr>of_cursor := q\<rparr>) w)"
  by (auto simp: pak_at_def Let_def slot_put in_pool_pos)

lemma copy_line_of: "copy_line acc n b = acc @ line_of n b"
proof (induction acc n b rule: copy_line.induct)
  case (3 acc room c b)
  then show ?case by (simp add: line_of_def Let_def)
qed (simp_all add: line_of_def)

lemma pak_call:
  assumes "pak_at h b p w"
  shows "\<exists>w'. do_call h c w = Some (fst (ref_call b p c), w') \<and> pak_at h b (snd (ref_call b p c)) w'"
proof -
  let ?s = "slot w (DecodeId h)"
  note l = pak_at_locked [OF assms]
  have s: "of_kind ?s = KPak" "of_pakBytes ?s = b" "of_size ?s = length b" "of_cursor ?s = p" and p: "p \<le> length b"
    using assms by (simp_all add: pak_at_def Let_def)
  note put = pak_at_put [OF assms]
  show ?thesis
  proof (cases c)
    case (CRead n)
    define k where "k = (if n < length b - p then n else length b - p)"
    have k: "take k (drop p b) = take n (drop p b)" "k = length (take n (drop p b))" by (simp_all add: k_def)
    have "Read h True n w = (if n = 0 then Some (([], True), w)
        else Some ((take n (drop p b), True), if k \<noteq> 0 then put_slot (DecodeId h) (?s\<lparr>of_cursor := p + k\<rparr>) w else w))"
      by (simp add: Read_def with_slot_def l s p Let_def k_def [symmetric] k(1))
    moreover have "p + k \<le> length b" using p unfolding k_def by arith
    moreover have "ref_call b p (CRead n) = (ABytes (take n (drop p b)) True, p + k)" using k(2) by simp
    ultimately show ?thesis
      using assms put [of "p + k"] CRead
      by (cases "n = 0"; cases "k = 0") (simp_all add: answer_with_def k_def del: ref_call.simps)
  next
    case CGetc
    then show ?thesis
      using assms put [of "Suc p"] p by (cases "p < length b") (simp_all add: answer_with_def Getc_def with_slot_def l s)
  next
    case (CGets m)
    define ln where "ln = line_of (nat (m - 1)) (drop p b)"
    have "length ln \<le> length b - p" by (simp add: ln_def line_of_def Let_def)
    then have "p + length ln \<le> length b" using p by simp
    moreover have "Gets h True m w = (if m \<le> 0 \<or> p \<ge> length b then Some (None, w)
        else Some (Some ln, put_slot (DecodeId h) (?s\<lparr>of_cursor := p + length ln\<rparr>) w))"
      by (simp add: Gets_def with_slot_def l s Let_def copy_line_of ln_def)
    ultimately show ?thesis
      using assms put [of "p + length ln"] CGets
      by (cases "m \<le> 0 \<or> p \<ge> length b") (auto simp: answer_with_def Let_def ln_def [symmetric])
  next
    case (CSeek off origin)
    define t where "t = seek_target b p off origin"
    have "Seek h off origin w = (if origin \<notin> {0, 1, 2} \<or> t < 0 \<or> t > int (length b) then Some (-1, w)
        else Some (0, put_slot (DecodeId h) (?s\<lparr>of_cursor := nat t\<rparr>) w))"
      by (auto simp: Seek_def with_slot_def l s Let_def t_def seek_target_def)
    then show ?thesis
      using assms put [of "nat t"] CSeek
      by (cases "origin \<notin> {0, 1, 2} \<or> t < 0 \<or> t > int (length b)")
        (simp_all add: answer_with_def Let_def t_def [symmetric] nat_le_iff)
  next
    case CEof
    then show ?thesis using assms p by (auto simp: answer_with_def Eof_def with_slot_def l s)
  qed (use assms in \<open>simp_all add: answer_with_def Tell_def FileSize_def GetCachedFileData_def with_slot_def l s\<close>)
qed

section \<open>A handle on a file\<close>

definition file_at :: "nat \<Rightarrow> bytes \<Rightarrow> nat \<Rightarrow> world \<Rightarrow> bool" where
  "file_at h b p w \<longleftrightarrow>
     (let i = DecodeId h
      in in_pool w i \<and> \<not> of_closed (slot w i) \<and> of_kind (slot w i) = KLoose
        \<and> (\<exists>q s. of_fp (slot w i) = Some q \<and> c_streams w q = Some s \<and> contents w s = b \<and> s_back s = []
            \<and> s_pos s = p \<and> s_read s \<and> \<not> s_err s)
        \<and> (of_size (slot w i) = 0 \<or> of_size (slot w i) = length b) \<and> p \<le> length b)"

text \<open>The calls that tell no difference between a file and a pak entry.\<close>

fun portable :: "bytes \<Rightarrow> nat \<Rightarrow> read_call \<Rightarrow> bool" where
  "portable b p (CGets m) = (m \<noteq> 1)"
| "portable b p (CSeek off origin) =
     (origin \<in> {0, 1, 2} \<and> 0 \<le> seek_target b p off origin \<and> seek_target b p off origin \<le> int (length b))"
| "portable b p CEof = False"
| "portable b p CData = False"
| "portable b p _ = True"

fun all_portable :: "bytes \<Rightarrow> nat \<Rightarrow> read_call list \<Rightarrow> bool" where
  "all_portable b p [] = True"
| "all_portable b p (c # cs) = (portable b p c \<and> all_portable b (snd (ref_call b p c)) cs)"

lemma file_at_put:
  "file_at h b p w \<Longrightarrow> of_fp (slot w (DecodeId h)) = Some q \<Longrightarrow> c_streams w q = Some s \<Longrightarrow>
   s_path s' = s_path s \<Longrightarrow> s_back s' = [] \<Longrightarrow> s_read s' \<Longrightarrow> \<not> s_err s' \<Longrightarrow> s_pos s' \<le> length b \<Longrightarrow>
   file_at h b (s_pos s') (put_stream q s' w)"
  by (auto simp: file_at_def Let_def contents_def put_stream_def slot_def in_pool_def)

lemma file_at_size:
  "file_at h b p w \<Longrightarrow> file_at h b p (put_slot (DecodeId h) ((slot w (DecodeId h))\<lparr>of_size := length b\<rparr>) w)"
  by (auto simp: file_at_def Let_def slot_put in_pool_pos contents_def)

lemma file_call:
  assumes "file_at h b p w" "portable b p c"
  shows "\<exists>w'. do_call h c w = Some (fst (ref_call b p c), w') \<and> file_at h b (snd (ref_call b p c)) w'"
proof -
  let ?s = "slot w (DecodeId h)"
  have l: "SlotLocked w h = Some (DecodeId h)" and k: "of_kind ?s = KLoose" and p: "p \<le> length b"
    and size: "of_size ?s = 0 \<or> of_size ?s = length b"
    using assms(1) by (auto simp: file_at_def Let_def SlotLocked_def)
  obtain q s where q: "of_fp ?s = Some q" "c_streams w q = Some s" "contents w s = b" "s_back s = []"
    "s_pos s = p" "s_read s" "\<not> s_err s"
    using assms(1) by (auto simp: file_at_def Let_def)
  have ahead: "ahead w s = drop p b" by (simp add: ahead_def q)
  have tell: "tell_of s = int p" by (simp add: tell_of_def q)
  note put = file_at_put [OF assms(1) q(1,2)]
  have rd: "read_stream n q s w = (take n (drop p b), put_stream q (s\<lparr>s_pos := p + length (take n (drop p b)),
      s_back := [], s_eof := (s_eof s \<or> length (take n (drop p b)) < n)\<rparr>) w)" for n
    by (simp add: read_stream_def q ahead Let_def)
  have at: "file_at h b (p + length (take n (drop p b))) (snd (read_stream n q s w))" for n
    unfolding rd using put [of "s\<lparr>s_pos := p + length (take n (drop p b)), s_back := [],
        s_eof := (s_eof s \<or> length (take n (drop p b)) < n)\<rparr>"] q p by simp
  show ?thesis
  proof (cases c)
    case (CRead n)
    then show ?thesis
      using assms(1) at [of n] q rd [of n]
      by (cases "n = 0") (auto simp: answer_with_def Read_def with_slot_def l k fread_def ferror_def)
  next
    case CGetc
    have "take 1 (drop p b) = (if p < length b then [b ! p] else [])"
      by (auto simp: take_Suc_conv_app_nth hd_drop_conv_nth)
    then show ?thesis
      using CGetc at [of 1] rd [of 1] q
      by (auto simp: answer_with_def Getc_def with_slot_def l k fgetc_def fread_def byte_or_eof_def split: if_splits)
  next
    case (CGets m)
    define ln where "ln = line_of (nat (m - 1)) (drop p b)"
    show ?thesis
    proof (cases "m \<le> 0")
      case True
      then show ?thesis using assms(1) CGets by (simp add: answer_with_def Gets_def)
    next
      case False
      then have m: "m \<ge> 2" using assms(2) CGets by simp
      define j where "j = (if ln \<noteq> [] \<and> last ln = 10 \<or> length ln = nat (m - 1) then length ln else nat (m - 1))"
      have n: "nat m - 1 = nat (m - 1)" "nat (m - 1) \<noteq> 0" using m by simp_all
      have j: "take j (drop p b) = ln" using line_of_take [of "nat (m - 1)" "drop p b"]
        unfolding j_def ln_def by (cases "line_of (nat (m - 1)) (drop p b) = []") auto
      have r: "read_stream j q s w = (ln, snd (read_stream j q s w))" by (simp only: rd j snd_conv)
      have "gets_stream (nat m - 1) q s w = (if ln = [] then None else Some ln, snd (read_stream j q s w))"
        unfolding gets_stream_def ahead n(1) ln_def [symmetric] Let_def j_def [symmetric] using n(2) q(6)
        by (subst r) simp
      then have "Gets h True m w = Some (if ln = [] then None else Some ln, snd (read_stream j q s w))"
        using m q(1,2) by (simp add: Gets_def with_slot_def l k fgets_def)
      moreover have "ln = [] \<longleftrightarrow> p \<ge> length b" using n by (simp add: ln_def line_of_Nil)
      ultimately show ?thesis
        using CGets False at [of j] unfolding j
        by (cases "ln = []") (auto simp: answer_with_def Let_def ln_def [symmetric])
    qed
  next
    case (CSeek off origin)
    define t where "t = seek_target b p off origin"
    have t: "origin \<in> {0, 1, 2}" "0 \<le> t" "t \<le> int (length b)" using assms(2) CSeek by (simp_all add: t_def)
    have "fseek (of_fp ?s) off origin w = Some (0, put_stream q (s\<lparr>s_pos := nat t, s_back := [], s_eof := False\<rparr>) w)"
      using t q by (auto simp: fseek_def seek_stream_def t_def seek_target_def tell)
    then have "Seek h off origin w = Some (0, put_stream q (s\<lparr>s_pos := nat t, s_back := [], s_eof := False\<rparr>) w)"
      by (simp add: Seek_def with_slot_def l k)
    moreover have "file_at h b (nat t) (put_stream q (s\<lparr>s_pos := nat t, s_back := [], s_eof := False\<rparr>) w)"
      using put [of "s\<lparr>s_pos := nat t, s_back := [], s_eof := False\<rparr>"] q t by simp
    ultimately show ?thesis using CSeek t by (auto simp: answer_with_def Let_def t_def [symmetric])
  next
    case CSize
    show ?thesis
    proof (cases "of_size ?s = 0")
      case False
      then show ?thesis using CSize assms(1) size by (auto simp: answer_with_def FileSize_def with_slot_def l k)
    next
      case True
      let ?s1 = "s\<lparr>s_pos := length b, s_back := [], s_eof := False\<rparr>"
      let ?s2 = "s\<lparr>s_pos := p, s_back := [], s_eof := False\<rparr>"
      let ?w = "put_stream q ?s2 (put_stream q ?s1 w)"
      have w: "?w = put_stream q ?s2 w" by (simp add: put_stream_def)
      have sl: "slot ?w i = slot w i" for i by (simp add: slot_def put_stream_def)
      have "file_at h b p ?w" unfolding w using put [of ?s2] q p by simp
      from file_at_size [OF this] have at2: "file_at h b p (put_slot (DecodeId h) (?s\<lparr>of_size := length b\<rparr>) ?w)"
        by (simp only: sl)
      have "FileSize h w = Some (int (length b), put_slot (DecodeId h) (?s\<lparr>of_size := length b\<rparr>) ?w)"
        using True by (simp add: FileSize_def with_slot_def l k ftell_def fseek_def seek_stream_def q tell tell_of_def)
      then show ?thesis using CSize at2 by (simp add: answer_with_def)
    qed
  next
    case CTell
    then show ?thesis using assms(1) p by (auto simp: answer_with_def Tell_def with_slot_def l k ftell_def q tell)
  qed (use assms(2) in simp_all)
qed

section \<open>Other handles are left alone\<close>

definition others :: "nat \<Rightarrow> world \<Rightarrow> world \<Rightarrow> bool" where
  "others i w w' \<longleftrightarrow> (\<forall>j. j \<noteq> i \<and> in_pool w j \<longrightarrow> in_pool w' j \<and> slot w' j = slot w j)"

definition framed :: "nat \<Rightarrow> world \<Rightarrow> ('a \<times> world) option \<Rightarrow> bool" where
  "framed i w r \<longleftrightarrow> (\<forall>x w'. r = Some (x, w') \<longrightarrow> others i w w')"

lemma others_refl [simp]: "others i w w"
  by (simp add: others_def)

lemma others_put: "i \<noteq> 0 \<Longrightarrow> others i w v \<Longrightarrow> others i w (put_slot i s v)"
  by (auto simp: others_def put_slot_def slot_def in_pool_def nth_list_update)

lemma framed_simps [simp]: "framed i w (Some (x, v)) \<longleftrightarrow> others i w v" "framed i w None"
  by (simp_all add: framed_def)

lemma framed_bind:
  "framed i w r \<Longrightarrow> (\<And>x v. others i w v \<Longrightarrow> framed i w (g (x, v))) \<Longrightarrow> framed i w (Option.bind r g)"
  by (cases r) (auto simp: framed_def)

lemma framed_crt: "others i w v \<Longrightarrow> keeps_streams f \<Longrightarrow> framed i w (on_stream fp f v)"
  unfolding framed_def
  by (auto dest!: on_stream_keeps simp: more_fields others_def in_pool_def slot_def)

lemma framed_map: "framed i w r \<Longrightarrow> framed i w (map_option (\<lambda>(x, v). (f x, v)) r)"
  by (auto simp: framed_def)

lemma framed_with_slot:
  "(\<And>s. DecodeId h \<noteq> 0 \<Longrightarrow> framed (DecodeId h) w (f (DecodeId h) s w)) \<Longrightarrow> framed (DecodeId h) w (with_slot h bad f w)"
  by (auto simp: with_slot_def SlotLocked_def Let_def in_pool_def)

lemma framed_fseek: "others i w v \<Longrightarrow> framed i w (fseek fp off origin v)"
  unfolding fseek_def by (auto intro!: framed_crt keeps_seek keeps_seek3 keeps_seek_cur)

lemma framed_io:
  assumes "others i w v"
  shows "framed i w (fread fp n v)" "framed i w (ferror fp v)" "framed i w (ftell fp v)" "framed i w (feof fp v)"
    "framed i w (fwrite fp d v)" "framed i w (fflush fp v)" "framed i w (ungetc ch fp v)" "framed i w (fgets m fp v)"
  unfolding fread_def ferror_def ftell_def feof_def fwrite_def fflush_def ungetc_def fgets_def
  by (rule framed_crt [OF assms], simp add: keeps)+

lemma framed_fclose: "others i w v \<Longrightarrow> framed i w (fclose fp v)"
  by (auto simp: framed_def fclose_def on_stream_def others_def in_pool_def slot_def split: option.splits)

lemmas frame_rules = framed_bind framed_io framed_fseek framed_fclose framed_map others_put

lemma framed_ops:
  "framed (DecodeId h) w (Read h d n w)" "framed (DecodeId h) w (Seek h off origin w)"
  "framed (DecodeId h) w (Tell h w)" "framed (DecodeId h) w (Eof h w)" "framed (DecodeId h) w (Write h d b w)"
  "framed (DecodeId h) w (Flush h w)" "framed (DecodeId h) w (Error h w)" "framed (DecodeId h) w (Getc h w)"
  "framed (DecodeId h) w (Ungetc h ch w)" "framed (DecodeId h) w (Gets h d m w)"
  "framed (DecodeId h) w (FileSize h w)" "framed (DecodeId h) w (GetCachedFileData h w)"
  "framed (DecodeId h) w (FindPeek h w)" "framed (DecodeId h) w (FindAdvance h w)"
  subgoal unfolding Read_def Let_def by (auto intro!: framed_with_slot frame_rules)
  subgoal unfolding Seek_def Let_def by (intro framed_with_slot) (auto intro!: frame_rules)
  subgoal unfolding Tell_def by (intro framed_with_slot) (auto intro!: frame_rules)
  subgoal unfolding Eof_def by (intro framed_with_slot) (auto intro!: frame_rules)
  subgoal unfolding Write_def by (auto intro!: framed_with_slot frame_rules)
  subgoal unfolding Flush_def by (intro framed_with_slot) (auto intro!: frame_rules)
  subgoal unfolding Error_def by (intro framed_with_slot) (auto intro!: frame_rules)
  subgoal unfolding Getc_def fgetc_def by (intro framed_with_slot) (auto intro!: frame_rules)
  subgoal unfolding Ungetc_def by (intro framed_with_slot) (auto intro!: frame_rules)
  subgoal unfolding Gets_def Let_def by (auto intro!: framed_with_slot frame_rules)
  subgoal unfolding FileSize_def by (intro framed_with_slot) (auto intro!: frame_rules)
  subgoal unfolding GetCachedFileData_def by (intro framed_with_slot) (auto intro!: frame_rules)
  subgoal by (simp add: FindPeek_def Let_def split: option.split)
  subgoal by (auto simp: FindAdvance_def FindSlotLocked_def Let_def in_pool_def intro!: others_put split: option.split)
  done

lemma framed_Close: "framed (DecodeId h) w (Close h w)"
proof -
  have free: "others i w (v\<lparr>g_freeList := fl\<rparr>)" if "others i w v" for i v fl
    using that by (simp add: others_def in_pool_def slot_def)
  show ?thesis unfolding Close_def Let_def by (auto intro!: frame_rules free simp: in_pool_def)
qed

lemma framed_call: "framed (DecodeId h) w (do_call h c w)"
  using framed_ops [of h w] by (cases c) (auto simp: answer_with_def intro!: framed_map)

lemma pak_at_others:
  "pak_at h b p w \<Longrightarrow> others i w w' \<Longrightarrow> i \<noteq> DecodeId h \<Longrightarrow> pak_at h b p w'"
  by (auto simp: pak_at_def Let_def others_def)

text \<open>A minted handle is new to the pool, or reuses the slot of a closed one.\<close>

lemma mint_others:
  assumes "pool_inv X w" "in_pool w j" "\<not> of_closed (slot w j)"
  shows "in_pool (mint s w) j \<and> slot (mint s w) j = slot w j"
proof -
  obtain i w1 where a: "AllocSlotLocked w = (i, w1)" by fastforce
  note A = alloc_spec [OF assms(1) a]
  have "j \<noteq> i" using A(3) assms(2,3) by blast
  then show ?thesis
    using A(1,4,5) assms(2) in_pool_pos [OF assms(2)] by (simp add: mint_def a slot_put)
qed

lemma pak_at_mint: "pool_inv X w \<Longrightarrow> pak_at h b p w \<Longrightarrow> pak_at h b p (mint s w)"
  using mint_others [of X w "DecodeId h" s] by (simp add: pak_at_def Let_def)

lemma MintPak_at:
  assumes "pool_inv X w"
  shows "pak_at (fst (MintPak b v w)) b 0 (snd (MintPak b v w))" "odd (fst (MintPak b v w))"
proof -
  obtain i w1 where a: "AllocSlotLocked w = (i, w1)" by fastforce
  note A = alloc_spec [OF assms a]
  show "pak_at (fst (MintPak b v w)) b 0 (snd (MintPak b v w))" "odd (fst (MintPak b v w))"
    using A(1,2) in_pool_pos [OF A(1)]
    by (simp_all add: MintPak_def a pak_at_def Let_def Encode_def DecodeId_def slot_put fresh_file_def)
qed

section \<open>The contract, and reading in pieces\<close>

text \<open>\<open>stands w b p\<close>: the source stands at position p of the bytes b.\<close>

locale byte_source =
  fixes rd :: "nat \<Rightarrow> 's \<Rightarrow> (bytes \<times> 's) option"
    and sk :: "nat \<Rightarrow> 's \<Rightarrow> 's option"
    and stands :: "bytes \<Rightarrow> nat \<Rightarrow> 's \<Rightarrow> bool"
  assumes rd_ok: "stands b p w \<Longrightarrow> \<exists>w'. rd n w = Some (take n (drop p b), w') \<and> stands b (p + length (take n (drop p b))) w'"
    and sk_ok: "stands b p w \<Longrightarrow> q \<le> length b \<Longrightarrow> \<exists>w'. sk q w = Some w' \<and> stands b q w'"
begin

text \<open>Reads of the given sizes, one after the other.\<close>

primrec reads :: "nat list \<Rightarrow> 's \<Rightarrow> (bytes \<times> 's) option" where
  "reads [] w = Some ([], w)"
| "reads (n # ns) w =
     (case rd n w of
        None \<Rightarrow> None
      | Some (got, w) \<Rightarrow> (case reads ns w of None \<Rightarrow> None | Some (rest, w) \<Rightarrow> Some (got @ rest, w)))"

lemma reads_ok:
  "stands b p w \<Longrightarrow> \<exists>w'. reads ns w = Some (take (sum_list ns) (drop p b), w')
     \<and> stands b (p + length (take (sum_list ns) (drop p b))) w'"
proof (induction ns arbitrary: p w)
  case (Cons n ns)
  obtain w1 where w1: "rd n w = Some (take n (drop p b), w1)" "stands b (p + length (take n (drop p b))) w1"
    using rd_ok [OF Cons.prems] by blast
  obtain w2 where w2: "reads ns w1 = Some (take (sum_list ns) (drop (p + length (take n (drop p b))) b), w2)"
    "stands b (p + length (take n (drop p b)) + length (take (sum_list ns) (drop (p + length (take n (drop p b))) b))) w2"
    using Cons.IH [OF w1(2)] by blast
  let ?g = "take n (drop p b)"
  have e: "?g @ take (sum_list ns) (drop (p + length ?g) b) = take (n + sum_list ns) (drop p b)"
    by (cases "n \<le> length (drop p b)") (simp_all add: take_add add.commute)
  have "p + length ?g + length (take (sum_list ns) (drop (p + length ?g) b)) = p + length (take (n + sum_list ns) (drop p b))"
    unfolding e [symmetric] length_append by (rule add.assoc)
  then have "stands b (p + length (take (n + sum_list ns) (drop p b))) w2" using w2(2) by (simp only:)
  moreover have "reads (n # ns) w = Some (take (n + sum_list ns) (drop p b), w2)"
    unfolding reads.simps w1(1) option.case prod.case w2(1) e by (rule refl)
  ultimately show ?case by simp
qed simp

lemma whole_file:
  assumes "stands b p w" "length b \<le> sum_list ns"
  shows "\<exists>w1 w2. sk 0 w = Some w1 \<and> reads ns w1 = Some (b, w2)"
  using sk_ok [OF assms(1), of 0] reads_ok [of b 0 _ ns] assms(2) by fastforce

end

definition rd_handle :: "nat \<Rightarrow> nat \<Rightarrow> bytes op" where
  "rd_handle h n w = map_option (\<lambda>((got, ok), w). (got, w)) (Read h True n w)"

definition sk_handle :: "nat \<Rightarrow> nat \<Rightarrow> world \<Rightarrow> world option" where
  "sk_handle h q w = map_option snd (Seek h (int q) 0 w)"

interpretation pak: byte_source "rd_handle h" "sk_handle h" "pak_at h" for h
proof
  show "\<exists>w'. rd_handle h n w = Some (take n (drop p b), w') \<and> pak_at h b (p + length (take n (drop p b))) w'"
    if "pak_at h b p w" for b p w n
    using pak_call [OF that, of "CRead n"] by (auto simp: rd_handle_def answer_with_def)
  show "\<exists>w'. sk_handle h q w = Some w' \<and> pak_at h b q w'" if "pak_at h b p w" "q \<le> length b" for b p w q
    using pak_call [OF that(1), of "CSeek (int q) 0"] that(2)
    by (auto simp: sk_handle_def answer_with_def Let_def seek_target_def)
qed

interpretation loose: byte_source "rd_handle h" "sk_handle h" "file_at h" for h
proof
  show "\<exists>w'. rd_handle h n w = Some (take n (drop p b), w') \<and> file_at h b (p + length (take n (drop p b))) w'"
    if "file_at h b p w" for b p w n
    using file_call [OF that, of "CRead n"] by (auto simp: rd_handle_def answer_with_def)
  show "\<exists>w'. sk_handle h q w = Some w' \<and> file_at h b q w'" if "file_at h b p w" "q \<le> length b" for b p w q
    using file_call [OF that(1), of "CSeek (int q) 0"] that(2)
    by (auto simp: sk_handle_def answer_with_def Let_def seek_target_def)
qed

end
