(* ===== verification/Open_Slots.thy ===== *)
theory Open_Slots
  imports Asset_Index Handle_Streams
begin

text \<open>
  src/fs_takeover/open_slots.cpp, loose_mode.cpp and metadata_slots.cpp: resolving a name, opening
  it, and answering questions about it by name.

  The engine's original functions are parameters: \<open>fe_original\<close> is the captured AdjustFileName (None
  when it was not captured) with what it returns and what it leaves in the buffer, and each
  metadata slot takes its own original.  A C string that may be null is an option.  \<open>fe_utf16\<close> counts
  the UTF-16 units of a string, its NUL included.  Paks and files live on the one disk of the world.
  miniz is the pair \<open>fe_inflate\<close>, \<open>fe_crc32\<close>.
\<close>

record fs_env =
  fe_index :: asset_index
  fe_original :: "(string \<Rightarrow> 32 word \<Rightarrow> string option \<times> string) option"
  fe_utf16 :: "string \<Rightarrow> nat"
  fe_inflate :: "bytes \<Rightarrow> nat \<Rightarrow> bytes option"
  fe_crc32 :: "bytes \<Rightarrow> nat"

section \<open>Modes\<close>

definition effective_mode :: "string option \<Rightarrow> string" where
  "effective_mode mode = (case mode of None \<Rightarrow> ''rb'' | Some m \<Rightarrow> if m = [] then ''rb'' else m)"

definition SanitizeLooseMode :: "string option \<Rightarrow> string \<times> bool" where
  "SanitizeLooseMode mode =
     (let m = effective_mode mode; base = hd m;
          writeBase = (base = CHR ''w'' \<or> base = CHR ''a'' \<or> CHR ''+'' \<in> set m);
          out = filter (\<lambda>c. \<not> (c = CHR ''x'' \<and> \<not> writeBase)) m
      in (if out = [] then ''rb'' else out, out \<noteq> m))"

section \<open>Opening\<close>

definition WidenPath :: "fs_env \<Rightarrow> string \<Rightarrow> bool" where
  "WidenPath env path \<longleftrightarrow> fe_utf16 env path \<le> kMaxPath"

definition OpenLooseAndMint :: "fs_env \<Rightarrow> string \<Rightarrow> string option \<Rightarrow> string \<Rightarrow> nat op" where
  "OpenLooseAndMint env diskPath mode vpathForLog w =
     (if \<not> WidenPath env diskPath then Some (0, w)
      else (let m = fst (SanitizeLooseMode mode)
            in if fe_utf16 env m > 16 then Some (0, w)
               else do {
                   (fp, w) \<leftarrow> wfopen_s diskPath m w;
                   case fp of
                     None \<Rightarrow> Some (0, w)
                   | Some p \<Rightarrow>
                       (let (h, w) = MintLoose (Some p) vpathForLog w
                        in if h = 0 then map_option (\<lambda>(rc, w). (0, w)) (fclose (Some p) w) else Some (h, w))
                 }))"

fun source_entry :: "byte_source \<Rightarrow> string \<Rightarrow> pak_entry" where
  "source_entry (Pak pk off sz csz meth cr) vpath =
     \<lparr>pe_name = vpath, pe_local_header_offset = off, pe_compressed_size = csz, pe_uncompressed_size = sz,
      pe_method = meth, pe_crc32 = cr\<rparr>"
| "source_entry (Loose d) vpath =
     \<lparr>pe_name = vpath, pe_local_header_offset = 0, pe_compressed_size = 0, pe_uncompressed_size = 0,
      pe_method = 0, pe_crc32 = 0\<rparr>"

definition OpenPakAndMint :: "fs_env \<Rightarrow> byte_source \<Rightarrow> string \<Rightarrow> nat op" where
  "OpenPakAndMint env src vpathForLog w =
     (case ReadPakEntry (fe_inflate env) (fe_crc32 env) (c_files w (path_string (pakFile src)))
             (source_entry src vpathForLog) of
        Inl e \<Rightarrow> Some (0, w)
      | Inr b \<Rightarrow> Some (MintPak b vpathForLog w))"

text \<open>What is written to the caller's buffer, given its room.\<close>

definition clamp_out :: "int option \<Rightarrow> string \<Rightarrow> string option" where
  "clamp_out resolvedCap resolvedDisk =
     (case resolvedCap of
        None \<Rightarrow> None
      | Some cap \<Rightarrow>
          if cap \<le> 0 then None
          else Some (take (nat (if cap < int kMaxPath then cap else int kMaxPath) - 1) resolvedDisk))"

definition with_out :: "int option \<Rightarrow> string \<Rightarrow> (nat \<times> world) option \<Rightarrow> ((nat \<times> string option) \<times> world) option" where
  "with_out cap resolvedDisk r = map_option (\<lambda>(h, w). ((h, clamp_out cap resolvedDisk), w)) r"

definition OpenResolvedAndMint :: "fs_env \<Rightarrow> string \<Rightarrow> string option \<Rightarrow> 32 word \<Rightarrow> int option
    \<Rightarrow> (nat \<times> string option) op" where
  "OpenResolvedAndMint env pName szMode nFlags resolvedCap w =
     (let key = NormalizeVPath pName
      in case ResolveVPath (fe_index env) key of
           Some (Loose d) \<Rightarrow> with_out resolvedCap d (OpenLooseAndMint env d szMode key w)
         | Some (Pak pk off sz csz meth cr) \<Rightarrow>
             with_out resolvedCap (path_string pk) (OpenPakAndMint env (Pak pk off sz csz meth cr) key w)
         | None \<Rightarrow>
             (case fe_original env of
                None \<Rightarrow> Some ((0, None), w)
              | Some orig \<Rightarrow>
                  (let (r, buf) = orig pName nFlags;
                       resolvedC = (case r of Some s \<Rightarrow> s | None \<Rightarrow> buf)
                   in if resolvedC = [] then Some ((0, None), w)
                      else with_out resolvedCap resolvedC (OpenLooseAndMint env resolvedC szMode key w))))"

definition kcdx_FOpen :: "fs_env \<Rightarrow> string option \<Rightarrow> string option \<Rightarrow> 32 word \<Rightarrow> nat op" where
  "kcdx_FOpen env pName szMode nFlags w =
     (case pName of
        None \<Rightarrow> Some (0, w)
      | Some n \<Rightarrow> map_option (\<lambda>((h, out), w). (h, w)) (OpenResolvedAndMint env n szMode nFlags None w))"

definition kcdx_FOpenRaw :: "fs_env \<Rightarrow> string option \<Rightarrow> string option \<Rightarrow> int option \<Rightarrow> (nat \<times> string option) op" where
  "kcdx_FOpenRaw env pName szMode outCap w =
     (case pName of
        None \<Rightarrow> Some ((0, None), w)
      | Some n \<Rightarrow> OpenResolvedAndMint env n szMode 0 outCap w)"

text \<open>Slot 1: a path in the caller's buffer, the null pointer, or what the original answers.\<close>

datatype adjust_answer = AskOriginal | NoPath | OutBuf string

definition ask_original :: "fs_env \<Rightarrow> adjust_answer \<Rightarrow> adjust_answer" where
  "ask_original env otherwise = (if fe_original env \<noteq> None then AskOriginal else otherwise)"

definition kcdx_AdjustFileName :: "fs_env \<Rightarrow> string option \<Rightarrow> bool \<Rightarrow> adjust_answer" where
  "kcdx_AdjustFileName env pName hasOutBuf =
     (case pName of
        None \<Rightarrow> ask_original env NoPath
      | Some n \<Rightarrow>
          if \<not> hasOutBuf then ask_original env NoPath
          else (let key = NormalizeVPath n
                in case ResolveVPath (fe_index env) key of
                     Some (Loose d) \<Rightarrow>
                       if length d \<ge> kMaxPath then ask_original env (OutBuf (take (kMaxPath - 1) d))
                       else OutBuf d
                   | Some (Pak pk off sz csz meth cr) \<Rightarrow>
                       if length n \<ge> kMaxPath then ask_original env (OutBuf (take (kMaxPath - 1) n))
                       else OutBuf n
                   | None \<Rightarrow> ask_original env (OutBuf (take (kMaxPath - 1) n))))"

section \<open>Questions by name\<close>

text \<open>The size of a disk file, if it is there.\<close>

definition StatDiskPath :: "fs_env \<Rightarrow> 'a crt_scheme \<Rightarrow> string \<Rightarrow> nat option" where
  "StatDiskPath env w d = (if \<not> WidenPath env d then None else map_option length (c_files w d))"

definition kcdx_IsFolder :: "(string \<Rightarrow> bool) option \<Rightarrow> string option \<Rightarrow> bool" where
  "kcdx_IsFolder orig pName =
     (case pName of None \<Rightarrow> False | Some n \<Rightarrow> (case orig of None \<Rightarrow> False | Some f \<Rightarrow> f n))"

definition kcdx_GetFileSize :: "fs_env \<Rightarrow> (string \<Rightarrow> bool \<Rightarrow> nat) option \<Rightarrow> 'a crt_scheme \<Rightarrow> string option \<Rightarrow> bool
    \<Rightarrow> nat" where
  "kcdx_GetFileSize env orig w pName bDiskOnly =
     (case pName of
        None \<Rightarrow> 0
      | Some n \<Rightarrow>
          (let miss = (case orig of None \<Rightarrow> 0 | Some f \<Rightarrow> f n bDiskOnly)
           in case ResolveVPath (fe_index env) n of
                Some (Pak pk off sz csz meth cr) \<Rightarrow> if bDiskOnly then miss else sz
              | Some (Loose d) \<Rightarrow> (case StatDiskPath env w d of Some k \<Rightarrow> k | None \<Rightarrow> miss)
              | None \<Rightarrow> miss))"

definition kcdx_IsFileExist3 :: "fs_env \<Rightarrow> (string \<Rightarrow> int \<Rightarrow> bool) option \<Rightarrow> 'a crt_scheme \<Rightarrow> string option \<Rightarrow> int
    \<Rightarrow> bool" where
  "kcdx_IsFileExist3 env orig w pName location =
     (case pName of
        None \<Rightarrow> False
      | Some n \<Rightarrow>
          (let miss = (case orig of None \<Rightarrow> False | Some f \<Rightarrow> f n location)
           in case ResolveVPath (fe_index env) n of
                None \<Rightarrow> miss
              | Some (Pak pk off sz csz meth cr) \<Rightarrow> if location = 1 then miss else True
              | Some (Loose d) \<Rightarrow>
                  if location = 2 then miss
                  else if location = 1 then (if StatDiskPath env w d \<noteq> None then True else miss)
                  else True))"

definition kcdx_GetFileAttributes :: "(string \<Rightarrow> nat) option \<Rightarrow> string option \<Rightarrow> nat" where
  "kcdx_GetFileAttributes orig pName =
     (case pName of None \<Rightarrow> 0 | Some n \<Rightarrow> (case orig of None \<Rightarrow> 0 | Some f \<Rightarrow> f n))"

definition kcdx_GetFileStat :: "(string \<Rightarrow> int) option \<Rightarrow> string option \<Rightarrow> bool \<Rightarrow> int" where
  "kcdx_GetFileStat orig pName hasOut =
     (case pName of
        None \<Rightarrow> -1
      | Some n \<Rightarrow> if \<not> hasOut then -1 else (case orig of None \<Rightarrow> -1 | Some f \<Rightarrow> f n))"

definition kcdx_IsFileExist2 :: "fs_env \<Rightarrow> (string \<Rightarrow> bool) option \<Rightarrow> string option \<Rightarrow> bool" where
  "kcdx_IsFileExist2 env orig pName =
     (case pName of
        None \<Rightarrow> False
      | Some n \<Rightarrow>
          if ResolveVPath (fe_index env) n \<noteq> None then True
          else (case orig of None \<Rightarrow> False | Some f \<Rightarrow> f n))"

definition kcdx_GetFileSizeOnDisk :: "fs_env \<Rightarrow> (string \<Rightarrow> int) option \<Rightarrow> 'a crt_scheme \<Rightarrow> string option \<Rightarrow> int" where
  "kcdx_GetFileSizeOnDisk env orig w pName =
     (case pName of
        None \<Rightarrow> 0
      | Some n \<Rightarrow>
          (let miss = (case orig of None \<Rightarrow> 0 | Some f \<Rightarrow> f n)
           in case ResolveVPath (fe_index env) n of
                Some (Pak pk off sz csz meth cr) \<Rightarrow> int sz
              | Some (Loose d) \<Rightarrow> (case StatDiskPath env w d of Some k \<Rightarrow> int k | None \<Rightarrow> miss)
              | None \<Rightarrow> miss))"

definition kcdx_GetFileSizeCompressed :: "fs_env \<Rightarrow> (string \<Rightarrow> u32) option \<Rightarrow> 'a crt_scheme \<Rightarrow> string option \<Rightarrow> u32" where
  "kcdx_GetFileSizeCompressed env orig w pName =
     (case pName of
        None \<Rightarrow> 0
      | Some n \<Rightarrow>
          (let miss = (case orig of None \<Rightarrow> 0 | Some f \<Rightarrow> f n)
           in case ResolveVPath (fe_index env) n of
                Some (Pak pk off sz csz meth cr) \<Rightarrow> of_nat csz
              | Some (Loose d) \<Rightarrow> (case StatDiskPath env w d of Some k \<Rightarrow> of_nat k | None \<Rightarrow> miss)
              | None \<Rightarrow> miss))"

section \<open>Lemmas: opening keeps the pool\<close>

lemma wfopen_cases:
  assumes "wfopen_s path m w = Some (fp, w')"
  obtains "fp = None" "w' = w"
  | fs where "fp = Some (c_next w)"
      "w' = put_stream (c_next w) (mode_stream path m) (w\<lparr>c_files := fs, c_next := c_next w + 1\<rparr>)"
      "\<And>q. q \<noteq> path \<Longrightarrow> fs q = c_files w q" "m = ''rb'' \<Longrightarrow> fs = c_files w"
proof (cases "fp = None")
  case True
  then have "w' = w" using assms by (auto simp: wfopen_s_def open_stream_def split: if_splits option.splits)
  then show thesis using that(1) True by simp
next
  case False
  define fs where "fs = (if hd m = CHR ''w'' \<or> c_files w path = None then (c_files w)(path \<mapsto> []) else c_files w)"
  have o: "open_stream path m (w\<lparr>c_files := fs\<rparr>) = (fp, w')"
    using assms False by (cases "c_files w path") (auto simp: wfopen_s_def fs_def split: if_splits)
  show thesis
  proof (rule that(2) [of fs])
    show "fs q = c_files w q" if "q \<noteq> path" for q using that by (simp add: fs_def)
    show "fs = c_files w" if "m = ''rb''"
      using assms False that by (auto simp: wfopen_s_def fs_def split: if_splits option.splits)
  qed (use o in \<open>auto simp: open_stream_def\<close>)
qed

lemma wfopen_inv:
  assumes "pool_ok w" "wfopen_s path m w = Some (fp, w')"
  shows "case fp of None \<Rightarrow> pool_ok w' | Some p \<Rightarrow> pool_inv {p} w'"
  using assms(2)
proof (cases rule: wfopen_cases)
  case (2 fs)
  have eq: "live_fp w' i = live_fp w i" "slot w' i = slot w i" "in_pool w' i = in_pool w i" for i
    by (simp_all add: 2 live_fp_def slot_def in_pool_def put_stream_def)
  have st: "c_streams w' = (c_streams w)(c_next w \<mapsto> mode_stream path m)" "c_next w' = c_next w + 1"
    "g_freeList w' = g_freeList w"
    by (simp_all add: 2 put_stream_def)
  have "c_next w \<notin> dom (c_streams w)" using pool_invD(7) [OF assms(1), of "c_next w"] by blast
  then have "live_fp w i \<noteq> Some (c_next w)" for i using pool_invD(5) [OF assms(1)] by blast
  moreover have "p < c_next w + 1" if "p \<in> dom (c_streams w')" for p
    using that pool_invD(7) [OF assms(1), of p] by (cases "p = c_next w") (auto simp: st)
  ultimately show ?thesis
    using assms(1) 2(1) unfolding pool_inv_def by (simp add: eq st less_Suc_eq)
qed (use assms(1) in simp)

lemma MintLoose_handle: "fst (MintLoose (Some p) v w) \<noteq> 0"
  by (simp add: MintLoose_def split_def Let_def Encode_def)

lemma OpenLoose_steps:
  "OpenLooseAndMint env d mode v w =
     (if \<not> WidenPath env d \<or> fe_utf16 env (fst (SanitizeLooseMode mode)) > 16 then Some (0, w)
      else (case wfopen_s d (fst (SanitizeLooseMode mode)) w of
              None \<Rightarrow> None
            | Some (fp, w1) \<Rightarrow> (case fp of None \<Rightarrow> Some (0, w1) | Some p \<Rightarrow> Some (MintLoose (Some p) v w1))))"
proof -
  have "(let (h, w) = MintLoose (Some p) v w1
         in if h = 0 then map_option (\<lambda>(rc, w). (0, w)) (fclose (Some p) w) else Some (h, w)) = Some (MintLoose (Some p) v w1)" for p w1
    using MintLoose_handle [of p v w1] by (cases "MintLoose (Some p) v w1") simp
  then show ?thesis
    by (auto simp: OpenLooseAndMint_def Let_def [of "fst (SanitizeLooseMode mode)"] split: option.split)
qed

lemma wfopen_valid: "valid_mode m \<Longrightarrow> \<exists>fp w'. wfopen_s d m w = Some (fp, w')"
  by (cases "wfopen_s d m w") (auto simp: wfopen_s_def)

lemma good_OpenLoose:
  assumes "pool_ok w" "valid_mode (fst (SanitizeLooseMode mode))"
  shows "good (OpenLooseAndMint env d mode v w)"
proof -
  obtain fp w' where w': "wfopen_s d (fst (SanitizeLooseMode mode)) w = Some (fp, w')"
    using wfopen_valid [OF assms(2)] by blast
  have inv: "case fp of None \<Rightarrow> pool_ok w' | Some p \<Rightarrow> pool_inv {p} w'" by (rule wfopen_inv [OF assms(1) w'])
  show ?thesis
  proof (cases fp)
    case (Some p)
    then have "pool_ok (snd (MintLoose (Some p) v w'))" using inv MintLoose_inv by simp
    then show ?thesis
      using assms(1) Some by (cases "MintLoose (Some p) v w'") (simp add: OpenLoose_steps w')
  qed (use assms(1) inv in \<open>simp add: OpenLoose_steps w'\<close>)
qed

lemma good_OpenPak: "pool_ok w \<Longrightarrow> good (OpenPakAndMint env src v w)"
  using MintPak_inv [of "{}" w] by (auto simp: OpenPakAndMint_def good_def split: sum.split) (metis surj_pair prod.sel(2))

lemma good_with_out: "good r \<Longrightarrow> good (with_out cap d r)"
  by (auto simp: good_def with_out_def)

lemma good_OpenResolved:
  "pool_ok w \<Longrightarrow> valid_mode (fst (SanitizeLooseMode mode)) \<Longrightarrow> good (OpenResolvedAndMint env n mode flags cap w)"
  unfolding OpenResolvedAndMint_def Let_def
  by (auto intro!: good_with_out good_OpenLoose good_OpenPak split: option.split byte_source.split prod.split)

lemma good_FOpen:
  "pool_ok w \<Longrightarrow> valid_mode (fst (SanitizeLooseMode mode)) \<Longrightarrow> good (kcdx_FOpen env n mode flags w)"
  using good_OpenResolved [of w mode env _ flags None]
  by (auto simp: kcdx_FOpen_def good_def split: option.split) blast

text \<open>An open does not disturb a live handle.\<close>

lemma pak_at_OpenLoose:
  assumes "pool_ok w" "pak_at h b p w" "OpenLooseAndMint env d mode v w = Some (h', w')"
  shows "pak_at h b p w'"
proof -
  consider "w' = w" | fp w1 where "wfopen_s d (fst (SanitizeLooseMode mode)) w = Some (fp, w1)"
      "(fp = None \<and> w' = w1) \<or> (\<exists>q. fp = Some q \<and> w' = snd (MintLoose (Some q) v w1))"
    using assms(3) by (fastforce simp: OpenLoose_steps split: if_splits option.splits)
  then show ?thesis
  proof cases
    case (2 fp w1)
    have "in_pool w1 i = in_pool w i \<and> slot w1 i = slot w i" for i
      using 2(1) by (cases rule: wfopen_cases) (simp_all add: in_pool_def slot_def put_stream_def)
    then have at: "pak_at h b p w1" using assms(2) by (simp add: pak_at_def Let_def)
    show ?thesis
    proof (cases fp)
      case (Some q)
      have "pool_inv {q} w1" using wfopen_inv [OF assms(1) 2(1)] Some by simp
      then show ?thesis using 2(2) Some pak_at_mint [OF _ at] by (auto simp: MintLoose_mint)
    qed (use 2(2) at in simp)
  qed (use assms(2) in simp)
qed

lemma pak_at_OpenPak:
  "pool_ok w \<Longrightarrow> pak_at h b p w \<Longrightarrow> OpenPakAndMint env src v w = Some (h', w') \<Longrightarrow> pak_at h b p w'"
  using pak_at_mint MintPak_mint [of "{}" w] by (auto simp: OpenPakAndMint_def split: sum.splits) (metis snd_conv)

lemma pak_at_FOpen:
  "pool_ok w \<Longrightarrow> pak_at h b p w \<Longrightarrow> kcdx_FOpen env n mode flags w = Some (h', w') \<Longrightarrow> pak_at h b p w'"
  by (auto simp: kcdx_FOpen_def OpenResolvedAndMint_def with_out_def Let_def
      split: option.splits byte_source.splits prod.splits if_splits dest: pak_at_OpenLoose pak_at_OpenPak)

end
