(* ===== verification/Find_Slots.thy ===== *)
theory Find_Slots
  imports Open_Slots "HOL-Library.Sublist"
begin

text \<open>
  src/fs_takeover/find_slots.cpp and enum_slots.cpp: listing a directory as the union of what is on
  disk and what the paks hold.

  The system's directory listing (\<open>_wfindfirst64\<close> and its successor) is the parameter \<open>walk\<close>: the
  base names matching a disk pattern with their directory flags.  The index is an unordered map, so
  the loops over it run over \<open>idx\<close>, its pairs in any order.  The matcher keeps the rest of the name and
  of the mask where the code keeps positions in them.
\<close>

section \<open>Patterns\<close>

definition DirPrefixLen :: "string \<Rightarrow> nat" where
  "DirPrefixLen pattern = length pattern - length (takeWhile (\<lambda>c. \<not> path_sep c) (rev pattern))"

definition IndexDirPrefix :: "string \<Rightarrow> string" where
  "IndexDirPrefix pattern = FoldEngineAliasToIndexKey (NormalizeVPath (take (DirPrefixLen pattern) pattern))"

definition IndexNameMask :: "string \<Rightarrow> string" where
  "IndexNameMask pattern = NormalizeVPath (drop (DirPrefixLen pattern) pattern)"

text \<open>What is left of the name and of the mask, and both as they were behind the last star.\<close>

function wild :: "string \<Rightarrow> string \<Rightarrow> (string \<times> string) option \<Rightarrow> bool" where
  "wild [] ms star = list_all (\<lambda>m. m = CHR ''*'') ms"
| "wild (c # ns) ms star =
     (if ms \<noteq> [] \<and> (hd ms = CHR ''?'' \<or> hd ms = c) then wild ns (tl ms) star
      else if ms \<noteq> [] \<and> hd ms = CHR ''*'' then wild (c # ns) (tl ms) (Some (tl ms, c # ns))
      else (case star of
              None \<Rightarrow> False
            | Some (sm, []) \<Rightarrow> False
            | Some (sm, s # sn) \<Rightarrow> wild sn sm (Some (sm, sn))))"
  by pat_completeness auto

text \<open>
  The loop ends: a step back moves the point behind the star one character on, and any other step
  eats a character of the name or of the mask.
\<close>

termination
  by (relation "measures [\<lambda>(ns, ms, star). max (length ns) (case star of None \<Rightarrow> 0 | Some (sm, sn) \<Rightarrow> length sn),
        \<lambda>(ns, ms, star). length ns + length ms]")
    (auto simp: neq_Nil_conv split: option.split)

definition WildcardMatch :: "string \<Rightarrow> string \<Rightarrow> bool" where
  "WildcardMatch name msk \<longleftrightarrow> (if msk = [] then True else wild name msk None)"

definition MaskMatchesDirectories :: "string \<Rightarrow> bool" where
  "MaskMatchesDirectories msk \<longleftrightarrow> msk = [] \<or> msk = ''*'' \<or> msk = ''*.*''"

section \<open>The unified listing\<close>

record find_entry =
  fd_name :: string
  fd_isDir :: bool

definition kFindDataNameOffset :: nat where
  "kFindDataNameOffset = 0x24"

definition kFindDataDirBit :: byte where
  "kFindDataDirBit = 0x10"

definition kFindDataNameCap :: nat where
  "kFindDataNameCap = 260"

definition DiskWalk :: "fs_env \<Rightarrow> (string \<Rightarrow> (string \<times> bool) list) \<Rightarrow> string \<Rightarrow> (string \<times> bool) list" where
  "DiskWalk env walk resolvedPattern =
     (if resolvedPattern = [] \<or> \<not> WidenPath env resolvedPattern then []
      else filter (\<lambda>(n, d). n \<noteq> ''.'' \<and> n \<noteq> ''..'') (walk resolvedPattern))"

text \<open>The entries so far and the subfolders already listed.\<close>

definition unify_step :: "string set \<Rightarrow> string \<Rightarrow> string \<Rightarrow> string \<times> byte_source
    \<Rightarrow> find_entry list \<times> string set \<Rightarrow> find_entry list \<times> string set" where
  "unify_step seen normPrefix nameMask kv st =
     (let (vpath, src) = kv; (es, emitted) = st
      in case src of
           Loose d \<Rightarrow> st
         | Pak pk off sz csz meth cr \<Rightarrow>
             if length vpath \<le> length normPrefix \<or> \<not> starts_with normPrefix vpath then st
             else (let rest = drop (length normPrefix) vpath; subdir = takeWhile (\<lambda>c. c \<noteq> CHR ''/'') rest
                   in if CHR ''/'' \<in> set rest
                      then if \<not> MaskMatchesDirectories nameMask \<or> subdir = [] \<or> NormalizeVPath subdir \<in> seen
                              \<or> NormalizeVPath subdir \<in> emitted then st
                           else (es @ [\<lparr>fd_name = subdir, fd_isDir = True\<rparr>], insert (NormalizeVPath subdir) emitted)
                      else if \<not> WildcardMatch rest nameMask \<or> NormalizeVPath rest \<in> seen then st
                      else (es @ [\<lparr>fd_name = rest, fd_isDir = False\<rparr>], emitted)))"

definition BuildUnifiedFindEntries :: "(string \<times> bool) list \<Rightarrow> (string \<times> byte_source) list \<Rightarrow> string \<Rightarrow> string
    \<Rightarrow> find_entry list" where
  "BuildUnifiedFindEntries disk idx normPrefix nameMask =
     (let es = map (\<lambda>(n, d). \<lparr>fd_name = n, fd_isDir = d\<rparr>) disk;
          seen = NormalizeVPath ` set (map fst disk)
      in fst (fold (unify_step seen normPrefix nameMask) idx (es, {})))"

definition FillFindData :: "nat \<Rightarrow> find_entry \<Rightarrow> bytes" where
  "FillFindData nameCap e =
     (if fd_isDir e then kFindDataDirBit else 0) # replicate (kFindDataNameOffset - 1) 0
       @ (if nameCap = 0 then [] else take (nameCap - 1) (char_bytes (fd_name e)) @ [0])"

section \<open>The iterator slots\<close>

definition resolved_pattern :: "fs_env \<Rightarrow> string \<Rightarrow> string" where
  "resolved_pattern env pattern =
     (case kcdx_AdjustFileName env (Some pattern) True of
        OutBuf s \<Rightarrow> s
      | NoPath \<Rightarrow> []
      | AskOriginal \<Rightarrow>
          (case fe_original env of
             None \<Rightarrow> []
           | Some orig \<Rightarrow> (case orig pattern 0 of (Some s, buf) \<Rightarrow> s | (None, buf) \<Rightarrow> buf)))"

definition find_set :: "fs_env \<Rightarrow> (string \<Rightarrow> (string \<times> bool) list) \<Rightarrow> (string \<times> byte_source) list \<Rightarrow> string
    \<Rightarrow> find_entry list" where
  "find_set env walk idx pattern =
     BuildUnifiedFindEntries (DiskWalk env walk (resolved_pattern env pattern)) idx (IndexDirPrefix pattern)
       (IndexNameMask pattern)"

text \<open>The result is the handle and what is written to the caller's find data.\<close>

definition kcdx_FindFirst :: "fs_env \<Rightarrow> (string \<Rightarrow> (string \<times> bool) list) \<Rightarrow> (string \<times> byte_source) list
    \<Rightarrow> string option \<Rightarrow> bool \<Rightarrow> (int \<times> bytes option) op" where
  "kcdx_FindFirst env walk idx pattern hasData w =
     (case pattern of
        None \<Rightarrow> Some ((-1, None), w)
      | Some pat \<Rightarrow>
          if \<not> hasData then Some ((-1, None), w)
          else (let es = find_set env walk idx pat
                in if es = [] then Some ((-1, None), w)
                   else (let (h, w) = MintFind (map fd_name es) (map fd_isDir es) w
                         in if h = 0 then Some ((-1, None), w)
                            else do {
                                (e, w) \<leftarrow> FindPeek h w;
                                case e of
                                  None \<Rightarrow> do { (rc, w) \<leftarrow> Close h w; Some ((-1, None), w) }
                                | Some (n, d) \<Rightarrow> do {
                                      (ok, w) \<leftarrow> FindAdvance h w;
                                      Some ((int h, Some (FillFindData kFindDataNameCap \<lparr>fd_name = n, fd_isDir = d\<rparr>)), w)
                                    }
                              })))"

definition kcdx_FindNext :: "int \<Rightarrow> bool \<Rightarrow> (int \<times> bytes option) op" where
  "kcdx_FindNext handle hasData w =
     (if \<not> hasData \<or> handle < 0 then Some ((-1, None), w)
      else do {
          (e, w) \<leftarrow> FindPeek (nat handle) w;
          case e of
            None \<Rightarrow> Some ((-1, None), w)
          | Some (n, d) \<Rightarrow> do {
                (ok, w) \<leftarrow> FindAdvance (nat handle) w;
                Some ((0, Some (FillFindData kFindDataNameCap \<lparr>fd_name = n, fd_isDir = d\<rparr>)), w)
              }
        })"

definition kcdx_FindClose :: "int \<Rightarrow> int op" where
  "kcdx_FindClose handle w = (if handle < 0 then Some (0, w) else Close (nat handle) w)"

section \<open>Slot 14\<close>

text \<open>The paths the engine's callback is called with, and the result.\<close>

definition foreach_disk :: "fs_env \<Rightarrow> (string \<Rightarrow> (string \<times> bool) list) \<Rightarrow> string \<Rightarrow> string list" where
  "foreach_disk env walk pattern =
     (let r = resolved_pattern env pattern
      in if r = [] \<or> \<not> WidenPath env r then []
         else filter (\<lambda>full. full \<noteq> [] \<and> length full < kMaxPath) (map (\<lambda>(n, d). take (DirPrefixLen r) r @ n) (walk r)))"

definition foreach_index :: "(string \<times> byte_source) list \<Rightarrow> string \<Rightarrow> string list" where
  "foreach_index idx pattern =
     (let prefix = IndexDirPrefix pattern
      in map fst (filter (\<lambda>(vpath, src). (case src of Loose d \<Rightarrow> False | Pak pk off sz csz meth cr \<Rightarrow> True)
           \<and> \<not> length vpath \<le> length prefix \<and> starts_with prefix vpath
           \<and> CHR ''/'' \<notin> set (drop (length prefix) vpath)) idx))"

definition kcdx_ForEachFile :: "fs_env \<Rightarrow> (string \<Rightarrow> (string \<times> bool) list) \<Rightarrow> (string \<times> byte_source) list
    \<Rightarrow> string option \<Rightarrow> bool \<Rightarrow> nat \<times> string list" where
  "kcdx_ForEachFile env walk idx pattern hasCallback =
     (case pattern of
        None \<Rightarrow> (0, [])
      | Some p \<Rightarrow>
          if \<not> hasCallback then (0, [])
          else (let calls = foreach_disk env walk p @ foreach_index idx p in (if calls \<noteq> [] then 1 else 0, calls)))"

section \<open>The matcher is the glob\<close>

fun glob :: "string \<Rightarrow> string \<Rightarrow> bool" where
  "glob [] name = (name = [])"
| "glob (m # ms) name =
     (if m = CHR ''*'' then list_ex (glob ms) (suffixes name)
      else name \<noteq> [] \<and> (m = CHR ''?'' \<or> m = hd name) \<and> glob ms (tl name))"

lemma glob_star: "glob (CHR ''*'' # ms) name \<longleftrightarrow> (\<exists>t. suffix t name \<and> glob ms t)"
  by (auto simp: list_ex_iff in_set_suffixes)

lemma glob_Nil: "glob ms [] \<longleftrightarrow> list_all (\<lambda>m. m = CHR ''*'') ms"
  by (induction ms) (auto simp: list_ex_iff)

lemma glob_plain:
  "CHR ''*'' \<notin> set pre \<Longrightarrow> glob (pre @ ms) t \<Longrightarrow> length pre \<le> length t \<and> glob ms (drop (length pre) t)"
proof (induction pre arbitrary: t)
  case (Cons p pre)
  then show ?case by (cases t) auto
qed simp

text \<open>What the loop is still asked: the rest matches, or the part behind the last star matches later.\<close>

definition asked :: "string \<Rightarrow> string \<Rightarrow> (string \<times> string) option \<Rightarrow> bool" where
  "asked ns ms star \<longleftrightarrow> glob ms ns
     \<or> (case star of None \<Rightarrow> False | Some (sm, sn) \<Rightarrow> \<exists>t. strict_suffix t sn \<and> glob sm t)"

definition since_star :: "string \<Rightarrow> string \<Rightarrow> (string \<times> string) option \<Rightarrow> bool" where
  "since_star ns ms star \<longleftrightarrow>
     (case star of None \<Rightarrow> True
      | Some (sm, sn) \<Rightarrow> (\<exists>pre x. sm = pre @ ms \<and> sn = x @ ns \<and> length x = length pre \<and> CHR ''*'' \<notin> set pre))"

lemma later_short:
  assumes "strict_suffix t (x @ ns)" "CHR ''*'' \<notin> set pre" "length x = length pre" "glob (pre @ ms) t"
  shows "\<exists>v. strict_suffix v ns \<and> glob ms v"
proof -
  obtain y where y: "x @ ns = y @ t" "y \<noteq> []" using assms(1) by (auto simp: strict_suffix_def suffix_def)
  have g: "length pre \<le> length t" "glob ms (drop (length pre) t)" using glob_plain [OF assms(2,4)] by simp_all
  have "drop (length y + length pre) (x @ ns) = drop (length pre) t" unfolding y(1) by simp
  then have "drop (length y) ns = drop (length pre) t" using assms(3) by simp
  moreover have "ns \<noteq> []"
  proof
    assume "ns = []"
    then have "length x = length y + length t" using arg_cong [OF y(1), of length] by simp
    then show False using g(1) assms(3) y(2) by simp
  qed
  then have "strict_suffix (drop (length y) ns) ns"
    using y(2) suffix_drop [of "length y" ns] by (auto simp: strict_suffix_def) (metis diff_is_0_eq' length_0_conv
      length_drop diff_less length_greater_0_conv less_irrefl)
  ultimately show ?thesis using g(2) by auto
qed

declare wild.simps(2) [simp del]

lemma wild_asked:
  "CHR ''*'' \<notin> set ns \<Longrightarrow> (case star of None \<Rightarrow> True | Some (sm, sn) \<Rightarrow> CHR ''*'' \<notin> set sn) \<Longrightarrow>
   since_star ns ms star \<Longrightarrow> wild ns ms star \<longleftrightarrow> asked ns ms star"
proof (induction ns ms star rule: wild.induct)
  case (1 ms star)
  have "\<not> (\<exists>t. strict_suffix t sn \<and> glob sm t)" if st: "star = Some (sm, sn)" for sm sn
  proof -
    obtain pre x where "sm = pre @ ms" "sn = x @ []" "length x = length pre" "CHR ''*'' \<notin> set pre"
      using 1(3) st by (auto simp: since_star_def)
    then show ?thesis using later_short [of _ x "[]" pre ms] by (auto simp: strict_suffix_def)
  qed
  then show ?case by (auto simp: asked_def glob_Nil split: option.split)
next
  case (2 c ns ms star)
  show ?case
  proof (cases "ms \<noteq> [] \<and> (hd ms = CHR ''?'' \<or> hd ms = c)")
    case True
    then obtain m ms' where ms: "ms = m # ms'" "m = CHR ''?'' \<or> m = c" by (cases ms) auto
    have c: "c \<noteq> CHR ''*''" using "2.prems"(1) by auto
    have "since_star ns ms' star"
    proof (cases star)
      case (Some st)
      obtain sm sn where st: "st = (sm, sn)" by fastforce
      obtain pre x where p: "sm = pre @ ms" "sn = x @ c # ns" "length x = length pre" "CHR ''*'' \<notin> set pre"
        using "2.prems"(3) Some st by (auto simp: since_star_def)
      have "sm = (pre @ [m]) @ ms' \<and> sn = (x @ [c]) @ ns \<and> length (x @ [c]) = length (pre @ [m])
          \<and> CHR ''*'' \<notin> set (pre @ [m])"
        using p ms c by auto
      then show ?thesis using Some st by (auto simp: since_star_def)
    qed (simp add: since_star_def)
    then have "wild ns ms' star \<longleftrightarrow> asked ns ms' star" using "2.IH"(1) True "2.prems"(1,2) ms(1) by simp
    moreover have "asked ns ms' star \<longleftrightarrow> asked (c # ns) ms star" using ms c by (auto simp: asked_def)
    moreover have "wild (c # ns) ms star \<longleftrightarrow> wild ns ms' star" using True ms(1) by (simp add: wild.simps(2))
    ultimately show ?thesis by (simp only:)
  next
    case nolit: False
    show ?thesis
    proof (cases "ms \<noteq> [] \<and> hd ms = CHR ''*''")
      case True
      then obtain ms' where ms: "ms = CHR ''*'' # ms'" by (cases ms) auto
      have "wild (c # ns) ms star \<longleftrightarrow> wild (c # ns) ms' (Some (ms', c # ns))"
        using nolit True ms by (subst wild.simps(2)) simp
      also have "\<dots> \<longleftrightarrow> asked (c # ns) ms' (Some (ms', c # ns))"
        using "2.IH"(2) nolit True "2.prems"(1) ms by (simp add: since_star_def)
      also have "\<dots> \<longleftrightarrow> glob ms (c # ns)"
        unfolding ms glob_star asked_def by (auto simp: strict_suffix_def)
      also have "\<dots> \<longleftrightarrow> asked (c # ns) ms star"
      proof -
        have "glob ms (c # ns)" if st: "star = Some (sm, sn)" "strict_suffix t sn" "glob sm t" for sm sn t
        proof -
          obtain pre x where p: "sm = pre @ ms" "sn = x @ c # ns" "length x = length pre" "CHR ''*'' \<notin> set pre"
            using "2.prems"(3) st(1) by (auto simp: since_star_def)
          obtain v where v: "strict_suffix v (c # ns)" "glob ms v"
            using later_short [of t x "c # ns" pre ms] st p by auto
          then obtain u where "suffix u v" "glob ms' u" unfolding ms glob_star by blast
          then have "suffix u (c # ns)" using v(1) by (meson strict_suffix_def suffix_order.trans)
          then show ?thesis using \<open>glob ms' u\<close> unfolding ms glob_star by blast
        qed
        then show ?thesis by (auto simp: asked_def split: option.split)
      qed
      finally show ?thesis .
    next
      case False
      then have no: "\<not> glob ms (c # ns)" using nolit by (cases ms) auto
      show ?thesis
      proof (cases star)
        case None
        then have "\<not> wild (c # ns) ms star" using nolit False by (subst wild.simps(2)) auto
          then show ?thesis using no None by (simp add: asked_def)
      next
        case (Some st)
        obtain sm sn where st: "st = (sm, sn)" by fastforce
        obtain pre x where p: "sm = pre @ ms" "sn = x @ c # ns" "length x = length pre" "CHR ''*'' \<notin> set pre"
          using "2.prems"(3) Some st by (auto simp: since_star_def)
        have "sn \<noteq> []" using p(2) by simp
        then obtain s sn' where sn: "sn = s # sn'" by (cases sn) auto
        have "wild (c # ns) ms star \<longleftrightarrow> wild sn' sm (Some (sm, sn'))"
          using nolit False Some st sn by (subst wild.simps(2)) auto
        also have "\<dots> \<longleftrightarrow> asked sn' sm (Some (sm, sn'))"
        proof (rule "2.IH"(3) [OF nolit False Some st [symmetric] sn])
          show "CHR ''*'' \<notin> set sn'" "case Some (sm, sn') of None \<Rightarrow> True | Some (sm, sn) \<Rightarrow> CHR ''*'' \<notin> set sn"
            using "2.prems"(2) Some st sn by simp_all
          show "since_star sn' sm (Some (sm, sn'))" by (simp add: since_star_def)
        qed
        also have "\<dots> \<longleftrightarrow> (\<exists>t. strict_suffix t sn \<and> glob sm t)"
        proof -
          have "\<not> suffix (s # sn') sn'" using suffix_length_le by fastforce
          then have h: "strict_suffix t (s # sn') \<longleftrightarrow> t = sn' \<or> strict_suffix t sn'" for t
            unfolding strict_suffix_def suffix_Cons by (metis suffix_order.order_refl)
          show ?thesis unfolding asked_def sn option.case prod.case h by blast
        qed
        also have "\<dots> \<longleftrightarrow> asked (c # ns) ms star"
          unfolding asked_def Some st option.case prod.case using no by blast
        finally show ?thesis .
      qed
    qed
  qed
qed

lemma WildcardMatch_glob: "CHR ''*'' \<notin> set name \<Longrightarrow> WildcardMatch name msk \<longleftrightarrow> msk = [] \<or> glob msk name"
  using wild_asked [of name None msk] by (simp add: WildcardMatch_def since_star_def asked_def)

section \<open>The union\<close>

definition is_Pak :: "byte_source \<Rightarrow> bool" where
  "is_Pak src = (case src of Loose d \<Rightarrow> False | Pak pk off sz csz meth cr \<Rightarrow> True)"

text \<open>The base name of a file, or the subfolder, that one pair of the index stands for in a listing.\<close>

definition file_of :: "string set \<Rightarrow> string \<Rightarrow> string \<Rightarrow> string \<times> byte_source \<Rightarrow> string \<Rightarrow> bool" where
  "file_of seen P M kv b \<longleftrightarrow> is_Pak (snd kv) \<and> fst kv = P @ b \<and> b \<noteq> [] \<and> CHR ''/'' \<notin> set b
     \<and> WildcardMatch b M \<and> NormalizeVPath b \<notin> seen"

definition dir_of :: "string set \<Rightarrow> string \<Rightarrow> string \<Rightarrow> string \<times> byte_source \<Rightarrow> string \<Rightarrow> bool" where
  "dir_of seen P M kv d \<longleftrightarrow> is_Pak (snd kv) \<and> (\<exists>r. fst kv = P @ d @ ''/'' @ r) \<and> d \<noteq> [] \<and> CHR ''/'' \<notin> set d
     \<and> MaskMatchesDirectories M \<and> NormalizeVPath d \<notin> seen"

lemma split_slash: "CHR ''/'' \<in> set r \<Longrightarrow> \<exists>t. r = takeWhile (\<lambda>c. c \<noteq> CHR ''/'') r @ ''/'' @ t"
proof (induction r)
  case (Cons c r)
  then show ?case by (cases "c = CHR ''/''") auto
qed simp

lemma takeWhile_slash: "CHR ''/'' \<notin> set d \<Longrightarrow> takeWhile (\<lambda>c. c \<noteq> CHR ''/'') (d @ CHR ''/'' # r) = d"
  by (induction d) auto

lemma unify_step_cases:
  obtains (xfile) b where "\<And>b'. file_of seen P M kv b' \<longleftrightarrow> b' = b" "\<And>d. \<not> dir_of seen P M kv d"
      "unify_step seen P M kv (es, em) = (es @ [\<lparr>fd_name = b, fd_isDir = False\<rparr>], em)"
  | (xdir) d where "\<And>b. \<not> file_of seen P M kv b" "\<And>d'. dir_of seen P M kv d' \<longleftrightarrow> d' = d" "NormalizeVPath d \<notin> em"
      "unify_step seen P M kv (es, em) = (es @ [\<lparr>fd_name = d, fd_isDir = True\<rparr>], insert (NormalizeVPath d) em)"
  | (xdup) d where "\<And>b. \<not> file_of seen P M kv b" "\<And>d'. dir_of seen P M kv d' \<longleftrightarrow> d' = d" "NormalizeVPath d \<in> em"
      "unify_step seen P M kv (es, em) = (es, em)"
  | (xnone) "\<And>b. \<not> file_of seen P M kv b" "\<And>d. \<not> dir_of seen P M kv d" "unify_step seen P M kv (es, em) = (es, em)"
proof -
  obtain v src where kv: "kv = (v, src)" by fastforce
  show thesis
  proof (cases "is_Pak src \<and> length P < length v \<and> starts_with P v")
    case False
    have nofile: "\<not> file_of seen P M kv b" for b using False by (auto simp: file_of_def kv)
    have nodir: "\<not> dir_of seen P M kv d" for d using False by (auto simp: dir_of_def kv)
    have "unify_step seen P M kv (es, em) = (es, em)"
      using False by (auto simp: unify_step_def kv is_Pak_def split: byte_source.split)
    then show thesis using xnone nofile nodir by blast
  next
    case True
    then obtain rest where v: "v = P @ rest" "rest \<noteq> []" by (auto simp: starts_with_iff)
    obtain pk off sz csz meth cr where src: "src = Pak pk off sz csz meth cr"
      using True by (cases src) (simp_all add: is_Pak_def)
    let ?d = "takeWhile (\<lambda>c. c \<noteq> CHR ''/'') rest"
    have us: "unify_step seen P M kv (es, em) =
        (if CHR ''/'' \<in> set rest
         then if \<not> MaskMatchesDirectories M \<or> ?d = [] \<or> NormalizeVPath ?d \<in> seen \<or> NormalizeVPath ?d \<in> em then (es, em)
              else (es @ [\<lparr>fd_name = ?d, fd_isDir = True\<rparr>], insert (NormalizeVPath ?d) em)
         else if \<not> WildcardMatch rest M \<or> NormalizeVPath rest \<in> seen then (es, em)
         else (es @ [\<lparr>fd_name = rest, fd_isDir = False\<rparr>], em))"
      using v by (simp add: unify_step_def kv src Let_def)
    show thesis
    proof (cases "CHR ''/'' \<in> set rest")
      case slash: True
      have nofile: "\<not> file_of seen P M kv b" for b using slash by (auto simp: file_of_def kv v)
      obtain t where t: "rest = ?d @ ''/'' @ t" using split_slash [OF slash] by blast
      have noslash: "CHR ''/'' \<notin> set ?d" by (metis (mono_tags, lifting) set_takeWhileD)
      have dirs: "dir_of seen P M kv d \<longleftrightarrow> d = ?d \<and> ?d \<noteq> [] \<and> MaskMatchesDirectories M \<and> NormalizeVPath ?d \<notin> seen" for d
      proof
        assume "dir_of seen P M kv d"
        then show "d = ?d \<and> ?d \<noteq> [] \<and> MaskMatchesDirectories M \<and> NormalizeVPath ?d \<notin> seen"
          by (auto simp: dir_of_def kv v takeWhile_slash)
      next
        assume "d = ?d \<and> ?d \<noteq> [] \<and> MaskMatchesDirectories M \<and> NormalizeVPath ?d \<notin> seen"
        then show "dir_of seen P M kv d" using t noslash True by (auto simp: dir_of_def kv v)
      qed
      show thesis
      proof (cases "?d \<noteq> [] \<and> MaskMatchesDirectories M \<and> NormalizeVPath ?d \<notin> seen")
        case ok: True
        then have d: "dir_of seen P M kv d \<longleftrightarrow> d = ?d" for d using dirs by blast
        show thesis
        proof (cases "NormalizeVPath ?d \<in> em")
          case True
          then show thesis using xdup [of ?d] nofile d us slash by simp
        next
          case False
          then show thesis using xdir [of ?d] nofile d us slash ok by simp
        qed
      next
        case False
        then have "\<not> dir_of seen P M kv d" for d using dirs by blast
        moreover have "unify_step seen P M kv (es, em) = (es, em)" using us slash False by auto
        ultimately show thesis using xnone nofile by blast
      qed
    next
      case False
      have nodir: "\<not> dir_of seen P M kv d" for d using False by (auto simp: dir_of_def kv v)
      have files: "file_of seen P M kv b \<longleftrightarrow> b = rest \<and> WildcardMatch rest M \<and> NormalizeVPath rest \<notin> seen" for b
        using v(2) False True by (auto simp: file_of_def kv v(1))
      show thesis
      proof (cases "WildcardMatch rest M \<and> NormalizeVPath rest \<notin> seen")
        case True
        then show thesis using xfile [of rest] files nodir us False by simp
      next
        case no: False
        then have "unify_step seen P M kv (es, em) = (es, em)" using us False by auto
        then show thesis using xnone files nodir no by blast
      qed
    qed
  qed
qed

text \<open>What the loop over the index adds to a listing.\<close>

lemma unify_fold:
  "\<exists>part. fst (fold (unify_step seen P M) idx (es, em)) = es @ part
     \<and> (\<forall>b. \<lparr>fd_name = b, fd_isDir = False\<rparr> \<in> set part \<longleftrightarrow> (\<exists>kv \<in> set idx. file_of seen P M kv b))
     \<and> (\<forall>d. \<lparr>fd_name = d, fd_isDir = True\<rparr> \<in> set part \<longrightarrow> (\<exists>kv \<in> set idx. dir_of seen P M kv d))
     \<and> (\<forall>d. (\<exists>kv \<in> set idx. dir_of seen P M kv d) \<longrightarrow> NormalizeVPath d \<in> em
          \<or> (\<exists>d'. \<lparr>fd_name = d', fd_isDir = True\<rparr> \<in> set part \<and> NormalizeVPath d' = NormalizeVPath d))
     \<and> distinct (map (\<lambda>e. NormalizeVPath (fd_name e)) (filter fd_isDir part))
     \<and> (\<forall>e \<in> set part. fd_isDir e \<longrightarrow> NormalizeVPath (fd_name e) \<notin> em)"
proof (induction idx arbitrary: es em)
  case (Cons kv idx)
  show ?case
  proof (cases rule: unify_step_cases [of seen P M kv es em])
    case (xfile b)
    obtain part where part: "fst (fold (unify_step seen P M) idx (es @ [\<lparr>fd_name = b, fd_isDir = False\<rparr>], em))
        = (es @ [\<lparr>fd_name = b, fd_isDir = False\<rparr>]) @ part"
      "\<And>b. \<lparr>fd_name = b, fd_isDir = False\<rparr> \<in> set part \<longleftrightarrow> (\<exists>kv \<in> set idx. file_of seen P M kv b)"
      "\<And>d. \<lparr>fd_name = d, fd_isDir = True\<rparr> \<in> set part \<Longrightarrow> (\<exists>kv \<in> set idx. dir_of seen P M kv d)"
      "\<And>d. (\<exists>kv \<in> set idx. dir_of seen P M kv d) \<Longrightarrow> NormalizeVPath d \<in> em
          \<or> (\<exists>d'. \<lparr>fd_name = d', fd_isDir = True\<rparr> \<in> set part \<and> NormalizeVPath d' = NormalizeVPath d)"
      "distinct (map (\<lambda>e. NormalizeVPath (fd_name e)) (filter fd_isDir part))"
      "\<forall>e \<in> set part. fd_isDir e \<longrightarrow> NormalizeVPath (fd_name e) \<notin> em"
      using Cons.IH [of "es @ [\<lparr>fd_name = b, fd_isDir = False\<rparr>]" em] by blast
    show ?thesis
      by (rule exI [of _ "\<lparr>fd_name = b, fd_isDir = False\<rparr> # part"]) (use part xfile in auto)
  next
    case (xdir d)
    let ?em = "insert (NormalizeVPath d) em" and ?e = "\<lparr>fd_name = d, fd_isDir = True\<rparr>"
    obtain part where part: "fst (fold (unify_step seen P M) idx (es @ [?e], ?em)) = (es @ [?e]) @ part"
      "\<And>b. \<lparr>fd_name = b, fd_isDir = False\<rparr> \<in> set part \<longleftrightarrow> (\<exists>kv \<in> set idx. file_of seen P M kv b)"
      "\<And>d. \<lparr>fd_name = d, fd_isDir = True\<rparr> \<in> set part \<Longrightarrow> (\<exists>kv \<in> set idx. dir_of seen P M kv d)"
      "\<And>d. (\<exists>kv \<in> set idx. dir_of seen P M kv d) \<Longrightarrow> NormalizeVPath d \<in> ?em
          \<or> (\<exists>d'. \<lparr>fd_name = d', fd_isDir = True\<rparr> \<in> set part \<and> NormalizeVPath d' = NormalizeVPath d)"
      "distinct (map (\<lambda>e. NormalizeVPath (fd_name e)) (filter fd_isDir part))"
      "\<forall>e \<in> set part. fd_isDir e \<longrightarrow> NormalizeVPath (fd_name e) \<notin> ?em"
      using Cons.IH [of "es @ [?e]" ?em] by blast
    have "NormalizeVPath d \<notin> set (map (\<lambda>e. NormalizeVPath (fd_name e)) (filter fd_isDir part))" using part(6) by auto
    moreover have "NormalizeVPath d' \<in> em \<or> (\<exists>d''. \<lparr>fd_name = d'', fd_isDir = True\<rparr> \<in> set (?e # part) \<and> NormalizeVPath d'' = NormalizeVPath d')"
      if "\<exists>kv' \<in> set (kv # idx). dir_of seen P M kv' d'" for d'
    proof (cases "dir_of seen P M kv d'")
      case True
      then show ?thesis using xdir(2) by auto
    next
      case False
      then have "NormalizeVPath d' = NormalizeVPath d \<or> NormalizeVPath d' \<in> em
          \<or> (\<exists>d''. \<lparr>fd_name = d'', fd_isDir = True\<rparr> \<in> set part \<and> NormalizeVPath d'' = NormalizeVPath d')"
        using that part(4) [of d'] by simp
      then show ?thesis
      proof (elim disjE)
        assume "NormalizeVPath d' = NormalizeVPath d"
        then show ?thesis by (intro disjI2 exI [of _ d]) simp
      qed auto
    qed
    ultimately show ?thesis
      by (intro exI [of _ "?e # part"]) (use part xdir in auto)
  next
    case (xdup d)
    obtain part where part: "fst (fold (unify_step seen P M) idx (es, em)) = es @ part"
      "\<And>b. \<lparr>fd_name = b, fd_isDir = False\<rparr> \<in> set part \<longleftrightarrow> (\<exists>kv \<in> set idx. file_of seen P M kv b)"
      "\<And>d. \<lparr>fd_name = d, fd_isDir = True\<rparr> \<in> set part \<Longrightarrow> (\<exists>kv \<in> set idx. dir_of seen P M kv d)"
      "\<And>d. (\<exists>kv \<in> set idx. dir_of seen P M kv d) \<Longrightarrow> NormalizeVPath d \<in> em
          \<or> (\<exists>d'. \<lparr>fd_name = d', fd_isDir = True\<rparr> \<in> set part \<and> NormalizeVPath d' = NormalizeVPath d)"
      "distinct (map (\<lambda>e. NormalizeVPath (fd_name e)) (filter fd_isDir part))"
      "\<forall>e \<in> set part. fd_isDir e \<longrightarrow> NormalizeVPath (fd_name e) \<notin> em"
      using Cons.IH [of es em] by blast
    show ?thesis by (rule exI [of _ part]) (use part xdup in auto)
  next
    case xnone
    then show ?thesis using Cons.IH [of es em] by simp
  qed
qed simp

end
