(* ===== verification/Fs_History.thy ===== *)
theory Fs_History
  imports Find_Slots
begin

text \<open>
  The file system of src/fs_takeover under a history of calls by the engine: any of its slots, in any
  order, with any handles.
\<close>

section \<open>Histories\<close>

datatype fs_event =
    EOpen "string option" "string option" "32 word"
  | EOpenRaw "string option" "string option" "int option"
  | EAsk nat read_call
  | EWrite nat bytes
  | EFlush nat
  | EError nat
  | EUngetc nat int
  | EClose nat
  | EFindFirst "string option" bool
  | EFindNext int bool
  | EFindClose int

datatype fs_answer =
    Answered answer
  | Handle nat
  | Opened nat "string option"
  | Number int
  | Wrote nat bool
  | Flag bool
  | Found int "bytes option"

record fs_system =
  sys_env :: fs_env
  sys_walk :: "string \<Rightarrow> (string \<times> bool) list"
  sys_idx :: "(string \<times> byte_source) list"

definition tagged :: "('a \<Rightarrow> fs_answer) \<Rightarrow> ('a \<times> world) option \<Rightarrow> (fs_answer \<times> world) option" where
  "tagged f r = map_option (\<lambda>(x, w). (f x, w)) r"

fun fs_step :: "fs_system \<Rightarrow> fs_event \<Rightarrow> fs_answer op" where
  "fs_step S (EOpen n m fl) w = tagged Handle (kcdx_FOpen (sys_env S) n m fl w)"
| "fs_step S (EOpenRaw n m cap) w = tagged (\<lambda>(h, out). Opened h out) (kcdx_FOpenRaw (sys_env S) n m cap w)"
| "fs_step S (EAsk h c) w = tagged Answered (do_call h c w)"
| "fs_step S (EWrite h d) w = tagged (\<lambda>(n, ok). Wrote n ok) (Write h True d w)"
| "fs_step S (EFlush h) w = tagged Number (Flush h w)"
| "fs_step S (EError h) w = tagged Flag (Error h w)"
| "fs_step S (EUngetc h ch) w = tagged Number (Ungetc h ch w)"
| "fs_step S (EClose h) w = tagged Number (Close h w)"
| "fs_step S (EFindFirst p d) w = tagged (\<lambda>(h, out). Found h out) (kcdx_FindFirst (sys_env S) (sys_walk S) (sys_idx S) p d w)"
| "fs_step S (EFindNext h d) w = tagged (\<lambda>(h, out). Found h out) (kcdx_FindNext h d w)"
| "fs_step S (EFindClose h) w = tagged Number (kcdx_FindClose h w)"

inductive fs_run :: "fs_system \<Rightarrow> world \<Rightarrow> (fs_event \<times> fs_answer) list \<Rightarrow> world \<Rightarrow> bool" for S where
  run_nil: "fs_run S w [] w"
| run_cons: "fs_step S e w = Some (a, w1) \<Longrightarrow> fs_run S w1 tr w2 \<Longrightarrow> fs_run S w ((e, a) # tr) w2"

inductive_cases fs_run_nilE: "fs_run S w [] w'"
inductive_cases fs_run_consE: "fs_run S w (x # tr) w'"

definition start_world :: "(string \<rightharpoonup> bytes) \<Rightarrow> (string \<Rightarrow> bool) \<Rightarrow> world" where
  "start_world files creatable =
     \<lparr>c_files = files, c_creatable = creatable, c_streams = Map.empty, c_next = 0, g_slots = [], g_freeList = []\<rparr>"

text \<open>
  Calls on which the C library does not stop the process: a mode it accepts after the clean-up, and
  one of the three origins.
\<close>

fun sane :: "fs_event \<Rightarrow> bool" where
  "sane (EOpen n m fl) = valid_mode (fst (SanitizeLooseMode m))"
| "sane (EOpenRaw n m cap) = valid_mode (fst (SanitizeLooseMode m))"
| "sane (EAsk h (CSeek off origin)) = (origin \<in> {0, 1, 2})"
| "sane _ = True"

section \<open>Lemmas: one step\<close>

lemma start_ok: "pool_ok (start_world f c)"
  by (auto simp: pool_inv_def start_world_def in_pool_def live_fp_def)

lemma good_tagged: "good r \<Longrightarrow> good (tagged f r)"
  unfolding tagged_def by (rule good_map_option)

lemma good_answer: "good r \<Longrightarrow> good (answer_with f r)"
  unfolding answer_with_def by (rule good_map_option)

lemma good_bind: "good r \<Longrightarrow> (\<And>x w. pool_ok w \<Longrightarrow> good (g (x, w))) \<Longrightarrow> good (Option.bind r g)"
  by (auto simp: good_def)

lemma good_call: "pool_ok w \<Longrightarrow> sane (EAsk h c) \<Longrightarrow> good (do_call h c w)"
  by (cases c) (auto intro!: good_answer good_Read good_Getc good_Gets good_Tell good_Seek good_Eof good_FileSize good_GetCached)

lemma good_OpenRaw:
  "pool_ok w \<Longrightarrow> valid_mode (fst (SanitizeLooseMode mode)) \<Longrightarrow> good (kcdx_FOpenRaw env n mode cap w)"
  by (auto simp: kcdx_FOpenRaw_def intro!: good_OpenResolved split: option.split)

lemma good_FindFirst: "pool_ok w \<Longrightarrow> good (kcdx_FindFirst env walk idx p d w)"
proof -
  assume ok: "pool_ok w"
  have mint: "pool_ok w'" if "MintFind ns ds w = (h, w')" for ns ds h w'
    using MintFind_inv [OF ok, of ns ds] that by simp
  show ?thesis
    using ok unfolding kcdx_FindFirst_def Let_def
    by (auto intro!: good_bind good_FindPeek good_FindAdvance good_Close dest: mint split: option.split prod.split)
qed

lemma good_FindNext: "pool_ok w \<Longrightarrow> good (kcdx_FindNext h d w)"
  unfolding kcdx_FindNext_def by (auto intro!: good_bind good_FindPeek good_FindAdvance split: option.split)

lemma good_step: "pool_ok w \<Longrightarrow> sane e \<Longrightarrow> good (fs_step S e w)"
  by (cases e) (auto intro!: good_tagged good_FOpen good_OpenRaw good_call good_Write good_Flush good_Error good_Ungetc
      good_Close good_FindFirst good_FindNext simp: kcdx_FindClose_def)

text \<open>The invariant holds after a step that returned, sane or not.\<close>

lemma good_keeps: "good r \<Longrightarrow> r = Some (x, w') \<Longrightarrow> pool_ok w'"
  by (simp add: good_def)

lemma OpenLoose_keeps:
  assumes "pool_ok w" "OpenLooseAndMint env d m v w = Some (h, w')"
  shows "pool_ok w'"
proof (cases "valid_mode (fst (SanitizeLooseMode m))")
  case True
  show ?thesis by (rule good_keeps [OF good_OpenLoose [OF assms(1) True] assms(2)])
next
  case False
  then have "wfopen_s d (fst (SanitizeLooseMode m)) w = None" by (simp add: wfopen_s_def)
  then have "w' = w" using assms(2) unfolding OpenLoose_steps by (simp split: if_splits)
  then show ?thesis using assms(1) by simp
qed

lemma with_outE: "with_out cap d r = Some (x, w') \<Longrightarrow> \<exists>h. r = Some (h, w')"
  by (auto simp: with_out_def)

text \<open>Each way an open can go.\<close>

lemma OpenResolvedE:
  assumes "OpenResolvedAndMint env n m fl cap w = Some (r, w')"
  obtains "w' = w"
  | d v h where "OpenLooseAndMint env d m v w = Some (h, w')"
  | src v h where "OpenPakAndMint env src v w = Some (h, w')"
proof (cases "ResolveVPath (fe_index env) (NormalizeVPath n)")
  case None
  show thesis
  proof (cases "fe_original env")
    case None
    then have "w' = w" using assms \<open>ResolveVPath _ _ = None\<close> by (simp add: OpenResolvedAndMint_def Let_def)
    then show thesis by (rule that(1))
  next
    case (Some orig)
    obtain q buf where o: "orig n fl = (q, buf)" by fastforce
    define c where "c = (case q of Some s \<Rightarrow> s | None \<Rightarrow> buf)"
    have "(if c = [] then Some ((0, None), w)
       else with_out cap c (OpenLooseAndMint env c m (NormalizeVPath n) w)) = Some (r, w')"
      using assms by (simp only: OpenResolvedAndMint_def Let_def None Some c_def o option.case prod.case)
    then show thesis using that(1,2) with_outE by (cases "c = []") (simp, fastforce)
  qed
next
  case (Some src)
  show thesis
  proof (cases src)
    case (Loose d)
    then show thesis using assms Some that(2) with_outE by (simp add: OpenResolvedAndMint_def Let_def) blast
  next
    case (Pak pk off sz csz meth cr)
    then show thesis using assms Some that(3) with_outE by (simp add: OpenResolvedAndMint_def Let_def) blast
  qed
qed

lemma OpenResolved_keeps:
  assumes "pool_ok w" "OpenResolvedAndMint env n m fl cap w = Some (r, w')"
  shows "pool_ok w'"
  using assms(2)
proof (cases rule: OpenResolvedE)
  case (2 d v h)
  then show ?thesis by (rule OpenLoose_keeps [OF assms(1)])
next
  case (3 src v h)
  then show ?thesis by (rule good_keeps [OF good_OpenPak [OF assms(1)]])
qed (use assms(1) in simp)

lemma FOpenE:
  assumes "kcdx_FOpen env n m fl w = Some (h, w')"
  obtains "w' = w" | k r where "OpenResolvedAndMint env k m fl None w = Some (r, w')"
proof (cases n)
  case (Some k)
  then show thesis
    using assms that(2) [of k] by (cases "OpenResolvedAndMint env k m fl None w") (auto simp: kcdx_FOpen_def)
qed (use assms that(1) in \<open>simp add: kcdx_FOpen_def\<close>)

lemma FOpenRawE:
  assumes "kcdx_FOpenRaw env n m cap w = Some (q, w')"
  obtains "w' = w" | k where "OpenResolvedAndMint env k m 0 cap w = Some (q, w')"
proof (cases n)
  case None
  then have "w' = w" using assms by (simp add: kcdx_FOpenRaw_def)
  then show thesis by (rule that(1))
next
  case (Some k)
  then have "OpenResolvedAndMint env k m 0 cap w = Some (q, w')" using assms by (simp add: kcdx_FOpenRaw_def)
  then show thesis by (rule that(2))
qed

lemma Seek_keeps:
  assumes "pool_ok w" "Seek h off origin w = Some (r, w')"
  shows "pool_ok w'"
proof (cases "origin \<in> {0, 1, 2}")
  case True
  show ?thesis by (rule good_keeps [OF good_Seek [OF assms(1) True] assms(2)])
next
  case False
  then have "w' = w" using assms(2) by (auto simp: Seek_def with_slot_def fseek_def Let_def split: option.splits if_splits)
  then show ?thesis using assms(1) by simp
qed

text \<open>The invariant holds after every step that returned.\<close>

lemma tagged_Some: "tagged f r = Some (a, w') \<longleftrightarrow> (\<exists>x. r = Some (x, w') \<and> a = f x)"
  by (auto simp: tagged_def)

lemma step_keeps:
  assumes "pool_ok w" "fs_step S e w = Some (a, w')"
  shows "pool_ok w'"
proof (cases "sane e")
  case True
  show ?thesis by (rule good_keeps [OF good_step [OF assms(1) True] assms(2)])
next
  case False
  then show ?thesis
  proof (cases e rule: sane.cases)
    case (1 n m fl)
    then obtain h where "kcdx_FOpen (sys_env S) n m fl w = Some (h, w')" using assms(2) by (auto simp: tagged_Some)
    then show ?thesis using assms(1) OpenResolved_keeps by (cases rule: FOpenE) auto
  next
    case (2 n m cap)
    then obtain q where "kcdx_FOpenRaw (sys_env S) n m cap w = Some (q, w')" using assms(2) by (auto simp: tagged_Some)
    then show ?thesis using assms(1) OpenResolved_keeps by (cases rule: FOpenRawE) auto
  next
    case (3 h off origin)
    then obtain r where "Seek h off origin w = Some (r, w')" using assms(2) by (auto simp: tagged_Some answer_with_def)
    then show ?thesis by (rule Seek_keeps [OF assms(1)])
  qed simp_all
qed

lemma run_keeps: "fs_run S w tr w' \<Longrightarrow> pool_ok w \<Longrightarrow> pool_ok w'"
  by (induction rule: fs_run.induct) (auto dest: step_keeps)

section \<open>Lemmas: one handle among others\<close>

text \<open>The calls after which a pak handle no longer stands for the bytes it was opened on.\<close>

fun disturbs :: "nat \<Rightarrow> fs_event \<Rightarrow> bool" where
  "disturbs h (EClose k) = (k = h)"
| "disturbs h (EFindClose k) = (k = int h)"
| "disturbs h (EUngetc k ch) = (k = h)"
| "disturbs h _ = False"

lemma pak_at_odd: "pak_at h b p w \<Longrightarrow> odd h"
  by (auto simp: pak_at_def Let_def DecodeId_def in_pool_def split: if_splits)

lemma DecodeId_inj: "odd h \<Longrightarrow> DecodeId k = DecodeId h \<Longrightarrow> DecodeId h \<noteq> 0 \<Longrightarrow> k = h"
  by (auto simp: DecodeId_def split: if_splits elim!: oddE)

lemma pak_at_framed:
  "pak_at h b p w \<Longrightarrow> framed (DecodeId k) w r \<Longrightarrow> k \<noteq> h \<Longrightarrow> r = Some (x, w') \<Longrightarrow> pak_at h b p w'"
  using pak_at_others [of h b p w "DecodeId k" w'] DecodeId_inj [of h k] pak_at_odd [of h b p w]
  by (auto simp: framed_def pak_at_def Let_def in_pool_def)

text \<open>Operations on the pak handle itself that are not reads.\<close>

lemma pak_at_self:
  assumes "pak_at h b p w"
  shows "Write h True d w = Some (r1, w1) \<Longrightarrow> w1 = w" "Flush h w = Some (r2, w2) \<Longrightarrow> w2 = w"
    "Error h w = Some (r3, w3) \<Longrightarrow> w3 = w" "FindPeek h w = Some (None, w)" "FindAdvance h w = Some (False, w)"
  using pak_at_locked [OF assms] assms
  by (auto simp: Write_def Flush_def Error_def FindPeek_def FindAdvance_def FindSlotLocked_def with_slot_def
      pak_at_def Let_def split: if_splits)

lemma pak_at_MintFind:
  assumes "pool_ok w" "pak_at h b p w" "MintFind ns ds w = (k, w')"
  shows "pak_at h b p w' \<and> k \<noteq> h"
proof (cases "length ns = length ds")
  case True
  obtain i w1 where a: "AllocSlotLocked w = (i, w1)" by fastforce
  note A = alloc_spec [OF assms(1) a]
  have "w' = mint (fresh_file\<lparr>of_kind := KFind, of_findNames := ns, of_findIsDir := ds\<rparr>) w"
    using MintFind_mint [OF assms(1) True] assms(3) by simp
  then have "pak_at h b p w'" using pak_at_mint assms(1,2) by simp
  moreover have "k = Encode i" using assms(3) True by (simp add: MintFind_def a Let_def split_def)
  moreover have "i \<noteq> DecodeId h" using A(3) assms(2) by (auto simp: pak_at_def Let_def)
  ultimately show ?thesis by (auto simp: Encode_def DecodeId_def)
next
  case False
  have "h \<noteq> 0" using pak_at_odd [OF assms(2)] by (cases "h = 0") simp_all
  then show ?thesis using False assms(2,3) by (auto simp: MintFind_def)
qed

lemma pak_at_FindFirst:
  assumes "pool_ok w" "pak_at h b p w" "kcdx_FindFirst env walk idx pat d w = Some (r, w')"
  shows "pak_at h b p w'"
proof -
  have mint: "pak_at h b p w1 \<and> k \<noteq> h" if "MintFind ns ds w = (k, w1)" for ns ds k w1
    using that by (rule pak_at_MintFind [OF assms(1,2)])
  have peek: "pak_at h b p w2 \<and> k \<noteq> h" if "MintFind ns ds w = (k, w1)" "FindPeek k w1 = Some (e, w2)" for ns ds k w1 e w2
    using mint [OF that(1)] pak_at_framed [OF _ framed_ops(13) _ that(2)] by blast
  have adv: "pak_at h b p w'"
    if "MintFind ns ds w = (k, w1)" "FindPeek k w1 = Some (e, w2)" "FindAdvance k w2 = Some (ok, w')" for ns ds k w1 e w2 ok
    using peek [OF that(1,2)] pak_at_framed [OF _ framed_ops(14) _ that(3)] by blast
  have cl: "pak_at h b p w'"
    if "MintFind ns ds w = (k, w1)" "FindPeek k w1 = Some (e, w2)" "Close k w2 = Some (rc, w')" for ns ds k w1 e w2 rc
    using peek [OF that(1,2)] pak_at_framed [OF _ framed_Close _ that(3)] by blast
  show ?thesis
    using assms(2,3) unfolding kcdx_FindFirst_def Let_def
    by (auto simp: bind_eq_Some_conv split: option.splits prod.splits if_splits dest: adv cl mint)
qed

lemma pak_at_FindNext:
  assumes "pak_at h b p w" "kcdx_FindNext k d w = Some (r, w')"
  shows "pak_at h b p w'"
proof (cases "nat k = h")
  case True
  then show ?thesis using assms pak_at_self [OF assms(1)]
    by (auto simp: kcdx_FindNext_def split: if_splits)
next
  case False
  have peek: "pak_at h b p w2" if "FindPeek (nat k) w = Some (e, w2)" for e w2
    by (rule pak_at_framed [OF assms(1) framed_ops(13) False that])
  have adv: "pak_at h b p w'" if "FindPeek (nat k) w = Some (e, w2)" "FindAdvance (nat k) w2 = Some (ok, w')" for e w2 ok
    by (rule pak_at_framed [OF peek [OF that(1)] framed_ops(14) False that(2)])
  show ?thesis
    using assms unfolding kcdx_FindNext_def
    by (auto simp: bind_eq_Some_conv split: option.splits prod.splits if_splits dest: peek adv)
qed

lemma pak_at_OpenResolved:
  assumes "pool_ok w" "pak_at h b p w" "OpenResolvedAndMint env n m fl cap w = Some (r, w')"
  shows "pak_at h b p w'"
  using assms(3)
proof (cases rule: OpenResolvedE)
  case (2 d v h')
  then show ?thesis by (rule pak_at_OpenLoose [OF assms(1,2)])
next
  case (3 src v h')
  then show ?thesis by (rule pak_at_OpenPak [OF assms(1,2)])
qed (use assms(2) in simp)

lemma pak_at_OpenRaw:
  "pool_ok w \<Longrightarrow> pak_at h b p w \<Longrightarrow> kcdx_FOpenRaw env n mode cap w = Some (r, w') \<Longrightarrow> pak_at h b p w'"
  by (cases rule: FOpenRawE [of env n mode cap w r w']) (auto intro: pak_at_OpenResolved)

lemma pak_at_step:
  assumes "pool_ok w" "pak_at h b p w" "fs_step S e w = Some (a, w')" "\<not> disturbs h e"
  shows "pak_at h b (case e of EAsk k c \<Rightarrow> if k = h then snd (ref_call b p c) else p | _ \<Rightarrow> p) w'
    \<and> (\<forall>c. e = EAsk h c \<longrightarrow> a = Answered (fst (ref_call b p c)))"
proof -
  note fr = pak_at_framed [OF assms(2)]
  show ?thesis
  proof (cases e)
    case (EAsk k c)
    show ?thesis
    proof (cases "k = h")
      case True
      then show ?thesis using EAsk assms(3) pak_call [OF assms(2), of c] by (auto simp: tagged_def)
    next
      case False
      then show ?thesis using EAsk assms(3) fr [OF framed_call] by (auto simp: tagged_def)
    qed
  next
    case (EWrite k d)
    then show ?thesis
      using assms(2,3) pak_at_self(1) [OF assms(2)] fr [OF framed_ops(5)] by (cases "k = h") (auto simp: tagged_def)
  next
    case (EFlush k)
    then show ?thesis
      using assms(2,3) pak_at_self(2) [OF assms(2)] fr [OF framed_ops(6)] by (cases "k = h") (auto simp: tagged_def)
  next
    case (EError k)
    then show ?thesis
      using assms(2,3) pak_at_self(3) [OF assms(2)] fr [OF framed_ops(7)] by (cases "k = h") (auto simp: tagged_def)
  next
    case (EUngetc k ch)
    then show ?thesis using assms(3,4) fr [OF framed_ops(9)] by (auto simp: tagged_def)
  next
    case (EClose k)
    then show ?thesis using assms(3,4) fr [OF framed_Close] by (auto simp: tagged_def)
  next
    case (EFindClose k)
    then show ?thesis using assms fr [OF framed_Close, of "nat k"] by (auto simp: tagged_def kcdx_FindClose_def split: if_splits)
  next
    case (EOpen n m fl)
    then show ?thesis using assms(3) pak_at_FOpen [OF assms(1,2)] by (auto simp: tagged_def)
  next
    case (EOpenRaw n m cap)
    then show ?thesis using assms(3) pak_at_OpenRaw [OF assms(1,2)] by (auto simp: tagged_def)
  next
    case (EFindFirst pat d)
    then show ?thesis using assms(3) pak_at_FindFirst [OF assms(1,2)] by (auto simp: tagged_def)
  next
    case (EFindNext k d)
    then show ?thesis using assms(3) pak_at_FindNext [OF assms(2)] by (auto simp: tagged_def)
  qed
qed

text \<open>The reads of one handle in a history, and their answers.\<close>

fun asked_of :: "nat \<Rightarrow> (fs_event \<times> fs_answer) list \<Rightarrow> read_call list" where
  "asked_of h [] = []"
| "asked_of h ((EAsk k c, a) # tr) = (if k = h then c # asked_of h tr else asked_of h tr)"
| "asked_of h (_ # tr) = asked_of h tr"

fun answers_of :: "nat \<Rightarrow> (fs_event \<times> fs_answer) list \<Rightarrow> fs_answer list" where
  "answers_of h [] = []"
| "answers_of h ((EAsk k c, a) # tr) = (if k = h then a # answers_of h tr else answers_of h tr)"
| "answers_of h (_ # tr) = answers_of h tr"

lemma run_refines:
  "fs_run S w tr w' \<Longrightarrow> pool_ok w \<Longrightarrow> pak_at h b p w \<Longrightarrow> list_all (\<lambda>(e, a). \<not> disturbs h e) tr \<Longrightarrow>
     answers_of h tr = map Answered (ref_calls b p (asked_of h tr))"
proof (induction arbitrary: p rule: fs_run.induct)
  case (run_cons e w a w1 tr w2)
  note st = pak_at_step [OF run_cons.prems(1,2) run_cons.hyps(1)]
  have d: "\<not> disturbs h e" using run_cons.prems(3) by simp
  have ok: "pool_ok w1" using step_keeps run_cons.prems(1) run_cons.hyps(1) by blast
  have rest: "list_all (\<lambda>(e, a). \<not> disturbs h e) tr" using run_cons.prems(3) by simp
  show ?case
  proof (cases "\<exists>c. e = EAsk h c")
    case True
    then obtain c where e: "e = EAsk h c" by blast
    have "pak_at h b (snd (ref_call b p c)) w1" "a = Answered (fst (ref_call b p c))" using st d e by auto
    then show ?thesis using run_cons.IH [OF ok _ rest] e by (simp add: split_def Let_def)
  next
    case False
    then have "pak_at h b p w1" using st d by (cases e) auto
    moreover have "asked_of h ((e, a) # tr) = asked_of h tr" "answers_of h ((e, a) # tr) = answers_of h tr"
      using False by (cases e; simp)+
    ultimately show ?thesis using run_cons.IH [OF ok _ rest] by simp
  qed
qed simp

end
