(* ===== verification/Fs_Contract.thy ===== *)
theory Fs_Contract
  imports Fs_History
begin

text \<open>
  What the file system of src/fs_takeover promises the engine, over whole histories of calls: the
  state it keeps, that no call stops the process, what a handle delivers, and what a search lists.
\<close>

section \<open>Opening and reading\<close>

definition read_pieces :: "nat \<Rightarrow> nat list \<Rightarrow> bytes op" where
  "read_pieces h ns w = pak.reads h ns w"

primrec do_calls :: "nat \<Rightarrow> read_call list \<Rightarrow> answer list op" where
  "do_calls h [] w = Some ([], w)"
| "do_calls h (c # cs) w =
     (case do_call h c w of
        None \<Rightarrow> None
      | Some (a, w) \<Rightarrow> (case do_calls h cs w of None \<Rightarrow> None | Some (as, w) \<Rightarrow> Some (a # as, w)))"

lemma do_calls_pak: "pak_at h b p w \<Longrightarrow> \<exists>w'. do_calls h cs w = Some (ref_calls b p cs, w')"
proof (induction cs arbitrary: p w)
  case (Cons c cs)
  obtain w1 where "do_call h c w = Some (fst (ref_call b p c), w1)" "pak_at h b (snd (ref_call b p c)) w1"
    using pak_call [OF Cons.prems] by blast
  moreover obtain w2 where "do_calls h cs w1 = Some (ref_calls b (snd (ref_call b p c)) cs, w2)"
    using Cons.IH calculation(2) by blast
  ultimately show ?case by (simp add: split_def Let_def)
qed simp

lemma do_calls_file:
  "file_at h b p w \<Longrightarrow> all_portable b p cs \<Longrightarrow> \<exists>w'. do_calls h cs w = Some (ref_calls b p cs, w')"
proof (induction cs arbitrary: p w)
  case (Cons c cs)
  obtain w1 where "do_call h c w = Some (fst (ref_call b p c), w1)" "file_at h b (snd (ref_call b p c)) w1"
    using file_call [OF Cons.prems(1)] Cons.prems(2) by auto
  moreover obtain w2 where "do_calls h cs w1 = Some (ref_calls b (snd (ref_call b p c)) cs, w2)"
    using Cons.IH calculation(2) Cons.prems(2) by auto
  ultimately show ?case by (simp add: split_def Let_def)
qed simp

text \<open>What an open of a pak entry leaves.\<close>

lemma FOpen_pak:
  assumes "pool_ok w" "ResolveVPath (fe_index env) (NormalizeVPath n) = Some src" "is_Pak src"
    "ReadPakEntry (fe_inflate env) (fe_crc32 env) (c_files w (path_string (pakFile src)))
       (source_entry src (NormalizeVPath n)) = Inr b"
  shows "\<exists>h w'. kcdx_FOpen env (Some n) m fl w = Some (h, w') \<and> pak_at h b 0 w' \<and> h \<noteq> 0"
proof -
  obtain pk off sz csz meth cr where src: "src = Pak pk off sz csz meth cr" using assms(3) by (cases src) (simp_all add: is_Pak_def)
  obtain h w' where hw: "MintPak b (NormalizeVPath n) w = (h, w')" by fastforce
  have "kcdx_FOpen env (Some n) m fl w = Some (h, w')"
    using assms(2,4) by (simp add: kcdx_FOpen_def OpenResolvedAndMint_def src OpenPakAndMint_def with_out_def hw)
  moreover have "pak_at h b 0 w'" "odd h" using MintPak_at [OF assms(1), of b "NormalizeVPath n"] hw by simp_all
  ultimately show ?thesis by (auto elim!: oddE)
qed

text \<open>What an open of a file on disk for reading leaves.\<close>

lemma FOpen_file:
  assumes "pool_ok w" "ResolveVPath (fe_index env) (NormalizeVPath n) = Some (Loose d)" "c_files w d = Some b"
    "WidenPath env d" "fe_utf16 env ''rb'' \<le> 16"
  shows "\<exists>h w'. kcdx_FOpen env (Some n) (Some ''rb'') fl w = Some (h, w') \<and> file_at h b 0 w' \<and> h \<noteq> 0"
proof -
  have m: "SanitizeLooseMode (Some ''rb'') = (''rb'', False)" by (simp add: SanitizeLooseMode_def effective_mode_def)
  have v: "valid_mode ''rb''" by (simp add: valid_mode_def has_flag_def)
  have ms: "mode_stream d ''rb'' = \<lparr>s_path = d, s_pos = 0, s_back = [], s_eof = False, s_err = False,
      s_read = True, s_write = False, s_append = False\<rparr>"
    by (simp add: mode_stream_def has_flag_def)
  obtain fp w1 where o: "wfopen_s d ''rb'' w = Some (fp, w1)" using wfopen_valid [OF v] by blast
  then have o2: "fp = Some (c_next w)" "w1 = put_stream (c_next w) (mode_stream d ''rb'') (w\<lparr>c_next := c_next w + 1\<rparr>)"
    using assms(3) by (simp_all add: wfopen_s_def v has_flag_def open_stream_def)
  have inv: "pool_inv {c_next w} w1" using wfopen_inv [OF assms(1) o] o2 by simp
  obtain i w2 where a: "AllocSlotLocked w1 = (i, w2)" by fastforce
  note A = alloc_spec [OF inv a]
  obtain h w' where hw: "MintLoose (Some (c_next w)) (NormalizeVPath n) w1 = (h, w')" by fastforce
  have "kcdx_FOpen env (Some n) (Some ''rb'') fl w = Some (h, w')"
    using assms(2,4,5) by (simp add: kcdx_FOpen_def OpenResolvedAndMint_def with_out_def OpenLoose_steps m o o2(1) hw)
  moreover have h: "h = Encode i" "w' = put_slot i ((slot w2 i)\<lparr>of_kind := KLoose, of_closed := False,
      of_fp := Some (c_next w), of_vpath := NormalizeVPath n\<rparr>) w2"
    using hw by (simp_all add: MintLoose_def a)
  have "c_streams w2 = c_streams w1" "c_files w2 = c_files w1"
    using a by (auto simp: AllocSlotLocked_def put_slot_def split: list.splits)
  then have "c_streams w' (c_next w) = Some (mode_stream d ''rb'')" "c_files w' d = Some b"
    using assms(3) by (simp_all add: h put_slot_def o2(2) put_stream_def)
  moreover have "DecodeId h = i" "h \<noteq> 0" by (simp_all add: h Encode_def DecodeId_def)
  moreover have "in_pool w' i" "slot w' i = fresh_file\<lparr>of_kind := KLoose, of_closed := False,
      of_fp := Some (c_next w), of_vpath := NormalizeVPath n\<rparr>"
    using A(1,2) in_pool_pos [OF A(1)] by (simp_all add: h slot_put)
  ultimately show ?thesis by (auto simp: file_at_def Let_def contents_def ms fresh_file_def)
qed

section \<open>Searching\<close>

text \<open>Calls of FindNext, one after the other.\<close>

primrec find_nexts :: "nat \<Rightarrow> int \<Rightarrow> (int \<times> bytes option) list op" where
  "find_nexts 0 h w = Some ([], w)"
| "find_nexts (Suc n) h w =
     (case kcdx_FindNext h True w of
        None \<Rightarrow> None
      | Some (r, w) \<Rightarrow> (case find_nexts n h w of None \<Rightarrow> None | Some (rs, w) \<Rightarrow> Some (r # rs, w)))"

definition find_at :: "nat \<Rightarrow> find_entry list \<Rightarrow> nat \<Rightarrow> world \<Rightarrow> bool" where
  "find_at h es k w \<longleftrightarrow>
     (let i = DecodeId h
      in in_pool w i \<and> \<not> of_closed (slot w i) \<and> of_kind (slot w i) = KFind
        \<and> of_findNames (slot w i) = map fd_name es \<and> of_findIsDir (slot w i) = map fd_isDir es
        \<and> of_findCursor (slot w i) = k)"

lemma find_at_locked: "find_at h es k w \<Longrightarrow> FindSlotLocked w h = Some (DecodeId h)"
  by (simp add: find_at_def Let_def FindSlotLocked_def)

lemma find_at_peek:
  "find_at h es k w \<Longrightarrow>
     FindPeek h w = Some (if k < length es then Some (fd_name (es ! k), fd_isDir (es ! k)) else None, w)"
  using find_at_locked by (simp add: find_at_def Let_def FindPeek_def)

lemma find_at_advance:
  "find_at h es k w \<Longrightarrow> k < length es \<Longrightarrow> \<exists>w'. FindAdvance h w = Some (True, w') \<and> find_at h es (k + 1) w'"
  using find_at_locked [of h es k w] in_pool_pos [of w "DecodeId h"]
  by (auto simp: find_at_def Let_def FindAdvance_def slot_put)

lemma find_entry_eta: "\<lparr>fd_name = fd_name e, fd_isDir = fd_isDir e\<rparr> = (e :: find_entry)"
  by simp

lemma find_at_next:
  assumes "find_at h es k w"
  shows "if k < length es
    then \<exists>w'. kcdx_FindNext (int h) True w = Some ((0, Some (FillFindData kFindDataNameCap (es ! k))), w') \<and> find_at h es (k + 1) w'
    else kcdx_FindNext (int h) True w = Some ((-1, None), w)"
  using find_at_peek [OF assms] find_at_advance [OF assms] by (auto simp: kcdx_FindNext_def find_entry_eta)

lemma find_at_nexts:
  "find_at h es k w \<Longrightarrow> \<exists>w'. find_nexts n (int h) w =
     Some (map (\<lambda>e. (0, Some (FillFindData kFindDataNameCap e))) (take n (drop k es)) @ replicate (n - (length es - k)) (-1, None), w')"
proof (induction n arbitrary: k w)
  case (Suc n)
  show ?case
  proof (cases "k < length es")
    case True
    then obtain w1 where w1: "kcdx_FindNext (int h) True w = Some ((0, Some (FillFindData kFindDataNameCap (es ! k))), w1)"
      "find_at h es (k + 1) w1"
      using find_at_next [OF Suc.prems] by auto
    obtain w2 where w2: "find_nexts n (int h) w1 = Some (map (\<lambda>e. (0, Some (FillFindData kFindDataNameCap e))) (take n (drop (k + 1) es))
        @ replicate (n - (length es - (k + 1))) (-1, None), w2)"
      using Suc.IH [OF w1(2)] by blast
    have d: "drop k es = es ! k # drop (k + 1) es" using True Cons_nth_drop_Suc by force
    have "Suc n - (length es - k) = n - (length es - (k + 1))" using True by arith
    then show ?thesis by (simp add: w1(1) w2 d)
  next
    case False
    then have n: "kcdx_FindNext (int h) True w = Some ((-1, None), w)" using find_at_next [OF Suc.prems] by simp
    obtain w2 where "find_nexts n (int h) w = Some (map (\<lambda>e. (0, Some (FillFindData kFindDataNameCap e))) (take n (drop k es))
        @ replicate (n - (length es - k)) (-1, None), w2)"
      using Suc.IH [OF Suc.prems] by blast
    then show ?thesis using False n by simp
  qed
qed simp

lemma MintFind_at:
  assumes "pool_inv X w" "length ns = length ds" "MintFind ns ds w = (h, w')" "ns = map fd_name es" "ds = map fd_isDir es"
  shows "find_at h es 0 w'" "h \<noteq> 0"
proof -
  obtain i w1 where a: "AllocSlotLocked w = (i, w1)" by fastforce
  note A = alloc_spec [OF assms(1) a]
  show "find_at h es 0 w'" "h \<noteq> 0"
    using A(1,2) in_pool_pos [OF A(1)] assms(2-5)
    by (auto simp: MintFind_def a find_at_def Let_def Encode_def DecodeId_def slot_put)
qed

section \<open>Properties\<close>

text \<open>Property C33.  The type of the file system's state.  After any history of calls, with any
  handles, names, modes and origins, of which each returned: the free list has no duplicates and holds exactly the
  ids of the closed slots; an open loose slot has a FILE, an open pak slot has its size right and its cursor inside its bytes, an
  open search has its cursor inside its list; no two slots share a FILE, and the FILEs open in the C
  library are exactly those of the open loose slots, so none leaks.\<close>

theorem pool_typed:
  assumes "fs_run S (start_world files creatable) tr w"
  shows "distinct (g_freeList w) \<and> set (g_freeList w) = {i. in_pool w i \<and> of_closed (slot w i)}
    \<and> (\<forall>i. in_pool w i \<longrightarrow> slot_ok (slot w i))
    \<and> (\<forall>i j p. live_fp w i = Some p \<and> live_fp w j = Some p \<longrightarrow> i = j)
    \<and> dom (c_streams w) = {p. \<exists>i. live_fp w i = Some p}"
  using run_keeps [OF assms start_ok] unfolding pool_inv_def by blast

text \<open>Property C34.  No call stops the process.  For every list of calls whose modes the C library knows
  after the clean-up and whose seek origins are the three it knows, and whatever the handles, from the start on every call returns:
  no stale, forged or closed handle ever reaches a closed FILE of the C library.\<close>

theorem calls_return:
  assumes "list_all sane es"
  shows "\<exists>tr w. fs_run S (start_world files creatable) tr w \<and> map fst tr = es"
proof -
  have "\<exists>tr w'. fs_run S w tr w' \<and> map fst tr = es" if "pool_ok w" "list_all sane es" for w
    using that
  proof (induction es arbitrary: w)
    case (Cons e es)
    obtain a w1 where w1: "fs_step S e w = Some (a, w1)" "pool_ok w1"
      using good_step [OF Cons.prems(1), of e S] Cons.prems(2) by (auto simp: good_def)
    obtain tr w' where "fs_run S w1 tr w'" "map fst tr = es" using Cons.IH [OF w1(2)] Cons.prems(2) by auto
    then show ?case using run_cons [OF w1(1)] by fastforce
  qed (auto intro: run_nil)
  then show ?thesis using assms start_ok by blast
qed

text \<open>Property C35.  A handle on a pak entry refines a byte sequence with a position.  After any history,
  opening a name whose source is a pak entry that reads as the bytes b gives a handle, whatever the
  mode; and in every later history in which this handle is not closed and nothing is pushed back on
  it, its reads, gets, tells, seeks and size queries answer exactly as the reference does on b from
  position 0, whatever the other handles do in between.\<close>

theorem pak_handle_refines:
  assumes "fs_run S (start_world files creatable) tr0 w0"
    and "ResolveVPath (fe_index (sys_env S)) (NormalizeVPath n) = Some src" "is_Pak src"
    and "ReadPakEntry (fe_inflate (sys_env S)) (fe_crc32 (sys_env S)) (c_files w0 (path_string (pakFile src)))
      (source_entry src (NormalizeVPath n)) = Inr b"
  shows "\<exists>h w1. fs_step S (EOpen (Some n) m fl) w0 = Some (Handle h, w1) \<and> h \<noteq> 0
    \<and> (\<forall>tr w2. fs_run S w1 tr w2 \<and> list_all (\<lambda>(e, a). \<not> disturbs h e) tr \<longrightarrow>
         answers_of h tr = map Answered (ref_calls b 0 (asked_of h tr)))"
proof -
  have ok: "pool_ok w0" by (rule run_keeps [OF assms(1) start_ok])
  obtain h w1 where h: "kcdx_FOpen (sys_env S) (Some n) m fl w0 = Some (h, w1)" "pak_at h b 0 w1" "h \<noteq> 0"
    using FOpen_pak [OF ok assms(2-4)] by blast
  then have st: "fs_step S (EOpen (Some n) m fl) w0 = Some (Handle h, w1)" by (simp add: tagged_def)
  have "answers_of h tr = map Answered (ref_calls b 0 (asked_of h tr))"
    if "fs_run S w1 tr w2" "list_all (\<lambda>(e, a). \<not> disturbs h e) tr" for tr w2
    using run_refines [OF that(1) step_keeps [OF ok st] h(2) that(2)] .
  then show ?thesis using st h(3) by blast
qed



text \<open>Property C38.  A search lists its snapshot.  After any history, searching a pattern whose combined
  listing is not empty gives a handle and the first entry; the following calls to FindNext deliver the other entries, each
  once and in the order of the listing, and after the last one every further call answers -1.\<close>

theorem search_enumerates:
  assumes "fs_run S (start_world files creatable) tr w"
    and "find_set (sys_env S) (sys_walk S) (sys_idx S) pat = e # es"
  shows "\<exists>h w1 w2. kcdx_FindFirst (sys_env S) (sys_walk S) (sys_idx S) (Some pat) True w =
      Some ((int h, Some (FillFindData kFindDataNameCap e)), w1) \<and> h \<noteq> 0
    \<and> find_nexts n (int h) w1 = Some (map (\<lambda>e. (0, Some (FillFindData kFindDataNameCap e))) (take n es)
        @ replicate (n - length es) (-1, None), w2)"
proof -
  have ok: "pool_ok w" by (rule run_keeps [OF assms(1) start_ok])
  obtain h w0 where h: "MintFind (map fd_name (e # es)) (map fd_isDir (e # es)) w = (h, w0)" by fastforce
  have at: "find_at h (e # es) 0 w0" "h \<noteq> 0" using MintFind_at [OF ok _ h refl refl] by simp_all
  obtain w1 where w1: "FindAdvance h w0 = Some (True, w1)" "find_at h (e # es) 1 w1"
    using find_at_advance [OF at(1)] by auto
  have "kcdx_FindFirst (sys_env S) (sys_walk S) (sys_idx S) (Some pat) True w =
      Some ((int h, Some (FillFindData kFindDataNameCap e)), w1)"
    using h find_at_peek [OF at(1)] at(2) w1(1) by (simp add: kcdx_FindFirst_def assms(2) Let_def find_entry_eta)
  then show ?thesis using find_at_nexts [OF w1(2), of n] at(2) by auto
qed

text \<open>Property C39.  What a search lists.  The disk's matches come first, as they are; behind them stand exactly the
  paks' files directly below the folder that match the mask and whose name is not, up to case and separators, one of the
  disk's; and, where the mask takes folders, the folders the paks have below it, each once up to case and only if the disk
  has no entry of that name.\<close>

theorem listing_is_union:
  "\<exists>part. BuildUnifiedFindEntries disk idx P M = map (\<lambda>(n, d). \<lparr>fd_name = n, fd_isDir = d\<rparr>) disk @ part
    \<and> {b. \<lparr>fd_name = b, fd_isDir = False\<rparr> \<in> set part} =
        {b. (\<exists>src. (P @ b, src) \<in> set idx \<and> is_Pak src) \<and> b \<noteq> [] \<and> CHR ''/'' \<notin> set b \<and> WildcardMatch b M
          \<and> NormalizeVPath b \<notin> NormalizeVPath ` fst ` set disk}
    \<and> NormalizeVPath ` {d. \<lparr>fd_name = d, fd_isDir = True\<rparr> \<in> set part} =
        NormalizeVPath ` {d. (\<exists>r src. (P @ d @ ''/'' @ r, src) \<in> set idx \<and> is_Pak src) \<and> d \<noteq> [] \<and> CHR ''/'' \<notin> set d
          \<and> MaskMatchesDirectories M \<and> NormalizeVPath d \<notin> NormalizeVPath ` fst ` set disk}
    \<and> distinct (map (\<lambda>e. NormalizeVPath (fd_name e)) (filter fd_isDir part))"
proof -
  let ?seen = "NormalizeVPath ` set (map fst disk)"
  obtain part where part: "BuildUnifiedFindEntries disk idx P M = map (\<lambda>(n, d). \<lparr>fd_name = n, fd_isDir = d\<rparr>) disk @ part"
    "\<And>b. \<lparr>fd_name = b, fd_isDir = False\<rparr> \<in> set part \<longleftrightarrow> (\<exists>kv \<in> set idx. file_of ?seen P M kv b)"
    "\<And>d. \<lparr>fd_name = d, fd_isDir = True\<rparr> \<in> set part \<Longrightarrow> (\<exists>kv \<in> set idx. dir_of ?seen P M kv d)"
    "\<And>d. (\<exists>kv \<in> set idx. dir_of ?seen P M kv d) \<Longrightarrow>
        \<exists>d'. \<lparr>fd_name = d', fd_isDir = True\<rparr> \<in> set part \<and> NormalizeVPath d' = NormalizeVPath d"
    "distinct (map (\<lambda>e. NormalizeVPath (fd_name e)) (filter fd_isDir part))"
    using unify_fold [where es = "map (\<lambda>(n, d). \<lparr>fd_name = n, fd_isDir = d\<rparr>) disk" and em = "{}" and seen = ?seen
        and P = P and M = M and idx = idx]
    unfolding BuildUnifiedFindEntries_def Let_def by blast
  have f: "(\<exists>kv \<in> set idx. file_of ?seen P M kv b) \<longleftrightarrow> (\<exists>src. (P @ b, src) \<in> set idx \<and> is_Pak src) \<and> b \<noteq> []
      \<and> CHR ''/'' \<notin> set b \<and> WildcardMatch b M \<and> NormalizeVPath b \<notin> NormalizeVPath ` fst ` set disk" for b
    unfolding file_of_def set_map Bex_def split_paired_Ex fst_conv snd_conv by blast
  have g: "(\<exists>kv \<in> set idx. dir_of ?seen P M kv d) \<longleftrightarrow> (\<exists>r src. (P @ d @ ''/'' @ r, src) \<in> set idx \<and> is_Pak src) \<and> d \<noteq> []
      \<and> CHR ''/'' \<notin> set d \<and> MaskMatchesDirectories M \<and> NormalizeVPath d \<notin> NormalizeVPath ` fst ` set disk" for d
    unfolding dir_of_def set_map Bex_def split_paired_Ex fst_conv snd_conv by blast
  have "NormalizeVPath ` {d. \<lparr>fd_name = d, fd_isDir = True\<rparr> \<in> set part} = NormalizeVPath ` {d. \<exists>kv \<in> set idx. dir_of ?seen P M kv d}"
  proof
    show "NormalizeVPath ` {d. \<lparr>fd_name = d, fd_isDir = True\<rparr> \<in> set part} \<subseteq> NormalizeVPath ` {d. \<exists>kv \<in> set idx. dir_of ?seen P M kv d}"
      by (rule image_mono) (use part(3) in blast)
    show "NormalizeVPath ` {d. \<exists>kv \<in> set idx. dir_of ?seen P M kv d} \<subseteq> NormalizeVPath ` {d. \<lparr>fd_name = d, fd_isDir = True\<rparr> \<in> set part}"
    proof (rule image_subsetI)
      fix d
      assume "d \<in> {d. \<exists>kv \<in> set idx. dir_of ?seen P M kv d}"
      then obtain d' where "\<lparr>fd_name = d', fd_isDir = True\<rparr> \<in> set part" "NormalizeVPath d' = NormalizeVPath d"
        using part(4) [of d] by blast
      then show "NormalizeVPath d \<in> NormalizeVPath ` {d. \<lparr>fd_name = d, fd_isDir = True\<rparr> \<in> set part}"
        by (metis (mono_tags) image_eqI mem_Collect_eq)
    qed
  qed
  moreover have "{b. \<lparr>fd_name = b, fd_isDir = False\<rparr> \<in> set part} = {b. \<exists>kv \<in> set idx. file_of ?seen P M kv b}"
    using part(2) by (intro Collect_cong)
  ultimately show ?thesis using part(1,5) unfolding f g by (intro exI [of _ part] conjI)
qed


section \<open>Witnesses\<close>

definition tiny_disk :: "string \<rightharpoonup> bytes" where
  "tiny_disk = [''x.pak'' \<mapsto> pak_bytes [one_member], ''C:/m/b'' \<mapsto> [1, 2]]"

definition tiny_pak :: fs_path where
  "tiny_pak = \<lparr>fp_root = [], fp_rooted = False, fp_names = [''x.pak'']\<rparr>"

definition tiny_index :: asset_index where
  "tiny_index = [''a'' \<mapsto> pak_source tiny_pak (member_entries 0 [one_member] ! 0), ''b'' \<mapsto> Loose ''C:/m/b'']"

definition tiny_system :: fs_system where
  "tiny_system = \<lparr>sys_env = \<lparr>fe_index = tiny_index, fe_original = None, fe_utf16 = (\<lambda>s. length s + 1),
       fe_inflate = (\<lambda>b n. None), fe_crc32 = (\<lambda>out. sum_list (map unat out) + 4)\<rparr>,
     sys_walk = (\<lambda>p. [(''b'', False)]), sys_idx = [(''a'', pak_source tiny_pak (member_entries 0 [one_member] ! 0))]\<rparr>"

abbreviation tiny_start :: world where
  "tiny_start \<equiv> start_world tiny_disk (\<lambda>p. False)"

lemma tiny_path: "path_string tiny_pak = ''x.pak''"
  by (simp add: tiny_pak_def path_string_def)

lemma tiny_keys: "NormalizeVPath ''a'' = ''a''" "NormalizeVPath ''b'' = ''b''" "FoldEngineAliasToIndexKey ''a'' = ''a''"
  "FoldEngineAliasToIndexKey ''b'' = ''b''"
  by code_simp+

lemma tiny_star: "NormalizeVPath ''*'' = ''*''" "FoldEngineAliasToIndexKey ''*'' = ''*''" "IndexDirPrefix ''*'' = []"
  "IndexNameMask ''*'' = ''*''" "WildcardMatch ''a'' ''*''"
  by code_simp+

lemma tiny_member:
  "pak_ok [one_member]" "plain_data (fe_inflate (sys_env tiny_system)) ([one_member] ! 0) [1, 2]"
  "fe_crc32 (sys_env tiny_system) [1, 2] = zm_crc ([one_member] ! 0)" "length (zm_data ([one_member] ! 0)) \<le> kMaxEntryBytes"
  "zm_usize ([one_member] ! 0) \<le> kMaxEntryBytes"
  by (simp_all add: pak_ok_def member_ok_def one_member_def kZ16_def kZ32_def body_bytes_def local_bytes_def cdr_bytes_def
      plain_data_def tiny_system_def kMethodStored_def kMaxEntryBytes_def)

lemma tiny_world:
  "c_files tiny_start (path_string tiny_pak) = Some (pak_bytes [one_member])" "c_files tiny_start ''C:/m/b'' = Some [1, 2]"
  by (simp_all add: start_world_def tiny_disk_def tiny_path)

lemma tiny_resolve:
  "ResolveVPath (fe_index (sys_env tiny_system)) (NormalizeVPath ''a'') = Some (pak_source tiny_pak (member_entries 0 [one_member] ! 0))"
  "ResolveVPath (fe_index (sys_env tiny_system)) ''a'' = Some (pak_source tiny_pak (member_entries 0 [one_member] ! 0))"
  "ResolveVPath (fe_index (sys_env tiny_system)) (NormalizeVPath ''b'') = Some (Loose ''C:/m/b'')"
  "is_Pak (pak_source tiny_pak (member_entries 0 [one_member] ! 0))"
  by (simp_all add: ResolveVPath_def tiny_system_def tiny_index_def tiny_keys pak_source_def is_Pak_def)

lemma tiny_read:
  "ReadPakEntry (fe_inflate (sys_env tiny_system)) (fe_crc32 (sys_env tiny_system))
     (c_files tiny_start (path_string (pakFile (pak_source tiny_pak (member_entries 0 [one_member] ! 0)))))
     (source_entry (pak_source tiny_pak (member_entries 0 [one_member] ! 0)) (NormalizeVPath ''a'')) = Inr [1, 2]"
proof -
  have e: "source_entry (pak_source tiny_pak e) v = e\<lparr>pe_name := v\<rparr>" for e v by (simp add: pak_source_def)
  have p: "pakFile (pak_source tiny_pak e) = tiny_pak" for e by (simp add: pak_source_def)
  show ?thesis
    unfolding e ReadPakEntry_name p tiny_world
    by (rule read_member [where out = "[1, 2]" and ?crc32.0 = "fe_crc32 (sys_env tiny_system)", OF tiny_member(1) _ tiny_member(2-5)]) simp
qed

theorem pool_typed_witness:
  "\<exists>a1 a2 w. fs_run tiny_system tiny_start [(EOpen (Some ''b'') (Some ''rb'') 0, a1), (EClose 3, a2)] w
    \<and> (distinct (g_freeList w) \<and> set (g_freeList w) = {i. in_pool w i \<and> of_closed (slot w i)}
      \<and> (\<forall>i. in_pool w i \<longrightarrow> slot_ok (slot w i))
      \<and> (\<forall>i j p. live_fp w i = Some p \<and> live_fp w j = Some p \<longrightarrow> i = j)
      \<and> dom (c_streams w) = {p. \<exists>i. live_fp w i = Some p})"
proof -
  have sane: "list_all sane [EOpen (Some ''b'') (Some ''rb'') 0, EClose 3]"
    by (simp add: SanitizeLooseMode_def effective_mode_def valid_mode_def has_flag_def)
  obtain w1 a1 where w1: "fs_step tiny_system (EOpen (Some ''b'') (Some ''rb'') 0) tiny_start = Some (a1, w1)" "pool_ok w1"
    using good_step [OF start_ok, of "EOpen (Some ''b'') (Some ''rb'') 0" tiny_system tiny_disk "\<lambda>p. False"] sane
    by (auto simp: good_def simp del: fs_step.simps)
  obtain w2 a2 where w2: "fs_step tiny_system (EClose 3) w1 = Some (a2, w2)"
    using good_step [OF w1(2), of "EClose 3" tiny_system] by (auto simp: good_def simp del: fs_step.simps)
  have run: "fs_run tiny_system tiny_start [(EOpen (Some ''b'') (Some ''rb'') 0, a1), (EClose 3, a2)] w2"
    by (rule run_cons [OF w1(1) run_cons [OF w2 run_nil]])
  show ?thesis using run pool_typed [OF run] by blast
qed

theorem calls_return_witness:
  "\<exists>tr w. fs_run tiny_system tiny_start tr w
    \<and> map fst tr = [EOpen (Some ''a'') (Some ''rx'') 0, EClose 3, EClose 3, EAsk 3 (CRead 9), EAsk 6 (CSeek 4 2), EFindFirst (Some ''*'') True]"
  by (rule calls_return) (simp add: SanitizeLooseMode_def effective_mode_def valid_mode_def has_flag_def)

theorem pak_handle_refines_witness:
  "\<exists>h w1. fs_step tiny_system (EOpen (Some ''a'') None 0) tiny_start = Some (Handle h, w1) \<and> h \<noteq> 0
    \<and> (\<forall>tr w2. fs_run tiny_system w1 tr w2 \<and> list_all (\<lambda>(e, a). \<not> disturbs h e) tr \<longrightarrow>
         answers_of h tr = map Answered (ref_calls [1, 2] 0 (asked_of h tr)))"
  by (rule pak_handle_refines [OF run_nil tiny_resolve(1) tiny_resolve(4) tiny_read])



theorem search_enumerates_witness:
  "\<exists>h w1 w2. kcdx_FindFirst (sys_env tiny_system) (sys_walk tiny_system) (sys_idx tiny_system) (Some ''*'') True tiny_start =
      Some ((int h, Some (FillFindData kFindDataNameCap \<lparr>fd_name = ''b'', fd_isDir = False\<rparr>)), w1) \<and> h \<noteq> 0
    \<and> find_nexts 3 (int h) w1 = Some (map (\<lambda>e. (0, Some (FillFindData kFindDataNameCap e))) (take 3 [\<lparr>fd_name = ''a'', fd_isDir = False\<rparr>])
        @ replicate (3 - length [\<lparr>fd_name = ''a'', fd_isDir = False\<rparr>]) (-1, None), w2)"
proof (rule search_enumerates [OF run_nil])
  have "unify_step {''b''} [] ''*'' (''a'', pak_source tiny_pak (member_entries 0 [one_member] ! 0)) ([\<lparr>fd_name = ''b'', fd_isDir = False\<rparr>], {}) =
      ([\<lparr>fd_name = ''b'', fd_isDir = False\<rparr>, \<lparr>fd_name = ''a'', fd_isDir = False\<rparr>], {})"
    by (simp add: unify_step_def pak_source_def tiny_star tiny_keys Let_def)
  moreover have "resolved_pattern (sys_env tiny_system) ''*'' = ''*''"
    by (simp add: resolved_pattern_def kcdx_AdjustFileName_def tiny_system_def tiny_index_def ResolveVPath_def tiny_star
        ask_original_def kMaxPath_def)
  ultimately show "find_set (sys_env tiny_system) (sys_walk tiny_system) (sys_idx tiny_system) ''*'' =
      [\<lparr>fd_name = ''b'', fd_isDir = False\<rparr>, \<lparr>fd_name = ''a'', fd_isDir = False\<rparr>]"
    unfolding find_set_def
    by (simp add: tiny_star DiskWalk_def WidenPath_def BuildUnifiedFindEntries_def tiny_keys)
      (simp add: tiny_system_def tiny_keys kMaxPath_def cong: conj_cong)
qed


end
