(* ===== verification/Spec2Isabelle.thy ===== *)
theory Spec2Isabelle
  imports Load_Order Zone_Gate Behavior_Edges Init_Phase Behavior_Registry Behavior_Boundary
    Behavior_Drain Kcdx_Graph Auto_Order Mod_Manifest Topo_Sort Plugin_Loader Pak_Mods
    Order_Persist Mod_Record Enabled_List Boot_Handoff Cosave_Container Lua_Cosave
    Fs_Path Asset_Sidecar Asset_Overlay Pak_Reader Asset_Index Crt_Stream Handle_Pool Handle_Safety
    Handle_Streams Open_Slots Find_Slots Fs_History Fs_Contract
begin

text \<open>
  A verification library for kcdx, the plugin and mod loader of Kingdom Come: Deliverance II.

  The program is a DLL that loads before the game.  It reads plugin manifests and the user's
  load_order.toml, discovers the pak mods, resolves one total order over both, rejects plugins
  whose zone does not fit what they use, loads plugins in dependency order, hands the engine the
  resolved list of pak mods as native records, runs the behavior registry's apply boundary after
  the plugins are up, and writes the order and the recorded behavior edges back for the next
  launch.  That boot pipeline is what the library models.

  Conventions.  A std::string is a list of bytes (HOL characters), compared by unsigned byte.  A
  file-scope variable of the source is a field of a state record that every operation takes and
  returns.  A file is absent, unreadable or has content (\<open>disk_file\<close>).  Code outside the
  repository is a parameter: the toml++ parser, Windows file tests and LoadLibrary, the exports of
  plugins, the Lua VM (declarer code is an arbitrary interaction tree), the allocator.  Hypotheses
  about parameters say only what their documentation promises.

  Theories, in the order the boot runs them:

  Kcdx_Prelude: string operations, little-endian bytes, association lists, the lexicographic sort
  and the interfaces of the library (locales).
  Kcdx_Data: TOML documents, plugin and mod manifests, pak-mod entries, zones, files.
  Mod_Manifest (version_compat.cpp, mod_absorb/mod_manifest.cpp): the version rule, the reader of
  mod.manifest, its entity decoding and tag extraction.
  Pak_Mods (mod_absorb/pak_mod_registry.cpp, the pak part of config.cpp): mod_order.txt, discovery
  in the folders, the version gate.
  Load_Order (load_order.cpp): Read, Resolve, the comparison RunsBefore, the queries, snapshots.
  Zone_Gate (zone_gate.cpp): the capability table and the rejection record.
  Topo_Sort, Plugin_Loader (plugin_loader.cpp): validation, uniqueness, dependency edges, the
  sort, the preload, load and after-game waves, handles.
  Kcdx_Graph, Behavior_Edges, Auto_Order (load_order.cpp): the recorded edges, their check at the
  next launch, and the method that turns them into priorities.
  Behavior_Registry, Behavior_Boundary, Behavior_Drain (behavior_registry.cpp,
  lua_bind_behavior.cpp): declaring, setting and reading behaviors and the apply boundary.
  Init_Phase (init_phase.cpp): the startup phases.
  Order_Persist (mod_absorb/order_persist.cpp): what is written back to the two order files.
  Mod_Record (mod_absorb/record_synth.cpp, record_validate.cpp): the native records over an
  explicit byte heap.
  Enabled_List (mod_absorb/enabled_list_builder.cpp): the list of records the engine is given.
  Boot_Handoff (mod_absorb/select_detour.cpp, ctor_bracket.cpp, dllmain.cpp): the worker thread and
  the game thread as interleaved steps, the ready events they wait for, the constructor's bytes.
  Byte_Codec, Cosave_Container (serialization.cpp): byte cursors, the co-save file, its callbacks.
  Lua_Cosave (lua_cosave_serial.cpp): the encoding of Lua values in co-save records.
  Fs_Path (std::filesystem as the asset code uses it), Asset_Sidecar (asset_sidecar.cpp),
  Asset_Overlay (asset_overlay.cpp, asset_namespace.cpp): what plugins declare as replacements of
  game assets, the table built from it and the answers given to the engine's opens.
  Pak_Reader (fs_takeover/pak_reader.cpp): the central directory of a pak and one entry's bytes.
  Asset_Index (fs_takeover/asset_index.cpp): the index over all paks and the overlay, its lookup, and
  the stack of layers it refines.
  Crt_Stream: the C library's streams, as far as the file system uses them.
  Handle_Pool (fs_takeover/file_handle.cpp, read_slots.cpp): the pool of open files and every
  operation on a handle.  Handle_Safety: its invariant.  Handle_Streams: the reference a handle
  refines, that handles do not disturb each other, the locale of byte sources with its two
  interpretations.
  Open_Slots (open_slots.cpp, loose_mode.cpp, metadata_slots.cpp) and Find_Slots (find_slots.cpp,
  enum_slots.cpp): opening, name queries, searching.  Fs_History: histories of calls as a step
  relation.  Fs_Contract: what the file system promises over them.

  Fuel.  The only fuel is in the loops that need not end: \<open>topo_loop\<close> (n+1 passes are enough,
  proved), \<open>kahn\<close> (one step per node, proved) and \<open>drain\<close> (one unit per pass; enough when
  implementations declare nothing, proved, and not enough for any amount when they do, also
  proved).

  Not modelled: emitted machine code, hooks, signature scanning, the Lua bindings' marshalling, the
  Lua VM, logging, consoles, and I/O beyond the file contents above.
\<close>

end
